theory Spec2Isabelle
  imports Complex_Main "HOL-Library.Monad_Syntax"
begin

section \<open>The linked-CSR factor of the dynamic incomplete factorisation\<close>

text \<open>
  The development embeds the routines of
  \<^verbatim>\<open>sparse-iter/control/magma_zmdynamicilu_tools.cpp\<close>.

  The C struct \<^verbatim>\<open>magma_z_matrix\<close> is a record holding the fields the routines touch.
  The same struct type is used for the linked-CSR factor \<^verbatim>\<open>LU\<close>, for the system
  matrix \<^verbatim>\<open>A\<close> (classic CSR: \<^verbatim>\<open>row\<close>, \<^verbatim>\<open>col\<close>, \<^verbatim>\<open>val\<close>) and for the candidate
  list \<^verbatim>\<open>LU_new\<close> (COO: \<^verbatim>\<open>rowidx\<close>, \<^verbatim>\<open>col\<close>, \<^verbatim>\<open>val\<close>, \<^verbatim>\<open>nnz\<close>).

  Indices (\<^verbatim>\<open>magma_int_t\<close>, \<^verbatim>\<open>magma_index_t\<close>) are integers; no routine does index
  arithmetic beyond \<^verbatim>\<open>+ 1\<close>, so wrap-around plays no role. Values
  (\<^verbatim>\<open>magmaDoubleComplex\<close>) are complex numbers with exact arithmetic: rounding is
  outside the model. \<^verbatim>\<open>MAGMA_Z_ABS\<close> is the modulus, \<^verbatim>\<open>magma_zsqrt\<close> the principal
  square root, \<^verbatim>\<open>MAGMA_Z_ZERO\<close> is \<open>0\<close>.

  A C array is a list. Reading or writing outside the array is undefined behaviour in
  C; the model makes it the result \<open>None\<close>, and so is a loop that never ends. Every
  routine therefore returns an \<open>option\<close>, and a statement that a routine returns is
  a statement that its result is \<open>Some\<close>.

  The OpenMP loops are run in index order, one iteration after the other, which is
  one of the schedules the pragma allows; the row locks and the counter lock have no
  effect in that schedule.
\<close>

record magma_z_matrix =
  num_rows :: int
  nnz :: int
  row :: "int list"
  rowidx :: "int list"
  col :: "int list"
  list :: "int list"
  val :: "complex list"

definition rd :: "'a list \<Rightarrow> int \<Rightarrow> 'a option" where
  "rd xs i = (if 0 \<le> i \<and> i < int (length xs) then Some (xs ! nat i) else None)"

definition wr :: "'a list \<Rightarrow> int \<Rightarrow> 'a \<Rightarrow> 'a list option" where
  "wr xs i v = (if 0 \<le> i \<and> i < int (length xs) then Some (xs[nat i := v]) else None)"

text \<open>
  \<^verbatim>\<open>magma_zmorderstatistics(val, length, k, r, &element, queue)\<close> is not part of the
  file. It is a parameter of the model: a function from the array and the three
  integer arguments to the returned code, the (permuted) array and the element.
\<close>

type_synonym orderstatistics =
  "complex list \<Rightarrow> int \<Rightarrow> int \<Rightarrow> int \<Rightarrow> int \<times> complex list \<times> complex"

subsection \<open>\<^verbatim>\<open>magma_zmdynamicic_insert\<close>\<close>

text \<open>The inner \<^verbatim>\<open>while( j!=0 )\<close> loop (source lines 132--150).\<close>

partial_function (option) insert_walk ::
  "magma_z_matrix \<Rightarrow> int \<Rightarrow> int \<Rightarrow> int \<Rightarrow> int \<Rightarrow> int \<Rightarrow> int
     \<Rightarrow> (magma_z_matrix \<times> int) option" where
  "insert_walk LU num_insert loc new_row new_col j jn =
     (if j \<noteq> 0 then do {
        cjn \<leftarrow> rd (col LU) jn;
        if cjn = new_col then Some (LU, num_insert)
        else if cjn > new_col then do {
          l1 \<leftarrow> wr (list LU) j loc;
          l2 \<leftarrow> wr l1 loc jn;
          ri \<leftarrow> wr (rowidx LU) loc new_row;
          ci \<leftarrow> wr (col LU) loc new_col;
          vi \<leftarrow> wr (val LU) loc 0;
          Some (LU\<lparr>rowidx := ri, col := ci, list := l2, val := vi\<rparr>, num_insert + 1)
        } else do {
          jn' \<leftarrow> rd (list LU) jn;
          insert_walk LU num_insert loc new_row new_col jn jn'
        }
      } else Some (LU, num_insert))"

text \<open>
  The body of the outer loop for the candidate \<open>(new_row, new_col)\<close> and the free
  slot \<open>loc\<close> (source lines 109--151): prepend, skip a duplicate of the row's first
  entry, or walk the chain.
\<close>

definition insert_candidate ::
  "magma_z_matrix \<Rightarrow> int \<Rightarrow> int \<Rightarrow> int \<Rightarrow> int \<Rightarrow> (magma_z_matrix \<times> int) option" where
  "insert_candidate LU num_insert loc new_row new_col = do {
     old_rowstart \<leftarrow> rd (row LU) new_row;
     c0 \<leftarrow> rd (col LU) old_rowstart;
     if new_col < c0 then do {
       rw \<leftarrow> wr (row LU) new_row loc;
       li \<leftarrow> wr (list LU) loc old_rowstart;
       ri \<leftarrow> wr (rowidx LU) loc new_row;
       ci \<leftarrow> wr (col LU) loc new_col;
       vi \<leftarrow> wr (val LU) loc 0;
       Some (LU\<lparr>row := rw, rowidx := ri, col := ci, list := li, val := vi\<rparr>, num_insert + 1)
     } else if new_col = c0 then Some (LU, num_insert)
     else do {
       jn \<leftarrow> rd (list LU) old_rowstart;
       insert_walk LU num_insert loc new_row new_col old_rowstart jn
     }
   }"

text \<open>
  The outer \<^verbatim>\<open>while( num_insert < num_rm )\<close> loop (source lines 99--156), with its
  \<^verbatim>\<open>break\<close> when the candidate cursor \<open>i\<close> reaches \<^verbatim>\<open>LU_new->nnz\<close>. It returns the
  factor and the two cursors.
\<close>

partial_function (option) insert_loop ::
  "int \<Rightarrow> int list \<Rightarrow> magma_z_matrix \<Rightarrow> magma_z_matrix \<Rightarrow> int \<Rightarrow> int
     \<Rightarrow> (magma_z_matrix \<times> int \<times> int) option" where
  "insert_loop num_rm rm_loc LU_new LU i num_insert =
     (if num_insert < num_rm then
        if i \<ge> nnz LU_new then Some (LU, i, num_insert)
        else do {
          loc \<leftarrow> rd rm_loc num_insert;
          new_row \<leftarrow> rd (rowidx LU_new) i;
          new_col \<leftarrow> rd (col LU_new) i;
          (LU', num_insert') \<leftarrow> insert_candidate LU num_insert loc new_row new_col;
          insert_loop num_rm rm_loc LU_new LU' (i + 1) num_insert'
        }
      else Some (LU, i, num_insert))"

text \<open>
  The routine: the guard \<^verbatim>\<open>if(num_rm>=LU_new->nnz) goto cleanup\<close>, the call of the
  order statistics under \<^verbatim>\<open>CHECK\<close> (a code other than 0 is returned at once), the
  loop. The result is the returned code \<^verbatim>\<open>info\<close>, the candidate list (whose \<^verbatim>\<open>val\<close>
  the order statistics may have permuted) and the factor.
\<close>

definition magma_zmdynamicic_insert ::
  "orderstatistics \<Rightarrow> int \<Rightarrow> int list \<Rightarrow> magma_z_matrix \<Rightarrow> magma_z_matrix
     \<Rightarrow> (int \<times> magma_z_matrix \<times> magma_z_matrix) option" where
  "magma_zmdynamicic_insert os num_rm rm_loc LU_new LU =
     (if num_rm \<ge> nnz LU_new then Some (0, LU_new, LU)
      else case os (val LU_new) num_rm (nnz LU_new - 1) 1 of
        (info, v, element) \<Rightarrow>
          if info \<noteq> 0 then Some (info, LU_new\<lparr>val := v\<rparr>, LU)
          else do {
            (LU', i, num_insert) \<leftarrow> insert_loop num_rm rm_loc (LU_new\<lparr>val := v\<rparr>) LU 0 0;
            Some (0, LU_new\<lparr>val := v\<rparr>, LU')
          })"

subsection \<open>\<^verbatim>\<open>magma_zmdynamicilu_rm_thrs\<close>\<close>

text \<open>
  The \<^verbatim>\<open>while( nexti!=0 )\<close> loop over the chain of row \<open>r\<close> (source lines 321--364).
  The test \<^verbatim>\<open>LU->col[ i ] != r\<close> is commented out in the source and so is absent
  here.
\<close>

partial_function (option) rm_thrs_walk ::
  "complex \<Rightarrow> int \<Rightarrow> magma_z_matrix \<Rightarrow> int list \<Rightarrow> int \<Rightarrow> int \<Rightarrow> int \<Rightarrow> int
     \<Rightarrow> (magma_z_matrix \<times> int list \<times> int) option" where
  "rm_thrs_walk thrs r LU rm_loc count_rm i lasti nexti =
     (if nexti \<noteq> 0 then do {
        v \<leftarrow> rd (val LU) i;
        if cmod v < cmod thrs then do {
          vl \<leftarrow> wr (val LU) i 0;
          l1 \<leftarrow> wr (list LU) i (- 1);
          rm \<leftarrow> wr rm_loc count_rm i;
          h \<leftarrow> rd (row LU) r;
          if h = i then do {
            rw \<leftarrow> wr (row LU) r nexti;
            nn \<leftarrow> rd l1 nexti;
            rm_thrs_walk thrs r (LU\<lparr>row := rw, list := l1, val := vl\<rparr>) rm (count_rm + 1)
              nexti i nn
          } else do {
            l2 \<leftarrow> wr l1 lasti nexti;
            nn \<leftarrow> rd l2 nexti;
            rm_thrs_walk thrs r (LU\<lparr>list := l2, val := vl\<rparr>) rm (count_rm + 1)
              nexti lasti nn
          }
        } else do {
          nn \<leftarrow> rd (list LU) nexti;
          rm_thrs_walk thrs r LU rm_loc count_rm nexti i nn
        }
      } else Some (LU, rm_loc, count_rm))"

text \<open>The loop over the rows (source lines 317--365).\<close>

partial_function (option) rm_thrs_rows ::
  "complex \<Rightarrow> magma_z_matrix \<Rightarrow> int list \<Rightarrow> int \<Rightarrow> int
     \<Rightarrow> (magma_z_matrix \<times> int list \<times> int) option" where
  "rm_thrs_rows thrs LU rm_loc count_rm r =
     (if r < num_rows LU then do {
        i \<leftarrow> rd (row LU) r;
        nexti \<leftarrow> rd (list LU) i;
        (LU', rm, c) \<leftarrow> rm_thrs_walk thrs r LU rm_loc count_rm i i nexti;
        rm_thrs_rows thrs LU' rm c (r + 1)
      } else Some (LU, rm_loc, count_rm))"

text \<open>The routine returns \<^verbatim>\<open>info\<close> (always 0), \<^verbatim>\<open>*num_rm\<close>, the factor and \<^verbatim>\<open>rm_loc\<close>.\<close>

definition magma_zmdynamicilu_rm_thrs ::
  "complex \<Rightarrow> magma_z_matrix \<Rightarrow> int list
     \<Rightarrow> (int \<times> int \<times> magma_z_matrix \<times> int list) option" where
  "magma_zmdynamicilu_rm_thrs thrs LU rm_loc = do {
     (LU', rm, count_rm) \<leftarrow> rm_thrs_rows thrs LU rm_loc 0 0;
     Some (0, count_rm, LU', rm)
   }"

subsection \<open>\<^verbatim>\<open>magma_zmdynamicilu_set_thrs\<close>\<close>

text \<open>
  \<^verbatim>\<open>magma_zmalloc_cpu\<close> is not part of the file; its returned code is the parameter
  \<open>alloc\<close>. \<^verbatim>\<open>blasf77_zcopy\<close> copies the first \<^verbatim>\<open>LU->nnz\<close> values into the scratch
  array. The result is \<^verbatim>\<open>info\<close>, \<^verbatim>\<open>*thrs\<close> (\<open>thrs0\<close> is its value before the call)
  and the factor after the call.
\<close>

definition magma_zmdynamicilu_set_thrs ::
  "orderstatistics \<Rightarrow> int \<Rightarrow> int \<Rightarrow> magma_z_matrix \<Rightarrow> complex
     \<Rightarrow> (int \<times> complex \<times> magma_z_matrix) option" where
  "magma_zmdynamicilu_set_thrs os alloc num_rm LU thrs0 =
     (if alloc \<noteq> 0 then Some (alloc, thrs0, LU)
      else if nnz LU > int (length (val LU)) then None
      else case os (take (nat (nnz LU)) (val LU)) (nnz LU) num_rm 0 of
        (info, scratch, element) \<Rightarrow>
          if info \<noteq> 0 then Some (info, thrs0, LU) else Some (0, element, LU))"

subsection \<open>The merge walk of \<^verbatim>\<open>magma_zmdynamicic_sweep\<close> and \<^verbatim>\<open>magma_zmdynamicic_residuals\<close>\<close>

text \<open>
  The loop \<^verbatim>\<open>for( i = A.row[row]; i<A.row[row+1]; i++ )\<close> that looks the position up
  in the system matrix (source lines 491--495 and 588--592): the last match wins.
\<close>

partial_function (option) lookup_A ::
  "magma_z_matrix \<Rightarrow> int \<Rightarrow> int \<Rightarrow> int \<Rightarrow> complex \<Rightarrow> complex option" where
  "lookup_A A c i iend A_e =
     (if i < iend then do {
        ci \<leftarrow> rd (col A) i;
        if ci = c then do {
          v \<leftarrow> rd (val A) i;
          lookup_A A c (i + 1) iend v
        } else lookup_A A c (i + 1) iend A_e
      } else Some A_e)"

text \<open>
  One pass through the body of the \<^verbatim>\<open>do { ... } while( i!=0 && j!=0 )\<close> loop (source
  lines 503--519 and 600--616). It yields the new \<open>i\<close>, \<open>j\<close>, \<open>sum\<close> and the \<open>lsum\<close>
  of this pass (\<open>sum0\<close> is \<^verbatim>\<open>sum\<close> before the pass).
\<close>

definition merge_step ::
  "magma_z_matrix \<Rightarrow> int \<Rightarrow> int \<Rightarrow> complex \<Rightarrow> (int \<times> int \<times> complex \<times> complex) option" where
  "merge_step LU i j sum0 = do {
     icol \<leftarrow> rd (col LU) i;
     jcol \<leftarrow> rd (col LU) j;
     if icol = jcol then do {
       vi \<leftarrow> rd (val LU) i;
       vj \<leftarrow> rd (val LU) j;
       ni \<leftarrow> rd (list LU) i;
       nj \<leftarrow> rd (list LU) j;
       Some (ni, nj, sum0 + vi * vj, vi * vj)
     } else if icol < jcol then do {
       ni \<leftarrow> rd (list LU) i;
       Some (ni, j, sum0, 0)
     } else do {
       nj \<leftarrow> rd (list LU) j;
       Some (i, nj, sum0, 0)
     }
   }"

text \<open>
  The do-while loop: the body runs once before the condition is tested. The result
  is \<open>sum\<close>, the \<open>lsum\<close> of the last pass and \<open>jold\<close>, the value of \<open>j\<close> at the start
  of the last pass (\<open>iold\<close> is never read in the source).
\<close>

partial_function (option) merge_walk ::
  "magma_z_matrix \<Rightarrow> int \<Rightarrow> int \<Rightarrow> complex \<Rightarrow> (complex \<times> complex \<times> int) option" where
  "merge_walk LU i j sum0 = do {
     (i', j', sum1, lsum) \<leftarrow> merge_step LU i j sum0;
     if i' \<noteq> 0 \<and> j' \<noteq> 0 then merge_walk LU i' j' sum1 else Some (sum1, lsum, j)
   }"

subsection \<open>\<^verbatim>\<open>magma_zmdynamicic_sweep\<close>\<close>

text \<open>The body of the loop over the slots, for slot \<open>e\<close> (source lines 482--529);
  \<open>sum1\<close> is the source's \<^verbatim>\<open>sum\<close> after the walk.\<close>

definition sweep_elem :: "magma_z_matrix \<Rightarrow> magma_z_matrix \<Rightarrow> int \<Rightarrow> magma_z_matrix option" where
  "sweep_elem A LU e = do {
     le \<leftarrow> rd (list LU) e;
     if le \<noteq> - 1 then do {
       r \<leftarrow> rd (rowidx LU) e;
       c \<leftarrow> rd (col LU) e;
       i0 \<leftarrow> rd (row A) r;
       i1 \<leftarrow> rd (row A) (r + 1);
       A_e \<leftarrow> lookup_A A c i0 i1 0;
       i \<leftarrow> rd (row LU) r;
       j \<leftarrow> rd (row LU) c;
       (sum1, lsum, jold) \<leftarrow> merge_walk LU i j 0;
       if r = c then do {
         v \<leftarrow> wr (val LU) e (csqrt (A_e - (sum1 - lsum)));
         Some (LU\<lparr>val := v\<rparr>)
       } else do {
         d \<leftarrow> rd (val LU) jold;
         v \<leftarrow> wr (val LU) e ((A_e - (sum1 - lsum)) / d);
         Some (LU\<lparr>val := v\<rparr>)
       }
     } else Some LU
   }"

text \<open>
  The loop \<^verbatim>\<open>for( e=0; e<LU->nnz; e++ )\<close>, written with its upper bound as an
  argument so that the state in which a slot is processed can be named.
\<close>

partial_function (option) sweep_range ::
  "magma_z_matrix \<Rightarrow> magma_z_matrix \<Rightarrow> int \<Rightarrow> int \<Rightarrow> magma_z_matrix option" where
  "sweep_range A LU e n =
     (if e < n then do {
        LU' \<leftarrow> sweep_elem A LU e;
        sweep_range A LU' (e + 1) n
      } else Some LU)"

definition magma_zmdynamicic_sweep ::
  "magma_z_matrix \<Rightarrow> magma_z_matrix \<Rightarrow> (int \<times> magma_z_matrix) option" where
  "magma_zmdynamicic_sweep A LU = do {
     LU' \<leftarrow> sweep_range A LU 0 (nnz LU);
     Some (0, LU')
   }"

subsection \<open>\<^verbatim>\<open>magma_zmdynamicic_residuals\<close>\<close>

text \<open>The body of the loop over the candidates, for candidate \<open>e\<close> (source lines 580--620).\<close>

definition residual_elem ::
  "magma_z_matrix \<Rightarrow> magma_z_matrix \<Rightarrow> magma_z_matrix \<Rightarrow> int \<Rightarrow> magma_z_matrix option" where
  "residual_elem A LU LU_new e = do {
     r \<leftarrow> rd (rowidx LU_new) e;
     c \<leftarrow> rd (col LU_new) e;
     i0 \<leftarrow> rd (row A) r;
     i1 \<leftarrow> rd (row A) (r + 1);
     A_e \<leftarrow> lookup_A A c i0 i1 0;
     i \<leftarrow> rd (row LU) r;
     j \<leftarrow> rd (row LU) c;
     (sum1, lsum, jold) \<leftarrow> merge_walk LU i j 0;
     v \<leftarrow> wr (val LU_new) e (A_e - sum1);
     Some (LU_new\<lparr>val := v\<rparr>)
   }"

partial_function (option) residual_range ::
  "magma_z_matrix \<Rightarrow> magma_z_matrix \<Rightarrow> magma_z_matrix \<Rightarrow> int \<Rightarrow> int
     \<Rightarrow> magma_z_matrix option" where
  "residual_range A LU LU_new e n =
     (if e < n then do {
        LU_new' \<leftarrow> residual_elem A LU LU_new e;
        residual_range A LU LU_new' (e + 1) n
      } else Some LU_new)"

definition magma_zmdynamicic_residuals ::
  "magma_z_matrix \<Rightarrow> magma_z_matrix \<Rightarrow> magma_z_matrix \<Rightarrow> (int \<times> magma_z_matrix) option" where
  "magma_zmdynamicic_residuals A LU LU_new = do {
     LU_new' \<leftarrow> residual_range A LU LU_new 0 (nnz LU_new);
     Some (0, LU_new')
   }"

subsection \<open>\<^verbatim>\<open>magma_zmdynamicic_candidates_n\<close>\<close>

text \<open>
  \<^verbatim>\<open>magma_index_malloc_cpu\<close> and \<^verbatim>\<open>magma_zmalloc_cpu\<close> are not part of the file. The
  model takes them as a parameter: for each of the four allocations of the routine
  the returned code and the content of the fresh array (position by position; C
  leaves it indeterminate). An array of \<open>n\<close> entries with content \<open>f\<close> is
  \<open>map f [0..<n]\<close>.
\<close>

record allocator =
  numadd_code :: int
  val_code :: int
  rowidx_code :: int
  col_code :: int
  numadd_init :: "nat \<Rightarrow> int"
  val_init :: "nat \<Rightarrow> complex"
  rowidx_init :: "nat \<Rightarrow> int"
  col_init :: "nat \<Rightarrow> int"

text \<open>The loop \<^verbatim>\<open>for( i = 0; i<LU.num_rows+1; i++ ) numadd[i] = 0\<close> (source lines 808--810).\<close>

partial_function (option) zero_fill :: "int list \<Rightarrow> int \<Rightarrow> int \<Rightarrow> int list option" where
  "zero_fill numadd i n =
     (if i < n then do {
        numadd' \<leftarrow> wr numadd i 0;
        zero_fill numadd' (i + 1) n
      } else Some numadd)"

text \<open>
  The scan of row \<^verbatim>\<open>checkrow\<close> for the column \<^verbatim>\<open>checkelement\<close>. In the counting pass
  the loop runs to the end of the chain (source lines 844--850); in the insertion
  pass it leaves at the first hit (source lines 910--917). Both yield \<^verbatim>\<open>exist\<close>.
\<close>

partial_function (option) check_scan :: "magma_z_matrix \<Rightarrow> int \<Rightarrow> int \<Rightarrow> int \<Rightarrow> int option" where
  "check_scan LU checkelement check exist =
     (if check \<noteq> 0 then do {
        c \<leftarrow> rd (col LU) check;
        n \<leftarrow> rd (list LU) check;
        check_scan LU checkelement n (if c = checkelement then 1 else exist)
      } else Some exist)"

partial_function (option) check_find :: "magma_z_matrix \<Rightarrow> int \<Rightarrow> int \<Rightarrow> int option" where
  "check_find LU checkelement check =
     (if check \<noteq> 0 then do {
        c \<leftarrow> rd (col LU) check;
        if c = checkelement then Some 1
        else do {
          n \<leftarrow> rd (list LU) check;
          check_find LU checkelement n
        }
      } else Some 0)"

text \<open>
  The counting pass (source lines 814--861): the loop of \<^verbatim>\<open>lcol2\<close> over the row for a
  fixed \<^verbatim>\<open>lcol1\<close>, the loop of \<^verbatim>\<open>lcol1\<close> over the row, and the loop over the rows.
  The reads of \<^verbatim>\<open>LU.row[ row+1 ]\<close> and \<^verbatim>\<open>LU.row[ checkrow+1 ]\<close>, whose values are
  never used, are reads all the same.
\<close>

partial_function (option) count_lcol2 ::
  "magma_z_matrix \<Rightarrow> int \<Rightarrow> int \<Rightarrow> int \<Rightarrow> int list \<Rightarrow> int list option" where
  "count_lcol2 LU r lcol1 lcol2 numadd =
     (if lcol2 \<noteq> 0 then do {
        col1 \<leftarrow> rd (col LU) lcol1;
        col2 \<leftarrow> rd (col LU) lcol2;
        if col2 \<ge> col1 then do {
          n \<leftarrow> rd (list LU) lcol2;
          count_lcol2 LU r lcol1 n numadd
        } else do {
          check \<leftarrow> rd (row LU) (max col1 col2);
          checkend \<leftarrow> rd (row LU) (max col1 col2 + 1);
          exist \<leftarrow> check_scan LU (min col1 col2) check 0;
          numadd' \<leftarrow> (if exist = 0 then do {
              a \<leftarrow> rd numadd (r + 1);
              wr numadd (r + 1) (a + 1)
            } else Some numadd);
          n \<leftarrow> rd (list LU) lcol2;
          count_lcol2 LU r lcol1 n numadd'
        }
      } else Some numadd)"

partial_function (option) count_lcol1 ::
  "magma_z_matrix \<Rightarrow> int \<Rightarrow> int \<Rightarrow> int \<Rightarrow> int list \<Rightarrow> int list option" where
  "count_lcol1 LU r start lcol1 numadd =
     (if lcol1 \<noteq> 0 then do {
        c \<leftarrow> rd (col LU) lcol1;
        if c = r then do {
          n \<leftarrow> rd (list LU) lcol1;
          count_lcol1 LU r start n numadd
        } else do {
          numadd' \<leftarrow> count_lcol2 LU r lcol1 start numadd;
          n \<leftarrow> rd (list LU) lcol1;
          count_lcol1 LU r start n numadd'
        }
      } else Some numadd)"

partial_function (option) count_rows ::
  "magma_z_matrix \<Rightarrow> int \<Rightarrow> int list \<Rightarrow> int list option" where
  "count_rows LU r numadd =
     (if r < num_rows LU then do {
        start \<leftarrow> rd (row LU) r;
        end0 \<leftarrow> rd (row LU) (r + 1);
        numadd' \<leftarrow> count_lcol1 LU r start start numadd;
        count_rows LU (r + 1) numadd'
      } else Some numadd)"

text \<open>
  The running total (source lines 865--869): \<^verbatim>\<open>LU_new->nnz += numadd[i];
  numadd[i] = LU_new->nnz\<close>. The result is \<^verbatim>\<open>numadd\<close> and \<^verbatim>\<open>LU_new->nnz\<close>.
\<close>

partial_function (option) running_total ::
  "int list \<Rightarrow> int \<Rightarrow> int \<Rightarrow> int \<Rightarrow> (int list \<times> int) option" where
  "running_total numadd i n new_nnz =
     (if i < n then do {
        a \<leftarrow> rd numadd i;
        numadd' \<leftarrow> wr numadd i (new_nnz + a);
        running_total numadd' (i + 1) n (new_nnz + a)
      } else Some (numadd, new_nnz))"

text \<open>
  The insertion pass (source lines 879--929), with the candidate list and \<^verbatim>\<open>ladd\<close> as
  the state: a candidate is written to position \<^verbatim>\<open>numadd[row] + ladd\<close> of the three
  arrays of the candidate list.
\<close>

partial_function (option) emit_lcol2 ::
  "magma_z_matrix \<Rightarrow> int list \<Rightarrow> int \<Rightarrow> int \<Rightarrow> int \<Rightarrow> magma_z_matrix \<Rightarrow> int
     \<Rightarrow> (magma_z_matrix \<times> int) option" where
  "emit_lcol2 LU numadd r lcol1 lcol2 LU_new ladd =
     (if lcol2 \<noteq> 0 then do {
        col1 \<leftarrow> rd (col LU) lcol1;
        col2 \<leftarrow> rd (col LU) lcol2;
        if col2 \<ge> col1 then do {
          n \<leftarrow> rd (list LU) lcol2;
          emit_lcol2 LU numadd r lcol1 n LU_new ladd
        } else do {
          check \<leftarrow> rd (row LU) (max col2 col1);
          exist \<leftarrow> check_find LU (min col1 col2) check;
          (LU_new', ladd') \<leftarrow> (if exist = 0 then do {
              off \<leftarrow> rd numadd r;
              v \<leftarrow> wr (val LU_new) (off + ladd) 0;
              ri \<leftarrow> wr (rowidx LU_new) (off + ladd) (max col2 col1);
              ci \<leftarrow> wr (col LU_new) (off + ladd) (min col1 col2);
              Some (LU_new\<lparr>rowidx := ri, col := ci, val := v\<rparr>, ladd + 1)
            } else Some (LU_new, ladd));
          n \<leftarrow> rd (list LU) lcol2;
          emit_lcol2 LU numadd r lcol1 n LU_new' ladd'
        }
      } else Some (LU_new, ladd))"

partial_function (option) emit_lcol1 ::
  "magma_z_matrix \<Rightarrow> int list \<Rightarrow> int \<Rightarrow> int \<Rightarrow> int \<Rightarrow> magma_z_matrix \<Rightarrow> int
     \<Rightarrow> (magma_z_matrix \<times> int) option" where
  "emit_lcol1 LU numadd r start lcol1 LU_new ladd =
     (if lcol1 \<noteq> 0 then do {
        c \<leftarrow> rd (col LU) lcol1;
        if c = r then do {
          n \<leftarrow> rd (list LU) lcol1;
          emit_lcol1 LU numadd r start n LU_new ladd
        } else do {
          (LU_new', ladd') \<leftarrow> emit_lcol2 LU numadd r lcol1 start LU_new ladd;
          n \<leftarrow> rd (list LU) lcol1;
          emit_lcol1 LU numadd r start n LU_new' ladd'
        }
      } else Some (LU_new, ladd))"

partial_function (option) emit_rows ::
  "magma_z_matrix \<Rightarrow> int list \<Rightarrow> int \<Rightarrow> magma_z_matrix \<Rightarrow> magma_z_matrix option" where
  "emit_rows LU numadd r LU_new =
     (if r < num_rows LU then do {
        start \<leftarrow> rd (row LU) r;
        end0 \<leftarrow> rd (row LU) (r + 1);
        (LU_new', ladd) \<leftarrow> emit_lcol1 LU numadd r start start LU_new 0;
        emit_rows LU numadd (r + 1) LU_new'
      } else Some LU_new)"

text \<open>
  The routine (source lines 794--934). A failing allocation leaves through
  \<^verbatim>\<open>cleanup\<close> with its code and with the candidate list as far as it was set. The
  result is \<^verbatim>\<open>info\<close> and the candidate list. (\<^verbatim>\<open>num_cols\<close> is not a field of the
  record: no routine reads it.)
\<close>

definition magma_zmdynamicic_candidates_n ::
  "allocator \<Rightarrow> magma_z_matrix \<Rightarrow> magma_z_matrix \<Rightarrow> (int \<times> magma_z_matrix) option" where
  "magma_zmdynamicic_candidates_n al LU LU_new =
     (if numadd_code al \<noteq> 0 then Some (numadd_code al, LU_new\<lparr>nnz := 0\<rparr>)
      else do {
        numadd0 \<leftarrow> zero_fill (map (numadd_init al) [0..<nat (num_rows LU + 1)]) 0
                     (num_rows LU + 1);
        numadd1 \<leftarrow> count_rows LU 0 numadd0;
        (numadd, new_nnz) \<leftarrow> running_total numadd1 0 (num_rows LU + 1) 0;
        if val_code al \<noteq> 0 then Some (val_code al, LU_new\<lparr>nnz := new_nnz\<rparr>)
        else if rowidx_code al \<noteq> 0 then
          Some (rowidx_code al, LU_new\<lparr>nnz := new_nnz, val := map (val_init al) [0..<nat new_nnz]\<rparr>)
        else if col_code al \<noteq> 0 then
          Some (col_code al, LU_new\<lparr>nnz := new_nnz, val := map (val_init al) [0..<nat new_nnz],
                  rowidx := map (rowidx_init al) [0..<nat new_nnz]\<rparr>)
        else do {
          LU_new' \<leftarrow> emit_rows LU numadd 0
            (LU_new\<lparr>num_rows := num_rows LU, nnz := new_nnz,
               rowidx := map (rowidx_init al) [0..<nat new_nnz],
               col := map (col_init al) [0..<nat new_nnz],
               val := map (val_init al) [0..<nat new_nnz]\<rparr>);
          Some (0, LU_new')
        }
      })"

subsection \<open>The selection\<close>

text \<open>
  Modelled from the spec: \<^verbatim>\<open>magma_zmorderstatistics\<close> is not part of the file. Section 4.2
  of the specification describes it as \<^verbatim>\<open>select(values, k, mode)\<close>: it returns the
  \<open>k\<close>-th extremal magnitude and partially permutes \<^verbatim>\<open>values\<close> so that the \<open>k\<close> extremal
  entries occupy the first \<open>k\<close> slots. Here the first \<open>len\<close> entries are arranged by
  magnitude, ascending for mode 0 (smallest, the mode that
  \<^verbatim>\<open>magma_zmdynamicilu_set_thrs\<close> passes) and descending otherwise, which puts the
  \<open>k\<close> extremal entries into the first \<open>k\<close> slots; the pivot is the magnitude of the
  entry that follows them, the entry at position \<open>k\<close>; the code is 0.
\<close>

definition select_spec :: orderstatistics where
  "select_spec v len k r =
     (let w = take (nat len) v;
          s = (if r = 0 then sort_key cmod w else rev (sort_key cmod w))
      in (0, s @ drop (nat len) v, complex_of_real (cmod (s ! nat k))))"

section \<open>Chains and the invariants of the specification\<close>

text \<open>
  The chain of a row is the list of slots met when \<^verbatim>\<open>list\<close> is followed from
  \<^verbatim>\<open>row[r]\<close> until the terminator 0. \<open>follow n\<close> makes at most \<open>n\<close> hops; the
  chain of the factor is \<open>follow\<close> with \<^verbatim>\<open>nnz\<close> hops (property P1 of the
  specification: the terminator is reached in at most \<^verbatim>\<open>nnz\<close> steps). The result
  is \<open>None\<close> when the walk leaves the array (a freed slot has \<^verbatim>\<open>list = -1\<close>) or
  does not reach 0 in time.
\<close>

fun follow :: "nat \<Rightarrow> int list \<Rightarrow> int \<Rightarrow> int list option" where
  "follow 0 l s = (if s = 0 then Some [] else None)"
| "follow (Suc n) l s =
     (if s = 0 then Some []
      else case rd l s of None \<Rightarrow> None | Some t \<Rightarrow> map_option ((#) s) (follow n l t))"

definition chain :: "magma_z_matrix \<Rightarrow> int \<Rightarrow> int list option" where
  "chain LU r =
     (case rd (row LU) r of None \<Rightarrow> None
      | Some s \<Rightarrow> follow (nat (nnz LU)) (list LU) s)"

text \<open>The column of a slot, and the columns of a row in link order.\<close>

definition colv :: "magma_z_matrix \<Rightarrow> int \<Rightarrow> int" where
  "colv LU s = col LU ! nat s"

definition cols :: "magma_z_matrix \<Rightarrow> int \<Rightarrow> int list" where
  "cols LU r = (case chain LU r of None \<Rightarrow> [] | Some xs \<Rightarrow> map (colv LU) xs)"

text \<open>
  The invariants of section 3.1 of the specification, for one row \<open>r\<close>.
  (I1) the chain ends; (I2) the columns increase strictly along the chain; (I3) no
  column occurs twice; (I4) every slot of the chain is a slot below \<^verbatim>\<open>nnz\<close> whose
  \<^verbatim>\<open>rowidx\<close> is \<open>r\<close> and whose \<^verbatim>\<open>list\<close> is not \<open>-1\<close>; (I5) the chain is not empty
  and its last entry is the diagonal.
\<close>

definition I1 :: "magma_z_matrix \<Rightarrow> int \<Rightarrow> bool" where
  "I1 LU r = (chain LU r \<noteq> None)"

definition I2 :: "magma_z_matrix \<Rightarrow> int \<Rightarrow> bool" where
  "I2 LU r = sorted_wrt (<) (cols LU r)"

definition I3 :: "magma_z_matrix \<Rightarrow> int \<Rightarrow> bool" where
  "I3 LU r = distinct (cols LU r)"

definition I4 :: "magma_z_matrix \<Rightarrow> int \<Rightarrow> bool" where
  "I4 LU r =
     (case chain LU r of None \<Rightarrow> True
      | Some xs \<Rightarrow> \<forall>s \<in> set xs. s < nnz LU \<and> rowidx LU ! nat s = r \<and> list LU ! nat s \<noteq> - 1)"

definition I5 :: "magma_z_matrix \<Rightarrow> int \<Rightarrow> bool" where
  "I5 LU r =
     (case chain LU r of None \<Rightarrow> False
      | Some xs \<Rightarrow> xs \<noteq> [] \<and> colv LU (last xs) = r)"

text \<open>
  The arrays of a factor hold at least \<^verbatim>\<open>nnz\<close> slots (slot 0, the terminator, among
  them) and \<^verbatim>\<open>num_rows\<close> row heads.
\<close>

definition sized :: "magma_z_matrix \<Rightarrow> bool" where
  "sized LU =
     (0 \<le> num_rows LU \<and> num_rows LU \<le> int (length (row LU)) \<and> 0 < nnz LU \<and>
      nnz LU \<le> int (length (rowidx LU)) \<and> nnz LU \<le> int (length (col LU)) \<and>
      nnz LU \<le> int (length (list LU)) \<and> nnz LU \<le> int (length (val LU)))"

text \<open>
  \<open>pattern_ok\<close>: the array sizes and I1--I4 for every row (the empty chain is allowed).
  \<open>factor_ok\<close>: I1--I5 for every row.
\<close>

definition pattern_ok :: "magma_z_matrix \<Rightarrow> bool" where
  "pattern_ok LU =
     (sized LU \<and> (\<forall>r \<in> {0..<num_rows LU}. I1 LU r \<and> I2 LU r \<and> I3 LU r \<and> I4 LU r))"

definition factor_ok :: "magma_z_matrix \<Rightarrow> bool" where
  "factor_ok LU = (pattern_ok LU \<and> (\<forall>r \<in> {0..<num_rows LU}. I5 LU r))"

text \<open>
  The freed slots handed to the insertion: the first \<open>num_rm\<close> entries of
  \<^verbatim>\<open>rm_loc\<close> are pairwise different slots of the free pool (I6: not slot 0,
  \<^verbatim>\<open>list = -1\<close>).
\<close>

definition free_slots :: "magma_z_matrix \<Rightarrow> int list \<Rightarrow> int \<Rightarrow> bool" where
  "free_slots LU rm_loc num_rm =
     (num_rm \<le> int (length rm_loc) \<and> distinct (take (nat num_rm) rm_loc) \<and>
      (\<forall>s \<in> set (take (nat num_rm) rm_loc). 0 < s \<and> s < nnz LU \<and> list LU ! nat s = - 1))"

text \<open>
  The candidate list is a COO list of \<^verbatim>\<open>nnz\<close> entries whose rows are rows of the
  factor.
\<close>

definition candidates_ok :: "magma_z_matrix \<Rightarrow> magma_z_matrix \<Rightarrow> bool" where
  "candidates_ok LU LU_new =
     (nnz LU_new \<le> int (length (rowidx LU_new)) \<and> nnz LU_new \<le> int (length (col LU_new)) \<and>
      (\<forall>e \<in> {0..<nnz LU_new}. 0 \<le> rowidx LU_new ! nat e \<and> rowidx LU_new ! nat e < num_rows LU))"

text \<open>
  A path in the \<^verbatim>\<open>list\<close> array: \<open>path l s xs t\<close> holds when following \<open>l\<close> from
  \<open>s\<close> meets exactly the slots \<open>xs\<close>, all of them inside the array and none of them
  0, and then stands at \<open>t\<close>.
\<close>

primrec path :: "int list \<Rightarrow> int \<Rightarrow> int list \<Rightarrow> int \<Rightarrow> bool" where
  "path l s [] t = (s = t)"
| "path l s (x # xs) t = (s = x \<and> 0 < x \<and> x < int (length l) \<and> path l (l ! nat x) xs t)"

text \<open>
  The factor after the five writes of a splice (source lines 140--144): slot \<open>loc\<close>
  is linked between \<open>j\<close> and \<open>jn\<close> and receives the candidate with value 0. The
  factor after the five writes of a prepend (source lines 115--119).
\<close>

definition spliced :: "magma_z_matrix \<Rightarrow> int \<Rightarrow> int \<Rightarrow> int \<Rightarrow> int \<Rightarrow> int \<Rightarrow> magma_z_matrix" where
  "spliced LU loc new_row new_col j jn =
     LU\<lparr>rowidx := (rowidx LU)[nat loc := new_row], col := (col LU)[nat loc := new_col],
        list := (list LU)[nat j := loc, nat loc := jn], val := (val LU)[nat loc := 0]\<rparr>"

definition prepended :: "magma_z_matrix \<Rightarrow> int \<Rightarrow> int \<Rightarrow> int \<Rightarrow> magma_z_matrix" where
  "prepended LU loc new_row new_col =
     LU\<lparr>row := (row LU)[nat new_row := loc], rowidx := (rowidx LU)[nat loc := new_row],
        col := (col LU)[nat loc := new_col],
        list := (list LU)[nat loc := row LU ! nat new_row], val := (val LU)[nat loc := 0]\<rparr>"

text \<open>
  The slots of a row in link order (empty when the chain does not end), the test of
  the removal (\<^verbatim>\<open>MAGMA_Z_ABS( LU->val[ i ] ) < MAGMA_Z_ABS(*thrs)\<close>), the off-diagonal
  slots of row \<open>r\<close> whose value is below the threshold, and the slots of row \<open>r\<close>
  that a removal, as the specification describes it, leaves in the chain.
\<close>

definition slots :: "magma_z_matrix \<Rightarrow> int \<Rightarrow> int list" where
  "slots LU r = (case chain LU r of None \<Rightarrow> [] | Some xs \<Rightarrow> xs)"

definition small :: "complex \<Rightarrow> magma_z_matrix \<Rightarrow> int \<Rightarrow> bool" where
  "small thrs LU s = (cmod (val LU ! nat s) < cmod thrs)"

definition below :: "complex \<Rightarrow> magma_z_matrix \<Rightarrow> int \<Rightarrow> int list" where
  "below thrs LU r = filter (\<lambda>s. colv LU s \<noteq> r \<and> small thrs LU s) (slots LU r)"

definition remaining :: "complex \<Rightarrow> magma_z_matrix \<Rightarrow> int \<Rightarrow> int list" where
  "remaining thrs LU r = filter (\<lambda>s. \<not> (colv LU s \<noteq> r \<and> small thrs LU s)) (slots LU r)"

text \<open>
  What one run of the removal loop over a chain does, stated for the loop in any of
  its states: \<open>pre\<close> are the slots already passed and kept, \<open>i\<close> is the current slot,
  \<open>rest\<close> the slots after it. All slots of \<open>i # rest\<close> but the last are tested; the
  small ones (\<open>R\<close>) are unlinked, zeroed, marked \<open>-1\<close> and written to \<^verbatim>\<open>rm_loc\<close> from
  position \<open>count\<close> on; nothing else changes.
\<close>

definition rm_walk_post ::
  "complex \<Rightarrow> int \<Rightarrow> magma_z_matrix \<Rightarrow> int list \<Rightarrow> int \<Rightarrow> int list \<Rightarrow> int \<Rightarrow> int list
     \<Rightarrow> magma_z_matrix \<times> int list \<times> int \<Rightarrow> bool" where
  "rm_walk_post thrs r LU rm count pre i rest res =
     (case res of (LU', rm', c') \<Rightarrow>
        let R = filter (small thrs LU) (butlast (i # rest));
            K = filter (\<lambda>s. \<not> small thrs LU s) (butlast (i # rest)) @ [last (i # rest)]
        in path (list LU') (row LU' ! nat r) (pre @ K) 0 \<and>
           (\<forall>s \<in> set R. list LU' ! nat s = - 1 \<and> val LU' ! nat s = 0) \<and>
           (\<forall>s. 0 \<le> s \<longrightarrow> s \<notin> set (pre @ i # rest) \<longrightarrow> list LU' ! nat s = list LU ! nat s) \<and>
           (\<forall>s. 0 \<le> s \<longrightarrow> s \<notin> set R \<longrightarrow> val LU' ! nat s = val LU ! nat s) \<and>
           length (list LU') = length (list LU) \<and> length (val LU') = length (val LU) \<and>
           length (row LU') = length (row LU) \<and>
           (\<forall>r'. 0 \<le> r' \<longrightarrow> r' \<noteq> r \<longrightarrow> row LU' ! nat r' = row LU ! nat r') \<and>
           col LU' = col LU \<and> rowidx LU' = rowidx LU \<and> nnz LU' = nnz LU \<and>
           num_rows LU' = num_rows LU \<and>
           c' = count + int (length R) \<and> length rm' = length rm \<and>
           take (nat c') rm' = take (nat count) rm @ R)"

text \<open>
  What the removal has done once the rows \<open>rs\<close> of the factor \<open>LU\<close> have been
  processed, starting with \<open>count\<close> entries in \<^verbatim>\<open>rm_loc\<close>: the result satisfies
  I1--I5, the processed rows hold the remaining slots, the other rows are as before,
  the removed slots are zeroed, marked \<open>-1\<close> and recorded in processing order, and
  nothing else changes.
\<close>

definition rm_rows_post ::
  "complex \<Rightarrow> magma_z_matrix \<Rightarrow> int list \<Rightarrow> int \<Rightarrow> int list
     \<Rightarrow> magma_z_matrix \<times> int list \<times> int \<Rightarrow> bool" where
  "rm_rows_post thrs LU rm count rs res =
     (case res of (LU', rm', c') \<Rightarrow>
        let R = concat (map (below thrs LU) rs)
        in factor_ok LU' \<and>
           (\<forall>r \<in> set rs. slots LU' r = remaining thrs LU r) \<and>
           (\<forall>r. 0 \<le> r \<longrightarrow> r < num_rows LU \<longrightarrow> r \<notin> set rs \<longrightarrow> chain LU' r = chain LU r) \<and>
           col LU' = col LU \<and> rowidx LU' = rowidx LU \<and> nnz LU' = nnz LU \<and>
           num_rows LU' = num_rows LU \<and>
           (\<forall>s \<in> set R. list LU' ! nat s = - 1 \<and> val LU' ! nat s = 0) \<and>
           (\<forall>s. 0 \<le> s \<longrightarrow> s \<notin> set R \<longrightarrow> val LU' ! nat s = val LU ! nat s) \<and>
           (\<forall>s. 0 \<le> s \<longrightarrow> list LU ! nat s = - 1 \<longrightarrow> list LU' ! nat s = - 1) \<and>
           c' = count + int (length R) \<and> length rm' = length rm \<and>
           take (nat c') rm' = take (nat count) rm @ R)"

section \<open>The sums of the sweep and of the residuals\<close>

text \<open>
  \<open>A_at A r c\<close> is the entry \<open>A[r,c]\<close> as the routines read it from the CSR matrix:
  the value of the last position of row \<open>r\<close> whose column is \<open>c\<close>, and 0 when there
  is none.
\<close>

definition A_at :: "magma_z_matrix \<Rightarrow> int \<Rightarrow> int \<Rightarrow> complex" where
  "A_at A r c =
     fold (\<lambda>i a. if col A ! nat i = c then val A ! nat i else a)
       [row A ! nat r..row A ! nat (r + 1) - 1] 0"

text \<open>
  Row \<open>r\<close> of the system matrix lies inside the arrays: \<^verbatim>\<open>row[r]\<close> and \<^verbatim>\<open>row[r+1]\<close>
  exist and every position between them is a position of \<^verbatim>\<open>col\<close> and \<^verbatim>\<open>val\<close>.
\<close>

definition csr_row_ok :: "magma_z_matrix \<Rightarrow> int \<Rightarrow> bool" where
  "csr_row_ok A r =
     (0 \<le> r \<and> r + 1 < int (length (row A)) \<and> 0 \<le> row A ! nat r \<and>
      row A ! nat (r + 1) \<le> int (length (col A)) \<and>
      row A ! nat (r + 1) \<le> int (length (val A)))"

text \<open>
  \<open>lentry LU ys k\<close> is the value that the chain \<open>ys\<close> holds in column \<open>k\<close> (0 when
  the column is absent), and \<open>entry LU r k\<close> is \<open>L[r,k]\<close>. \<open>dot_all LU r c\<close> is
  \<open>\<Sum>\<^sub>k L[r,k] * L[c,k]\<close>, summed along the entries of row \<open>r\<close>;
  \<open>dot_below LU r c m\<close> is the same sum over the columns \<open>k < m\<close> only.
\<close>

definition lentry :: "magma_z_matrix \<Rightarrow> int list \<Rightarrow> int \<Rightarrow> complex" where
  "lentry LU ys k =
     (case find (\<lambda>s. colv LU s = k) ys of None \<Rightarrow> 0 | Some s \<Rightarrow> val LU ! nat s)"

definition entry :: "magma_z_matrix \<Rightarrow> int \<Rightarrow> int \<Rightarrow> complex" where
  "entry LU r k = lentry LU (slots LU r) k"

definition ldot :: "magma_z_matrix \<Rightarrow> int list \<Rightarrow> int list \<Rightarrow> complex" where
  "ldot LU xs ys = (\<Sum>s\<leftarrow>xs. val LU ! nat s * lentry LU ys (colv LU s))"

definition dot_all :: "magma_z_matrix \<Rightarrow> int \<Rightarrow> int \<Rightarrow> complex" where
  "dot_all LU r c = (\<Sum>s\<leftarrow>slots LU r. val LU ! nat s * entry LU c (colv LU s))"

definition dot_below :: "magma_z_matrix \<Rightarrow> int \<Rightarrow> int \<Rightarrow> int \<Rightarrow> complex" where
  "dot_below LU r c m =
     (\<Sum>s\<leftarrow>filter (\<lambda>s. colv LU s < m) (slots LU r). val LU ! nat s * entry LU c (colv LU s))"

text \<open>
  The merge walk on the two chains as lists: the do-while loop of the source with
  the slots that \<open>i\<close> and \<open>j\<close> still have to visit. The result is \<open>sum\<close>, the \<open>lsum\<close>
  of the last pass and \<open>jold\<close>.
\<close>

fun mw :: "magma_z_matrix \<Rightarrow> int list \<Rightarrow> int list \<Rightarrow> complex \<Rightarrow> complex \<times> complex \<times> int" where
  "mw LU (x # xs) (y # ys) s =
     (if colv LU x = colv LU y then
        (if xs \<noteq> [] \<and> ys \<noteq> []
         then mw LU xs ys (s + val LU ! nat x * val LU ! nat y)
         else (s + val LU ! nat x * val LU ! nat y, val LU ! nat x * val LU ! nat y, y))
      else if colv LU x < colv LU y then
        (if xs \<noteq> [] then mw LU xs (y # ys) s else (s, 0, y))
      else
        (if ys \<noteq> [] then mw LU (x # xs) ys s else (s, 0, y)))"
| "mw LU [] ys s = (s, 0, 0)"
| "mw LU xs [] s = (s, 0, 0)"

text \<open>
  The inputs of the residual evaluation: the candidate list has \<^verbatim>\<open>nnz\<close> entries, and
  each names a row and a column that are rows of the factor and a row of the system
  matrix that lies inside its arrays.
\<close>

definition residual_inputs_ok :: "magma_z_matrix \<Rightarrow> magma_z_matrix \<Rightarrow> magma_z_matrix \<Rightarrow> bool" where
  "residual_inputs_ok A LU LU_new =
     (nnz LU_new \<le> int (length (rowidx LU_new)) \<and> nnz LU_new \<le> int (length (col LU_new)) \<and>
      nnz LU_new \<le> int (length (val LU_new)) \<and>
      (\<forall>e \<in> {0..<nnz LU_new}.
         0 \<le> rowidx LU_new ! nat e \<and> rowidx LU_new ! nat e < num_rows LU \<and>
         0 \<le> col LU_new ! nat e \<and> col LU_new ! nat e < num_rows LU \<and>
         csr_row_ok A (rowidx LU_new ! nat e)))"

text \<open>
  The value that the sweep computes for slot \<open>e\<close> from the factor \<open>LU\<close>, as the
  specification states it: with \<open>r\<close> the row and \<open>c\<close> the column of the slot,
  \<open>sqrt (A[r,c] - sum)\<close> on the diagonal and \<open>(A[r,c] - sum) / L[c,c]\<close> elsewhere,
  where \<open>sum\<close> runs over the columns below \<open>c\<close> and \<open>L[c,c]\<close> is read from the last
  slot of row \<open>c\<close>.
\<close>

definition sweep_value :: "magma_z_matrix \<Rightarrow> magma_z_matrix \<Rightarrow> int \<Rightarrow> complex" where
  "sweep_value A LU e =
     (let r = rowidx LU ! nat e; c = col LU ! nat e
      in if r = c then csqrt (A_at A r c - dot_below LU r c c)
         else (A_at A r c - dot_below LU r c c) / val LU ! nat (last (slots LU c)))"

text \<open>
  The inputs of the sweep: every slot below \<^verbatim>\<open>nnz\<close> whose \<^verbatim>\<open>list\<close> is not \<open>-1\<close> names a
  row and a column of the factor and a row of the system matrix that lies inside
  its arrays (the loop visits slot 0 as well, whatever it holds); and every such
  slot other than slot 0 is live, that is, a slot of the chain of the row that its
  \<^verbatim>\<open>rowidx\<close> names.
\<close>

definition sweep_inputs_ok :: "magma_z_matrix \<Rightarrow> magma_z_matrix \<Rightarrow> bool" where
  "sweep_inputs_ok A LU =
     (\<forall>e \<in> {0..<nnz LU}. list LU ! nat e \<noteq> - 1 \<longrightarrow>
         0 \<le> rowidx LU ! nat e \<and> rowidx LU ! nat e < num_rows LU \<and>
         0 \<le> col LU ! nat e \<and> col LU ! nat e < num_rows LU \<and>
         csr_row_ok A (rowidx LU ! nat e) \<and>
         (0 < e \<longrightarrow> e \<in> set (slots LU (rowidx LU ! nat e))))"

section \<open>The candidates of a factor\<close>

text \<open>
  For a slot \<open>s2\<close> of a row and the column \<open>c1\<close> of another slot of that row, the
  position \<open>(c1, col s2)\<close> is wanted when it lies below the diagonal and the scan of
  the chain of row \<open>c1\<close> finds no slot of column \<open>col s2\<close>.
\<close>

definition wanted :: "magma_z_matrix \<Rightarrow> int \<Rightarrow> int \<Rightarrow> bool" where
  "wanted LU c1 s2 = (colv LU s2 < c1 \<and> colv LU s2 \<notin> set (cols LU c1))"

text \<open>
  The candidates in the order of the loops: for a fixed first slot the second slot
  runs over \<open>ys\<close>; for a row the first slot runs over \<open>xs\<close>, the diagonal left out,
  and the second over \<open>zs\<close>; \<open>offs LU r\<close> is the number of candidates of the rows
  below \<open>r\<close>.
\<close>

definition pairs_of :: "magma_z_matrix \<Rightarrow> int \<Rightarrow> int list \<Rightarrow> (int \<times> int) list" where
  "pairs_of LU c1 ys = map (\<lambda>s2. (c1, colv LU s2)) (filter (wanted LU c1) ys)"

definition row_pairs_from ::
  "magma_z_matrix \<Rightarrow> int \<Rightarrow> int list \<Rightarrow> int list \<Rightarrow> (int \<times> int) list" where
  "row_pairs_from LU r xs zs =
     concat (map (\<lambda>s1. if colv LU s1 = r then [] else pairs_of LU (colv LU s1) zs) xs)"

definition row_pairs :: "magma_z_matrix \<Rightarrow> int \<Rightarrow> (int \<times> int) list" where
  "row_pairs LU r = row_pairs_from LU r (slots LU r) (slots LU r)"

definition pairs_upto :: "magma_z_matrix \<Rightarrow> int \<Rightarrow> int \<Rightarrow> (int \<times> int) list" where
  "pairs_upto LU r0 r1 = concat (map (row_pairs LU) [r0..r1])"

definition offs :: "magma_z_matrix \<Rightarrow> int \<Rightarrow> int" where
  "offs LU r = int (length (pairs_upto LU 0 (r - 1)))"

text \<open>
  \<open>blit xs k ps\<close> is the array \<open>xs\<close> with \<open>ps\<close> written from position \<open>k\<close> on, and
  \<open>put LU_new k ps\<close> is the candidate list with the candidates \<open>ps\<close> written from
  position \<open>k\<close> on (value 0 each); \<open>bump xs k n\<close> adds \<open>n\<close> to entry \<open>k\<close>.
\<close>

definition blit :: "'a list \<Rightarrow> nat \<Rightarrow> 'a list \<Rightarrow> 'a list" where
  "blit xs k ps = take k xs @ ps @ drop (k + length ps) xs"

definition put :: "magma_z_matrix \<Rightarrow> nat \<Rightarrow> (int \<times> int) list \<Rightarrow> magma_z_matrix" where
  "put LU_new k ps =
     LU_new\<lparr>rowidx := blit (rowidx LU_new) k (map fst ps),
            col := blit (col LU_new) k (map snd ps),
            val := blit (val LU_new) k (map (\<lambda>p. 0) ps)\<rparr>"

definition bump :: "int list \<Rightarrow> int \<Rightarrow> nat \<Rightarrow> int list" where
  "bump xs k n = xs[nat k := xs ! nat k + int n]"

text \<open>
  The inputs of the discovery beyond I1--I5: no column of a chain is negative, and
  \<^verbatim>\<open>row\<close> has an entry \<^verbatim>\<open>row[num_rows]\<close> (the routine reads \<^verbatim>\<open>LU.row[ row+1 ]\<close>).
\<close>

definition discovery_inputs_ok :: "magma_z_matrix \<Rightarrow> bool" where
  "discovery_inputs_ok LU =
     (num_rows LU < int (length (row LU)) \<and>
      (\<forall>r \<in> {0..<num_rows LU}. \<forall>s \<in> set (slots LU r). 0 \<le> colv LU s))"

section \<open>The positions that an insertion round adds\<close>





section \<open>Concrete data for the closed instances\<close>

text \<open>
  A factor with two rows and five slots: slot 0 is the reserved terminator, slots 1
  and 2 hold the diagonal entries \<open>(0,0)\<close> and \<open>(1,1)\<close>, slots 3 and 4 are free
  (\<^verbatim>\<open>list = -1\<close>).
\<close>

definition LU_diag :: magma_z_matrix where
  "LU_diag = \<lparr>num_rows = 2, nnz = 5, row = [1, 2], rowidx = [0, 0, 1, 0, 0],
     col = [0, 0, 1, 0, 0], list = [0, 0, 0, - 1, - 1], val = [0, 2, 1, 0, 0]\<rparr>"

text \<open>Candidate lists in COO form: one candidate \<open>(1,0)\<close>, and the same candidate twice.\<close>

definition cand_one :: magma_z_matrix where
  "cand_one = \<lparr>num_rows = 2, nnz = 1, row = [], rowidx = [1], col = [0], list = [],
     val = [1]\<rparr>"

definition cand_two :: magma_z_matrix where
  "cand_two = \<lparr>num_rows = 2, nnz = 2, row = [], rowidx = [1, 1], col = [0, 0], list = [],
     val = [1, 1]\<rparr>"

text \<open>
  A stand-in for the order statistics on an array that is already arranged: it
  leaves the array as it is, returns the entry at position \<open>k\<close> and the code 0.
\<close>

definition os_arranged :: orderstatistics where
  "os_arranged v len k r = (0, v, v ! nat k)"

text \<open>
  The factor \<open>LU_diag\<close> after the entry \<open>(1,0)\<close> was put into slot 3; slot 4 is still
  free. And a candidate list that names the position \<open>(1,0)\<close> three times.
\<close>

definition LU_ins :: magma_z_matrix where
  "LU_ins = \<lparr>num_rows = 2, nnz = 5, row = [1, 3], rowidx = [0, 0, 1, 1, 0],
     col = [0, 0, 1, 0, 0], list = [0, 0, 0, 2, - 1], val = [0, 2, 1, 0, 0]\<rparr>"

definition cand_three :: magma_z_matrix where
  "cand_three = \<lparr>num_rows = 2, nnz = 3, row = [], rowidx = [1, 1, 1], col = [0, 0, 0],
     list = [], val = [1, 1, 1]\<rparr>"

text \<open>
  \<open>LU_ins\<close> after a removal with a threshold above every magnitude: the off-diagonal
  slot 3 is unlinked and marked free, the diagonal slots 1 and 2 stay.
\<close>

definition LU_cut :: magma_z_matrix where
  "LU_cut = \<lparr>num_rows = 2, nnz = 5, row = [1, 2], rowidx = [0, 0, 1, 1, 0],
     col = [0, 0, 1, 0, 0], list = [0, 0, 0, - 1, - 1], val = [0, 2, 1, 0, 0]\<rparr>"

text \<open>
  A system matrix with a negative off-diagonal entry: \<open>A = [[4, -1], [-1, 3]]\<close> in
  CSR form.
\<close>

definition A_neg :: magma_z_matrix where
  "A_neg = \<lparr>num_rows = 2, nnz = 4, row = [0, 2, 4], rowidx = [], col = [0, 1, 0, 1],
     list = [], val = [4, - 1, - 1, 3]\<rparr>"

text \<open>
  The system matrix \<open>A = [[1, 1], [1, 2]]\<close>, whose Cholesky factor is
  \<open>[[1, 0], [1, 1]]\<close>; a factor with the full lower pattern (slot 1 is \<open>(0,0)\<close>,
  slot 2 is \<open>(1,0)\<close>, slot 3 is \<open>(1,1)\<close>, slot 0 is the terminator and slot 4 is free) and
  some starting values; and the same factor after one sweep.
\<close>

definition A_spd :: magma_z_matrix where
  "A_spd = \<lparr>num_rows = 2, nnz = 4, row = [0, 2, 4], rowidx = [], col = [0, 1, 0, 1],
     list = [], val = [1, 1, 1, 2]\<rparr>"

definition LU_start :: magma_z_matrix where
  "LU_start = \<lparr>num_rows = 2, nnz = 5, row = [1, 2], rowidx = [0, 0, 1, 1, 0],
     col = [0, 0, 0, 1, 0], list = [0, 0, 3, 0, - 1], val = [0, 5, 0, 5, 0]\<rparr>"

definition LU_swept :: magma_z_matrix where
  "LU_swept = \<lparr>num_rows = 2, nnz = 5, row = [1, 2], rowidx = [0, 0, 1, 1, 0],
     col = [0, 0, 0, 1, 0], list = [0, 0, 3, 0, - 1], val = [1, 1, 1, 1, 0]\<rparr>"

text \<open>
  A factor with three rows: the diagonal in rows 0 and 1 (slots 1 and 2) and the full
  row 2 (slots 3, 4, 5); \<^verbatim>\<open>row\<close> has the entry \<^verbatim>\<open>row[3]\<close>. And an allocator whose four
  allocations succeed, the fresh arrays holding 7.
\<close>

definition LU_tri :: magma_z_matrix where
  "LU_tri = \<lparr>num_rows = 3, nnz = 6, row = [1, 2, 3, 0], rowidx = [0, 0, 1, 2, 2, 2],
     col = [0, 0, 1, 0, 1, 2], list = [0, 0, 0, 4, 5, 0], val = [0, 1, 1, 1, 1, 1]\<rparr>"

definition al_ok :: allocator where
  "al_ok = \<lparr>numadd_code = 0, val_code = 0, rowidx_code = 0, col_code = 0,
     numadd_init = (\<lambda>i. 7), val_init = (\<lambda>i. 7), rowidx_init = (\<lambda>i. 7),
     col_init = (\<lambda>i. 7)\<rparr>"

text \<open>A factor whose value array holds a negative entry, \<open>-3\<close> in slot 2.\<close>

definition LU_signed :: magma_z_matrix where
  "LU_signed = \<lparr>num_rows = 2, nnz = 5, row = [1, 2], rowidx = [0, 0, 1, 0, 0],
     col = [0, 0, 1, 0, 0], list = [0, 0, 0, - 1, - 1], val = [0, 2, - 3, 0, 0]\<rparr>"




section \<open>Arrays, paths and chains: basic facts\<close>

lemma rd_Some_iff: "rd xs i = Some v \<longleftrightarrow> 0 \<le> i \<and> i < int (length xs) \<and> v = xs ! nat i"
  by (auto simp: rd_def)

lemma rd_in: "0 \<le> i \<Longrightarrow> i < int (length xs) \<Longrightarrow> rd xs i = Some (xs ! nat i)"
  by (simp add: rd_def)

lemma wr_in: "0 \<le> i \<Longrightarrow> i < int (length xs) \<Longrightarrow> wr xs i v = Some (xs[nat i := v])"
  by (simp add: wr_def)

lemma nat_neq_pos: "0 < x \<Longrightarrow> u \<noteq> x \<Longrightarrow> nat u \<noteq> nat x"
  by linarith

lemma nth_upd_other: "0 < x \<Longrightarrow> u \<noteq> x \<Longrightarrow> l[nat u := v] ! nat x = l ! nat x"
  by (rule nth_list_update_neq) (rule nat_neq_pos)

lemma nth_upd_same: "0 \<le> x \<Longrightarrow> x < int (length l) \<Longrightarrow> l[nat x := v] ! nat x = v"
  by simp

lemma path_range: "path l s xs t \<Longrightarrow> x \<in> set xs \<Longrightarrow> 0 < x \<and> x < int (length l)"
  by (induction xs arbitrary: s) auto

lemma path_append: "path l s (xs @ ys) t \<longleftrightarrow> (\<exists>m. path l s xs m \<and> path l m ys t)"
  by (induction xs arbitrary: s) auto

lemma path_cong:
  "length l' = length l \<Longrightarrow> \<forall>x \<in> set xs. l' ! nat x = l ! nat x \<Longrightarrow>
   path l' s xs t = path l s xs t"
  by (induction xs arbitrary: s) simp_all

lemma path_upd: "u \<notin> set xs \<Longrightarrow> path (l[nat u := v]) s xs t = path l s xs t"
proof (induction xs arbitrary: s)
  case Nil
  then show ?case by simp
next
  case (Cons x xs)
  from Cons.prems have ux: "u \<noteq> x" and "u \<notin> set xs" by auto
  then have IH: "\<And>s. path (l[nat u := v]) s xs t = path l s xs t" using Cons.IH by blast
  show ?case
  proof (cases "0 < x")
    case True
    then have "nat u \<noteq> nat x" using ux by linarith
    then show ?thesis using IH by simp
  next
    case False
    then show ?thesis by simp
  qed
qed

lemma path_unique: "path l s xs 0 \<Longrightarrow> path l s ys 0 \<Longrightarrow> xs = ys"
proof (induction xs arbitrary: s ys)
  case Nil
  then show ?case by (cases ys) simp_all
next
  case (Cons x xs)
  then show ?case by (cases ys) simp_all
qed

lemma path_next_nonneg: "path l s xs 0 \<Longrightarrow> x \<in> set xs \<Longrightarrow> 0 \<le> l ! nat x"
proof (induction xs arbitrary: s)
  case Nil
  then show ?case by simp
next
  case (Cons y ys)
  show ?case
  proof (cases "x = y")
    case True
    from Cons.prems(1) have p: "path l (l ! nat y) ys 0" by simp
    show ?thesis
    proof (cases ys)
      case Nil
      with p True show ?thesis by simp
    next
      case (Cons z zs)
      with p have "l ! nat y = z" "0 < z" by simp_all
      with True show ?thesis by simp
    qed
  next
    case False
    with Cons.prems have "x \<in> set ys" "path l (l ! nat y) ys 0" by simp_all
    with Cons.IH show ?thesis by blast
  qed
qed

lemma follow_path: "follow n l s = Some xs \<Longrightarrow> path l s xs 0 \<and> length xs \<le> n"
proof (induction n arbitrary: s xs)
  case 0
  then show ?case by (simp split: if_splits)
next
  case (Suc n)
  show ?case
  proof (cases "s = 0")
    case True
    with Suc.prems show ?thesis by simp
  next
    case False
    with Suc.prems obtain t ys where t: "rd l s = Some t" and ys: "follow n l t = Some ys"
      and xs: "xs = s # ys"
      by (auto split: option.splits)
    from t have "0 \<le> s" "s < int (length l)" "t = l ! nat s" by (simp_all add: rd_Some_iff)
    with Suc.IH[OF ys] xs False show ?thesis by simp
  qed
qed

lemma path_follow: "path l s xs 0 \<Longrightarrow> length xs \<le> n \<Longrightarrow> follow n l s = Some xs"
proof (induction n arbitrary: s xs)
  case 0
  then show ?case by simp
next
  case (Suc n)
  show ?case
  proof (cases xs)
    case Nil
    with Suc.prems show ?thesis by simp
  next
    case (Cons y ys)
    with Suc.prems have y: "s = y" "0 < y" "y < int (length l)" and p: "path l (l ! nat y) ys 0"
      and len: "length ys \<le> n" by simp_all
    from Suc.IH[OF p len] y Cons show ?thesis by (simp add: rd_in)
  qed
qed

lemma sorted_wrt_map_distinct:
  fixes f :: "'a \<Rightarrow> int"
  shows "sorted_wrt (<) (map f xs) \<Longrightarrow> distinct xs"
  by (induction xs) auto

lemma sorted_wrt_less_distinct:
  fixes xs :: "int list"
  shows "sorted_wrt (<) xs \<Longrightarrow> distinct xs"
  by (induction xs) auto

lemma distinct_range_length:
  fixes xs :: "int list"
  assumes "distinct xs" and "\<forall>x \<in> set xs. 0 < x \<and> x < n"
  shows "length xs \<le> nat n"
proof -
  have "set xs \<subseteq> {1..<n}" using assms(2) by auto
  then have "card (set xs) \<le> card {1..<n}" by (intro card_mono) simp_all
  with assms(1) show ?thesis by (simp add: distinct_card)
qed

lemma chain_SomeD:
  assumes "chain LU r = Some xs"
  shows "0 \<le> r" "r < int (length (row LU))" "path (list LU) (row LU ! nat r) xs 0"
    "length xs \<le> nat (nnz LU)"
proof -
  from assms obtain s where s: "rd (row LU) r = Some s"
    and f: "follow (nat (nnz LU)) (list LU) s = Some xs"
    by (auto simp: chain_def split: option.splits)
  from s show "0 \<le> r" "r < int (length (row LU))" by (simp_all add: rd_Some_iff)
  from s have "s = row LU ! nat r" by (simp add: rd_Some_iff)
  with follow_path[OF f] show "path (list LU) (row LU ! nat r) xs 0" "length xs \<le> nat (nnz LU)"
    by simp_all
qed

lemma chainI:
  assumes "0 \<le> r" "r < int (length (row LU))" "path (list LU) (row LU ! nat r) xs 0"
    "length xs \<le> nat (nnz LU)"
  shows "chain LU r = Some xs"
  using assms by (simp add: chain_def rd_in path_follow)

lemma row_facts:
  assumes ok: "pattern_ok LU" and r: "0 \<le> r" "r < num_rows LU"
  obtains xs where "chain LU r = Some xs" "path (list LU) (row LU ! nat r) xs 0"
    "sorted_wrt (<) (map (colv LU) xs)"
    "\<forall>s \<in> set xs. 0 < s \<and> s < nnz LU \<and> rowidx LU ! nat s = r" "distinct xs"
proof -
  from ok r have inv: "I1 LU r" "I2 LU r" "I4 LU r"
    by (simp_all add: pattern_ok_def)
  then obtain xs where c: "chain LU r = Some xs" by (auto simp: I1_def)
  have p: "path (list LU) (row LU ! nat r) xs 0" by (rule chain_SomeD(3)[OF c])
  from inv(2) c have s: "sorted_wrt (<) (map (colv LU) xs)" by (simp add: I2_def cols_def)
  from inv(3) c path_range[OF p]
  have b: "\<forall>s \<in> set xs. 0 < s \<and> s < nnz LU \<and> rowidx LU ! nat s = r"
    by (auto simp: I4_def)
  from s have "distinct xs" by (rule sorted_wrt_map_distinct)
  with c p s b that show thesis by blast
qed

lemma rowI:
  assumes r: "0 \<le> r" "r < int (length (row LU))"
    and len: "nnz LU \<le> int (length (list LU))"
    and p: "path (list LU) (row LU ! nat r) xs 0"
    and s: "sorted_wrt (<) (map (colv LU) xs)"
    and b: "\<forall>s \<in> set xs. s < nnz LU \<and> rowidx LU ! nat s = r"
  shows "chain LU r = Some xs" "I1 LU r" "I2 LU r" "I3 LU r" "I4 LU r"
proof -
  from s have d: "distinct xs" by (rule sorted_wrt_map_distinct)
  have "\<forall>x \<in> set xs. 0 < x \<and> x < nnz LU" using path_range[OF p] b by blast
  with d have "length xs \<le> nat (nnz LU)" by (rule distinct_range_length)
  with r p show c: "chain LU r = Some xs" by (intro chainI)
  then show "I1 LU r" by (simp add: I1_def)
  from c s show "I2 LU r" by (simp add: I2_def cols_def)
  from s have "distinct (map (colv LU) xs)" by (rule sorted_wrt_less_distinct)
  with c show "I3 LU r" by (simp add: I3_def cols_def)
  have "\<forall>x \<in> set xs. list LU ! nat x \<noteq> - 1"
  proof
    fix x assume "x \<in> set xs"
    from path_next_nonneg[OF p this] show "list LU ! nat x \<noteq> - 1" by simp
  qed
  with c b show "I4 LU r" by (simp add: I4_def)
qed

lemma path_prepend:
  assumes p: "path l s xs 0" and loc: "0 < loc" "loc < int (length l)" "loc \<notin> set xs"
  shows "path (l[nat loc := s]) loc (loc # xs) 0"
  using assms by (simp add: path_upd)

lemma path_splice:
  assumes p: "path l s (xs @ zs) 0" and ne: "xs \<noteq> []" and d: "distinct (xs @ zs)"
    and loc: "0 < loc" "loc < int (length l)" "loc \<notin> set (xs @ zs)"
  shows "path (l[nat (last xs) := loc, nat loc := (if zs = [] then 0 else hd zs)]) s
           (xs @ loc # zs) 0"
proof -
  from ne obtain ys j where xs: "xs = ys @ [j]" by (cases xs rule: rev_cases) auto
  define m where "m = (if zs = [] then 0 else hd zs)"
  define l2 where "l2 = l[nat j := loc, nat loc := m]"
  from p xs have "path l s (ys @ j # zs) 0" by simp
  then obtain a where p1: "path l s ys a" and p2: "path l a (j # zs) 0"
    unfolding path_append by auto
  from p2 have a: "a = j" and j: "0 < j" "j < int (length l)" and p3: "path l (l ! nat j) zs 0"
    by simp_all
  from p3 have lm: "l ! nat j = m" by (cases zs) (simp_all add: m_def)
  from d xs have jb: "j \<notin> set ys" "j \<notin> set zs" by auto
  from loc xs have lb: "loc \<notin> set ys" "loc \<notin> set zs" "loc \<noteq> j" by auto
  have q1: "path l2 s ys j" using p1 a jb(1) lb(1) by (simp add: l2_def path_upd)
  have "l[nat j := loc] ! nat j = loc" using j by simp
  moreover have "l2 ! nat j = l[nat j := loc] ! nat j"
    unfolding l2_def using j(1) lb(3) by (intro nth_upd_other) simp_all
  ultimately have "l2 ! nat j = loc" by simp
  then have q2: "path l2 j [j] loc" using j by (simp add: l2_def)
  have "l2 ! nat loc = m" using loc by (simp add: l2_def)
  then have q3: "path l2 loc [loc] m" using loc by (simp add: l2_def)
  have q4: "path l2 m zs 0" using p3 lm jb(2) lb(2) by (simp add: l2_def path_upd)
  have "path l2 s (ys @ [j] @ [loc] @ zs) 0"
    unfolding path_append using q1 q2 q3 q4 by blast
  with xs show ?thesis unfolding l2_def m_def by simp
qed

lemma rd_zero: "0 < n \<Longrightarrow> n \<le> int (length xs) \<Longrightarrow> rd xs 0 = Some (xs ! 0)"
  by (cases xs) (simp_all add: rd_def)

lemma insert_walk_end:
  "insert_walk LU k loc r c 0 jn = Some (LU, k)"
  by (subst insert_walk.simps) simp

lemma insert_walk_correct:
  assumes "path (list LU) j (j # rest) 0"
    and "sorted_wrt (<) (map (colv LU) (j # rest))"
    and "colv LU j < c"
    and "sized LU"
    and "\<forall>x \<in> set (j # rest). x < nnz LU"
    and "0 < loc" "loc < nnz LU"
  shows "\<exists>LU' k'. insert_walk LU k loc r c j (list LU ! nat j) = Some (LU', k') \<and>
      ((LU' = LU \<and> k' = k \<and> (c \<in> colv LU ` set rest \<or> (\<forall>z \<in> set rest. colv LU z < c)))
       \<or> (k' = k + 1 \<and> c \<notin> colv LU ` set rest \<and>
           (\<exists>ys zs. rest = ys @ zs \<and> (\<forall>y \<in> set ys. colv LU y < c) \<and>
              (\<forall>z \<in> set zs. c < colv LU z) \<and>
              LU' = spliced LU loc r c (last (j # ys)) (if zs = [] then 0 else hd zs))))"
  using assms
proof (induction rest arbitrary: j)
  case Nil
  from Nil.prems(1) have j: "0 < j" "j < int (length (list LU))" and jn: "list LU ! nat j = 0"
    by simp_all
  from Nil.prems(4) have sz: "0 < nnz LU" "nnz LU \<le> int (length (rowidx LU))"
    "nnz LU \<le> int (length (col LU))" "nnz LU \<le> int (length (list LU))"
    "nnz LU \<le> int (length (val LU))"
    by (simp_all add: sized_def)
  have c0: "rd (col LU) 0 = Some (col LU ! 0)" using sz(1,3) by (rule rd_zero)
  have l0: "rd (list LU) 0 = Some (list LU ! 0)" using sz(1,4) by (rule rd_zero)
  have w1: "wr (list LU) j loc = Some ((list LU)[nat j := loc])" using j by (simp add: wr_in)
  have w2: "wr ((list LU)[nat j := loc]) loc 0 = Some ((list LU)[nat j := loc, nat loc := 0])"
    using Nil.prems(6,7) sz by (simp add: wr_in)
  have w3: "wr (rowidx LU) loc r = Some ((rowidx LU)[nat loc := r])"
    using Nil.prems(6,7) sz by (simp add: wr_in)
  have w4: "wr (col LU) loc c = Some ((col LU)[nat loc := c])"
    using Nil.prems(6,7) sz by (simp add: wr_in)
  have w5: "wr (val LU) loc 0 = Some ((val LU)[nat loc := 0])"
    using Nil.prems(6,7) sz by (simp add: wr_in)
  show ?case
    apply (subst insert_walk.simps)
    using j(1) by (simp add: jn c0 l0 w1 w2 w3 w4 w5 insert_walk_end spliced_def)
next
  case (Cons x rest)
  from Cons.prems(1) have j: "0 < j" "j < int (length (list LU))" and jn: "list LU ! nat j = x"
    and px: "path (list LU) x (x # rest) 0"
    by simp_all
  from px have x: "0 < x" "x < int (length (list LU))" by simp_all
  from Cons.prems(4) have sz: "0 < nnz LU" "nnz LU \<le> int (length (rowidx LU))"
    "nnz LU \<le> int (length (col LU))" "nnz LU \<le> int (length (list LU))"
    "nnz LU \<le> int (length (val LU))"
    by (simp_all add: sized_def)
  from Cons.prems(5) have xn: "x < nnz LU" by simp
  have cx: "rd (col LU) x = Some (colv LU x)" using x xn sz by (simp add: rd_def colv_def)
  have lx: "rd (list LU) x = Some (list LU ! nat x)" using x by (simp add: rd_def)
  have w1: "wr (list LU) j loc = Some ((list LU)[nat j := loc])" using j by (simp add: wr_in)
  have w2: "wr ((list LU)[nat j := loc]) loc x = Some ((list LU)[nat j := loc, nat loc := x])"
    using Cons.prems(6,7) sz by (simp add: wr_in)
  have w3: "wr (rowidx LU) loc r = Some ((rowidx LU)[nat loc := r])"
    using Cons.prems(6,7) sz by (simp add: wr_in)
  have w4: "wr (col LU) loc c = Some ((col LU)[nat loc := c])"
    using Cons.prems(6,7) sz by (simp add: wr_in)
  have w5: "wr (val LU) loc 0 = Some ((val LU)[nat loc := 0])"
    using Cons.prems(6,7) sz by (simp add: wr_in)
  from Cons.prems(2) have srt: "sorted_wrt (<) (map (colv LU) (x # rest))"
    and xr: "\<forall>z \<in> set rest. colv LU x < colv LU z"
    by simp_all
  consider (eq) "colv LU x = c" | (gt) "c < colv LU x" | (lt) "colv LU x < c" by linarith
  then show ?case
  proof cases
    case eq
    show ?thesis
      apply (subst insert_walk.simps)
      using j(1) eq by (simp add: jn cx)
  next
    case gt
    have "\<forall>z \<in> set (x # rest). c < colv LU z" using gt xr by auto
    moreover have "c \<notin> colv LU ` set (x # rest)" using gt xr by auto
    moreover have "insert_walk LU k loc r c j (list LU ! nat j) = Some (spliced LU loc r c j x, k + 1)"
      apply (subst insert_walk.simps)
      using j(1) gt by (simp add: jn cx w1 w2 w3 w4 w5 spliced_def)
    ultimately show ?thesis
      apply (intro exI[of _ "spliced LU loc r c j x"] exI[of _ "k + 1"] conjI disjI2)
         apply simp
        apply simp
       apply assumption
      apply (rule exI[of _ "[]"], rule exI[of _ "x # rest"])
      apply simp
      done
  next
    case lt
    have step: "insert_walk LU k loc r c j (list LU ! nat j) =
        insert_walk LU k loc r c x (list LU ! nat x)"
      apply (subst insert_walk.simps)
      using j(1) lt by (simp add: jn cx lx)
    from Cons.prems(5) have b: "\<forall>y \<in> set (x # rest). y < nnz LU" by simp
    from Cons.IH[OF px srt lt Cons.prems(4) b Cons.prems(6,7)]
    obtain LU' k' where r: "insert_walk LU k loc r c x (list LU ! nat x) = Some (LU', k')"
      and d: "(LU' = LU \<and> k' = k \<and> (c \<in> colv LU ` set rest \<or> (\<forall>z \<in> set rest. colv LU z < c)))
       \<or> (k' = k + 1 \<and> c \<notin> colv LU ` set rest \<and>
           (\<exists>ys zs. rest = ys @ zs \<and> (\<forall>y \<in> set ys. colv LU y < c) \<and>
              (\<forall>z \<in> set zs. c < colv LU z) \<and>
              LU' = spliced LU loc r c (last (x # ys)) (if zs = [] then 0 else hd zs)))"
      by blast
    from d show ?thesis
    proof
      assume "LU' = LU \<and> k' = k \<and> (c \<in> colv LU ` set rest \<or> (\<forall>z \<in> set rest. colv LU z < c))"
      with lt step r show ?thesis by auto
    next
      assume a: "k' = k + 1 \<and> c \<notin> colv LU ` set rest \<and>
           (\<exists>ys zs. rest = ys @ zs \<and> (\<forall>y \<in> set ys. colv LU y < c) \<and>
              (\<forall>z \<in> set zs. c < colv LU z) \<and>
              LU' = spliced LU loc r c (last (x # ys)) (if zs = [] then 0 else hd zs))"
      then obtain ys zs where yz: "rest = ys @ zs" "\<forall>y \<in> set ys. colv LU y < c"
        "\<forall>z \<in> set zs. c < colv LU z"
        "LU' = spliced LU loc r c (last (x # ys)) (if zs = [] then 0 else hd zs)"
        by blast
      have ex: "\<exists>ys' zs'. x # rest = ys' @ zs' \<and> (\<forall>y \<in> set ys'. colv LU y < c) \<and>
              (\<forall>z \<in> set zs'. c < colv LU z) \<and>
              LU' = spliced LU loc r c (last (j # ys')) (if zs' = [] then 0 else hd zs')"
        apply (rule exI[of _ "x # ys"], rule exI[of _ zs])
        using yz lt by simp
      have notin: "c \<notin> colv LU ` set (x # rest)" using a lt by auto
      have k': "k' = k + 1" using a by simp
      show ?thesis
        apply (rule exI[of _ LU'], rule exI[of _ k'])
        apply (rule conjI)
         apply (simp add: step r)
        apply (rule disjI2)
        using k' notin ex by blast
    qed
  qed
qed

lemma sizedD:
  assumes "sized LU"
  shows "0 \<le> num_rows LU" "num_rows LU \<le> int (length (row LU))" "0 < nnz LU"
    "nnz LU \<le> int (length (rowidx LU))" "nnz LU \<le> int (length (col LU))"
    "nnz LU \<le> int (length (list LU))" "nnz LU \<le> int (length (val LU))"
  using assms by (simp_all add: sized_def)

lemma pattern_okD: "pattern_ok LU \<Longrightarrow> sized LU"
  by (simp add: pattern_ok_def)

lemma free_not_in_chain:
  assumes "path l s xs 0" and "l ! nat loc = - 1"
  shows "loc \<notin> set xs"
proof
  assume "loc \<in> set xs"
  from path_next_nonneg[OF assms(1) this] assms(2) show False by simp
qed

lemma pattern_ok_update:
  assumes ok: "pattern_ok LU" and r: "0 \<le> r" "r < num_rows LU"
    and c: "chain LU r = Some xs"
    and nr: "num_rows LU' = num_rows LU" and nz: "nnz LU' = nnz LU"
    and len: "length (row LU') = length (row LU)" "length (rowidx LU') = length (rowidx LU)"
      "length (col LU') = length (col LU)" "length (list LU') = length (list LU)"
      "length (val LU') = length (val LU)"
    and rows: "\<forall>r'. r' \<noteq> r \<longrightarrow> 0 \<le> r' \<longrightarrow> row LU' ! nat r' = row LU ! nat r'"
    and lst: "\<forall>s. 0 < s \<longrightarrow> s \<notin> set xs \<longrightarrow> s \<noteq> loc \<longrightarrow> list LU' ! nat s = list LU ! nat s"
    and cl: "\<forall>s. 0 < s \<longrightarrow> s \<noteq> loc \<longrightarrow> col LU' ! nat s = col LU ! nat s"
    and ri: "\<forall>s. 0 < s \<longrightarrow> s \<noteq> loc \<longrightarrow> rowidx LU' ! nat s = rowidx LU ! nat s"
    and loc: "list LU ! nat loc = - 1"
    and p: "path (list LU') (row LU' ! nat r) ys 0"
    and srt: "sorted_wrt (<) (map (colv LU') ys)"
    and b: "\<forall>s \<in> set ys. s < nnz LU \<and> rowidx LU' ! nat s = r"
  shows "pattern_ok LU'" "chain LU' r = Some ys"
proof -
  have sz: "sized LU" using ok by (rule pattern_okD)
  then have sz': "sized LU'" using nr nz len by (simp add: sized_def)
  have rl: "r < int (length (row LU'))" using r sizedD(2)[OF sz'] nr by simp
  have ll: "nnz LU' \<le> int (length (list LU'))" using sizedD(6)[OF sz'] .
  from b nz have b': "\<forall>s \<in> set ys. s < nnz LU' \<and> rowidx LU' ! nat s = r" by simp
  note R = rowI[OF r(1) rl ll p srt b']
  show "chain LU' r = Some ys" by (rule R(1))
  have "I1 LU' r' \<and> I2 LU' r' \<and> I3 LU' r' \<and> I4 LU' r'" if r': "r' \<in> {0..<num_rows LU'}" for r'
  proof (cases "r' = r")
    case True
    with R show ?thesis by simp
  next
    case False
    from r' nr have r'': "0 \<le> r'" "r' < num_rows LU" by simp_all
    from row_facts[OF ok r''] obtain zs where z: "chain LU r' = Some zs"
      "path (list LU) (row LU ! nat r') zs 0" "sorted_wrt (<) (map (colv LU) zs)"
      "\<forall>s \<in> set zs. 0 < s \<and> s < nnz LU \<and> rowidx LU ! nat s = r'" "distinct zs"
      by blast
    from row_facts[OF ok r] c obtain x: "\<forall>s \<in> set xs. rowidx LU ! nat s = r"
      by (metis option.inject)
    have nloc: "loc \<notin> set zs" using z(2) loc by (rule free_not_in_chain)
    have dis: "\<forall>s \<in> set zs. s \<notin> set xs" using z(4) x False by metis
    have same: "\<forall>s \<in> set zs. list LU' ! nat s = list LU ! nat s"
      using lst z(4) dis nloc by metis
    have p': "path (list LU') (row LU' ! nat r') zs 0"
      using z(2) rows False r''(1) path_cong[OF len(4) same] by simp
    have meq: "map (colv LU') zs = map (colv LU) zs"
      using cl z(4) nloc by (intro map_cong) (auto simp: colv_def)
    from z(3) have s': "sorted_wrt (<) (map (colv LU') zs)" by (simp only: meq)
    have b'': "\<forall>s \<in> set zs. s < nnz LU' \<and> rowidx LU' ! nat s = r'"
      using ri z(4) nloc nz by (metis)
    have rl': "r' < int (length (row LU'))" using r'' sizedD(2)[OF sz'] nr by simp
    from rowI[OF r''(1) rl' ll p' s' b''] show ?thesis by simp
  qed
  with sz' show "pattern_ok LU'" by (simp add: pattern_ok_def)
qed

lemma map_colv_cong:
  assumes "\<forall>s \<in> set xs. col LU' ! nat s = col LU ! nat s"
  shows "map (colv LU') xs = map (colv LU) xs"
  using assms by (intro map_cong) (simp_all add: colv_def)

lemma prepended_ok:
  assumes ok: "pattern_ok LU" and r: "0 \<le> r" "r < num_rows LU"
    and loc: "0 < loc" "loc < nnz LU" "list LU ! nat loc = - 1"
    and c: "chain LU r = Some xs"
    and lt: "\<forall>x \<in> set xs. c < colv LU x"
  shows "pattern_ok (prepended LU loc r c)"
    "chain (prepended LU loc r c) r = Some (loc # xs)"
    "cols (prepended LU loc r c) r = c # cols LU r"
proof -
  define LU' where "LU' = prepended LU loc r c"
  have sz: "sized LU" using ok by (rule pattern_okD)
  note szd = sizedD[OF sz]
  from row_facts[OF ok r] c obtain p: "path (list LU) (row LU ! nat r) xs 0"
    and srt: "sorted_wrt (<) (map (colv LU) xs)"
    and b: "\<forall>s \<in> set xs. 0 < s \<and> s < nnz LU \<and> rowidx LU ! nat s = r"
    by (metis option.inject)
  have nloc: "loc \<notin> set xs" using p loc(3) by (rule free_not_in_chain)
  have rl: "nat r < length (row LU)" using r szd(2) by linarith
  have ll: "loc < int (length (list LU))" "nat loc < length (rowidx LU)" "nat loc < length (col LU)"
    using loc szd by linarith+
  have nr: "num_rows LU' = num_rows LU" and nz: "nnz LU' = nnz LU"
    by (simp_all add: LU'_def prepended_def)
  have len: "length (row LU') = length (row LU)" "length (rowidx LU') = length (rowidx LU)"
      "length (col LU') = length (col LU)" "length (list LU') = length (list LU)"
      "length (val LU') = length (val LU)"
    by (simp_all add: LU'_def prepended_def)
  have rows: "\<forall>r'. r' \<noteq> r \<longrightarrow> 0 \<le> r' \<longrightarrow> row LU' ! nat r' = row LU ! nat r'"
  proof (intro allI impI)
    fix r' :: int assume "r' \<noteq> r" "0 \<le> r'"
    with r(1) have "nat r \<noteq> nat r'" by linarith
    then show "row LU' ! nat r' = row LU ! nat r'" by (simp add: LU'_def prepended_def)
  qed
  have lst: "\<forall>s. 0 < s \<longrightarrow> s \<notin> set xs \<longrightarrow> s \<noteq> loc \<longrightarrow> list LU' ! nat s = list LU ! nat s"
    by (simp add: LU'_def prepended_def nth_upd_other)
  have cl: "\<forall>s. 0 < s \<longrightarrow> s \<noteq> loc \<longrightarrow> col LU' ! nat s = col LU ! nat s"
    by (simp add: LU'_def prepended_def nth_upd_other)
  have ri: "\<forall>s. 0 < s \<longrightarrow> s \<noteq> loc \<longrightarrow> rowidx LU' ! nat s = rowidx LU ! nat s"
    by (simp add: LU'_def prepended_def nth_upd_other)
  have hd: "row LU' ! nat r = loc" using rl by (simp add: LU'_def prepended_def)
  have "path ((list LU)[nat loc := row LU ! nat r]) loc (loc # xs) 0"
    using p loc(1) ll(1) nloc by (rule path_prepend)
  then have p': "path (list LU') (row LU' ! nat r) (loc # xs) 0"
    by (simp add: hd) (simp add: LU'_def prepended_def)
  have cloc: "colv LU' loc = c" using ll(3) by (simp add: LU'_def prepended_def colv_def)
  have "\<forall>s \<in> set xs. col LU' ! nat s = col LU ! nat s" using cl b nloc by metis
  then have meq: "map (colv LU') xs = map (colv LU) xs" by (rule map_colv_cong)
  have srt': "sorted_wrt (<) (map (colv LU') (loc # xs))"
    using srt lt by (simp add: cloc meq)
  have rloc: "rowidx LU' ! nat loc = r" using ll(2) by (simp add: LU'_def prepended_def)
  have "\<forall>s \<in> set xs. rowidx LU' ! nat s = r" using ri b nloc by metis
  with rloc loc(2) b have b': "\<forall>s \<in> set (loc # xs). s < nnz LU \<and> rowidx LU' ! nat s = r"
    by simp
  note U = pattern_ok_update[OF ok r c nr nz len rows lst cl ri loc(3) p' srt' b']
  from U(1) show "pattern_ok (prepended LU loc r c)" by (simp add: LU'_def)
  from U(2) show "chain (prepended LU loc r c) r = Some (loc # xs)" by (simp add: LU'_def)
  from U(2) c show "cols (prepended LU loc r c) r = c # cols LU r"
    by (simp add: cols_def LU'_def[symmetric] cloc meq)
qed

lemma spliced_ok:
  assumes ok: "pattern_ok LU" and r: "0 \<le> r" "r < num_rows LU"
    and loc: "0 < loc" "loc < nnz LU" "list LU ! nat loc = - 1"
    and c: "chain LU r = Some (xs @ zs)" and ne: "xs \<noteq> []"
    and lt: "\<forall>y \<in> set xs. colv LU y < c" and gt: "\<forall>z \<in> set zs. c < colv LU z"
  shows "pattern_ok (spliced LU loc r c (last xs) (if zs = [] then 0 else hd zs))"
    "chain (spliced LU loc r c (last xs) (if zs = [] then 0 else hd zs)) r = Some (xs @ loc # zs)"
    "set (cols (spliced LU loc r c (last xs) (if zs = [] then 0 else hd zs)) r)
       = insert c (set (cols LU r))"
proof -
  define LU' where "LU' = spliced LU loc r c (last xs) (if zs = [] then 0 else hd zs)"
  have sz: "sized LU" using ok by (rule pattern_okD)
  note szd = sizedD[OF sz]
  from row_facts[OF ok r] c obtain p: "path (list LU) (row LU ! nat r) (xs @ zs) 0"
    and srt: "sorted_wrt (<) (map (colv LU) (xs @ zs))"
    and b: "\<forall>s \<in> set (xs @ zs). 0 < s \<and> s < nnz LU \<and> rowidx LU ! nat s = r"
    and d: "distinct (xs @ zs)"
    by (metis option.inject)
  have nloc: "loc \<notin> set (xs @ zs)" using p loc(3) by (rule free_not_in_chain)
  have ll: "loc < int (length (list LU))" "nat loc < length (rowidx LU)" "nat loc < length (col LU)"
    using loc szd by linarith+
  have j: "last xs \<in> set (xs @ zs)" using ne by simp
  have nr: "num_rows LU' = num_rows LU" and nz: "nnz LU' = nnz LU"
    by (simp_all add: LU'_def spliced_def)
  have len: "length (row LU') = length (row LU)" "length (rowidx LU') = length (rowidx LU)"
      "length (col LU') = length (col LU)" "length (list LU') = length (list LU)"
      "length (val LU') = length (val LU)"
    by (simp_all add: LU'_def spliced_def)
  have rows: "\<forall>r'. r' \<noteq> r \<longrightarrow> 0 \<le> r' \<longrightarrow> row LU' ! nat r' = row LU ! nat r'"
    by (simp add: LU'_def spliced_def)
  have lst: "\<forall>s. 0 < s \<longrightarrow> s \<notin> set (xs @ zs) \<longrightarrow> s \<noteq> loc \<longrightarrow> list LU' ! nat s = list LU ! nat s"
  proof (intro allI impI)
    fix s :: int assume s: "0 < s" "s \<notin> set (xs @ zs)" "s \<noteq> loc"
    with j have "s \<noteq> last xs" by metis
    with s show "list LU' ! nat s = list LU ! nat s"
      by (simp add: LU'_def spliced_def nth_upd_other)
  qed
  have cl: "\<forall>s. 0 < s \<longrightarrow> s \<noteq> loc \<longrightarrow> col LU' ! nat s = col LU ! nat s"
    by (simp add: LU'_def spliced_def nth_upd_other)
  have ri: "\<forall>s. 0 < s \<longrightarrow> s \<noteq> loc \<longrightarrow> rowidx LU' ! nat s = rowidx LU ! nat s"
    by (simp add: LU'_def spliced_def nth_upd_other)
  have "path ((list LU)[nat (last xs) := loc, nat loc := (if zs = [] then 0 else hd zs)])
          (row LU ! nat r) (xs @ loc # zs) 0"
    using p ne d loc(1) ll(1) nloc by (rule path_splice)
  then have p': "path (list LU') (row LU' ! nat r) (xs @ loc # zs) 0"
    by (simp add: LU'_def spliced_def)
  have cloc: "colv LU' loc = c" using ll(3) by (simp add: LU'_def spliced_def colv_def)
  have "\<forall>s \<in> set (xs @ zs). col LU' ! nat s = col LU ! nat s" using cl b nloc by metis
  then have "map (colv LU') (xs @ zs) = map (colv LU) (xs @ zs)" by (rule map_colv_cong)
  then have meq: "map (colv LU') xs = map (colv LU) xs" "map (colv LU') zs = map (colv LU) zs"
    by simp_all
  have srt': "sorted_wrt (<) (map (colv LU') (xs @ loc # zs))"
    using srt lt gt by (simp add: cloc meq sorted_wrt_append)
  have rloc: "rowidx LU' ! nat loc = r" using ll(2) by (simp add: LU'_def spliced_def)
  have "\<forall>s \<in> set (xs @ zs). rowidx LU' ! nat s = r" using ri b nloc by metis
  with rloc loc(2) b have b': "\<forall>s \<in> set (xs @ loc # zs). s < nnz LU \<and> rowidx LU' ! nat s = r"
    by simp
  note U = pattern_ok_update[OF ok r c nr nz len rows lst cl ri loc(3) p' srt' b']
  from U(1) show "pattern_ok (spliced LU loc r c (last xs) (if zs = [] then 0 else hd zs))"
    by (simp add: LU'_def)
  from U(2) show "chain (spliced LU loc r c (last xs) (if zs = [] then 0 else hd zs)) r
      = Some (xs @ loc # zs)"
    by (simp add: LU'_def)
  from U(2) c show "set (cols (spliced LU loc r c (last xs) (if zs = [] then 0 else hd zs)) r)
       = insert c (set (cols LU r))"
    by (simp add: cols_def LU'_def[symmetric] cloc meq)
qed

lemma free_kept_prepended:
  "0 < s \<Longrightarrow> s \<noteq> loc \<Longrightarrow> list (prepended LU loc r c) ! nat s = list LU ! nat s"
  by (simp add: prepended_def nth_upd_other)

lemma free_kept_spliced:
  "0 < s \<Longrightarrow> s \<noteq> loc \<Longrightarrow> s \<noteq> j \<Longrightarrow> list (spliced LU loc r c j jn) ! nat s = list LU ! nat s"
  by (simp add: spliced_def nth_upd_other)

lemma insert_candidate_correct:
  assumes ok: "pattern_ok LU" and r: "0 \<le> r" "r < num_rows LU"
    and loc: "0 < loc" "loc < nnz LU" "list LU ! nat loc = - 1"
  shows "\<exists>LU' k'. insert_candidate LU k loc r c = Some (LU', k') \<and> pattern_ok LU' \<and>
      nnz LU' = nnz LU \<and> num_rows LU' = num_rows LU \<and>
      (\<forall>s. 0 < s \<longrightarrow> s \<noteq> loc \<longrightarrow> list LU ! nat s = - 1 \<longrightarrow> list LU' ! nat s = - 1) \<and>
      ((LU' = LU \<and> k' = k \<and> (c \<in> set (cols LU r) \<or> (\<forall>z \<in> set (cols LU r). z < c))) \<or>
       (k' = k + 1 \<and> c \<notin> set (cols LU r) \<and> set (cols LU' r) = insert c (set (cols LU r))))"
proof -
  have sz: "sized LU" using ok by (rule pattern_okD)
  note szd = sizedD[OF sz]
  from row_facts[OF ok r] obtain xs where ch: "chain LU r = Some xs"
    and p: "path (list LU) (row LU ! nat r) xs 0"
    and srt: "sorted_wrt (<) (map (colv LU) xs)"
    and b: "\<forall>s \<in> set xs. 0 < s \<and> s < nnz LU \<and> rowidx LU ! nat s = r"
    and d: "distinct xs"
    by blast
  have cs: "cols LU r = map (colv LU) xs" using ch by (simp add: cols_def)
  let ?s0 = "row LU ! nat r"
  have rd_row: "rd (row LU) r = Some ?s0" using r szd(2) by (simp add: rd_def)
  have s0: "0 \<le> ?s0" "?s0 < nnz LU"
    using p b by (cases xs; simp add: szd(3))+
  have rd_col: "rd (col LU) ?s0 = Some (colv LU ?s0)" using s0 szd(5) by (simp add: rd_def colv_def)
  have rd_lst: "rd (list LU) ?s0 = Some (list LU ! nat ?s0)" using s0 szd(6) by (simp add: rd_def)
  have wrs: "wr (row LU) r loc = Some ((row LU)[nat r := loc])"
    "wr (list LU) loc ?s0 = Some ((list LU)[nat loc := ?s0])"
    "wr (rowidx LU) loc r = Some ((rowidx LU)[nat loc := r])"
    "wr (col LU) loc c = Some ((col LU)[nat loc := c])"
    "wr (val LU) loc 0 = Some ((val LU)[nat loc := 0])"
    using r loc szd by (simp_all add: wr_def)
  consider (lt) "c < colv LU ?s0" | (eq) "c = colv LU ?s0" | (gt) "colv LU ?s0 < c" by linarith
  then show ?thesis
  proof cases
    case lt
    have res: "insert_candidate LU k loc r c = Some (prepended LU loc r c, k + 1)"
      using lt by (simp add: insert_candidate_def rd_row rd_col wrs prepended_def)
    have all: "\<forall>x \<in> set xs. c < colv LU x"
    proof (cases xs)
      case Nil
      then show ?thesis by simp
    next
      case (Cons x rest)
      with p have "?s0 = x" by simp
      with lt srt Cons show ?thesis by auto
    qed
    note P = prepended_ok[OF ok r loc ch all]
    have "c \<notin> set (cols LU r)" using all cs by auto
    with res P show ?thesis
      by (intro exI[of _ "prepended LU loc r c"] exI[of _ "k + 1"])
        (simp add: free_kept_prepended, simp add: prepended_def)
  next
    case eq
    have res: "insert_candidate LU k loc r c = Some (LU, k)"
      using eq by (simp add: insert_candidate_def rd_row rd_col)
    have "c \<in> set (cols LU r) \<or> (\<forall>z \<in> set (cols LU r). z < c)"
    proof (cases xs)
      case Nil
      then show ?thesis by (simp add: cs)
    next
      case (Cons x rest)
      with p have "?s0 = x" by simp
      with eq Cons show ?thesis by (simp add: cs)
    qed
    with res ok show ?thesis by simp
  next
    case gt
    have res: "insert_candidate LU k loc r c = insert_walk LU k loc r c ?s0 (list LU ! nat ?s0)"
      using gt by (simp add: insert_candidate_def rd_row rd_col rd_lst)
    show ?thesis
    proof (cases xs)
      case Nil
      with p have "?s0 = 0" by simp
      with res have "insert_candidate LU k loc r c = Some (LU, k)"
        by (simp add: insert_walk_end)
      with ok Nil show ?thesis by (simp add: cs)
    next
      case (Cons x rest)
      with p have sx: "?s0 = x" by simp
      have px: "path (list LU) x (x # rest) 0" using p Cons sx by simp
      have sx': "sorted_wrt (<) (map (colv LU) (x # rest))" using srt Cons by simp
      have bx: "\<forall>y \<in> set (x # rest). y < nnz LU" using b Cons by simp
      have gx: "colv LU x < c" using gt sx by simp
      from insert_walk_correct[OF px sx' gx sz bx loc(1,2), of k r]
      obtain LU' k' where w: "insert_walk LU k loc r c x (list LU ! nat x) = Some (LU', k')"
        and dj: "(LU' = LU \<and> k' = k \<and> (c \<in> colv LU ` set rest \<or> (\<forall>z \<in> set rest. colv LU z < c)))
          \<or> (k' = k + 1 \<and> c \<notin> colv LU ` set rest \<and>
           (\<exists>ys zs. rest = ys @ zs \<and> (\<forall>y \<in> set ys. colv LU y < c) \<and>
              (\<forall>z \<in> set zs. c < colv LU z) \<and>
              LU' = spliced LU loc r c (last (x # ys)) (if zs = [] then 0 else hd zs)))"
        by blast
      from dj show ?thesis
      proof
        assume a: "LU' = LU \<and> k' = k \<and> (c \<in> colv LU ` set rest \<or> (\<forall>z \<in> set rest. colv LU z < c))"
        then have "c \<in> set (cols LU r) \<or> (\<forall>z \<in> set (cols LU r). z < c)"
          using gx Cons by (auto simp: cs)
        with a res w sx ok show ?thesis by simp
      next
        assume a: "k' = k + 1 \<and> c \<notin> colv LU ` set rest \<and>
           (\<exists>ys zs. rest = ys @ zs \<and> (\<forall>y \<in> set ys. colv LU y < c) \<and>
              (\<forall>z \<in> set zs. c < colv LU z) \<and>
              LU' = spliced LU loc r c (last (x # ys)) (if zs = [] then 0 else hd zs))"
        then obtain ys zs where yz: "rest = ys @ zs" "\<forall>y \<in> set ys. colv LU y < c"
          "\<forall>z \<in> set zs. c < colv LU z"
          "LU' = spliced LU loc r c (last (x # ys)) (if zs = [] then 0 else hd zs)"
          by blast
        have ch': "chain LU r = Some ((x # ys) @ zs)" using ch Cons yz(1) by simp
        have lt': "\<forall>y \<in> set (x # ys). colv LU y < c" using yz(2) gx by simp
        have ne: "x # ys \<noteq> []" by simp
        note S = spliced_ok[OF ok r loc ch' ne lt' yz(3)]
        have nin: "c \<notin> set (cols LU r)" using a gx Cons by (auto simp: cs)
        have fr: "\<forall>s. 0 < s \<longrightarrow> s \<noteq> loc \<longrightarrow> list LU ! nat s = - 1 \<longrightarrow> list LU' ! nat s = - 1"
        proof (intro allI impI)
          fix s :: int assume s: "0 < s" "s \<noteq> loc" "list LU ! nat s = - 1"
          have "s \<notin> set xs" using p s(3) by (rule free_not_in_chain)
          moreover have "last (x # ys) \<in> set xs" using Cons yz(1) by auto
          ultimately have "s \<noteq> last (x # ys)" by metis
          with s show "list LU' ! nat s = - 1" by (simp add: yz(4) free_kept_spliced)
        qed
        have nn: "nnz LU' = nnz LU" "num_rows LU' = num_rows LU"
          by (simp_all add: yz(4) spliced_def)
        show ?thesis
          apply (rule exI[of _ LU'], rule exI[of _ k'])
          using res w sx S(1,3) nin fr nn a by (simp add: yz(4))
      qed
    qed
  qed
qed

lemma candidates_okD:
  assumes "candidates_ok LU LU_new" "0 \<le> i" "i < nnz LU_new"
  shows "rd (rowidx LU_new) i = Some (rowidx LU_new ! nat i)"
    "rd (col LU_new) i = Some (col LU_new ! nat i)"
    "0 \<le> rowidx LU_new ! nat i" "rowidx LU_new ! nat i < num_rows LU"
  using assms by (simp_all add: candidates_ok_def rd_def)

lemma distinct_take_nth:
  assumes "distinct (take n xs)" "a < n" "b < n" "a < length xs" "b < length xs" "a \<noteq> b"
  shows "xs ! a \<noteq> xs ! b"
proof -
  have "take n xs ! a \<noteq> take n xs ! b"
    using assms by (subst nth_eq_iff_index_eq) simp_all
  with assms(2,3) show ?thesis by simp
qed

lemma insert_loop_correct:
  assumes "pattern_ok LU" and "candidates_ok LU LU_new" and "0 \<le> i" and "0 \<le> k"
    and "num_rm \<le> int (length rm_loc)" and "distinct (take (nat num_rm) rm_loc)"
    and "\<forall>m. k \<le> m \<and> m < num_rm \<longrightarrow>
           0 < rm_loc ! nat m \<and> rm_loc ! nat m < nnz LU \<and> list LU ! nat (rm_loc ! nat m) = - 1"
  shows "\<exists>LU' i' k'. insert_loop num_rm rm_loc LU_new LU i k = Some (LU', i', k') \<and>
           pattern_ok LU' \<and> nnz LU' = nnz LU \<and> num_rows LU' = num_rows LU"
  using assms
proof (induction "nat (nnz LU_new - i)" arbitrary: i k LU rule: less_induct)
  case less
  show ?case
  proof (cases "k < num_rm \<and> i < nnz LU_new")
    case False
    then show ?thesis using less.prems(1)
      by (subst insert_loop.simps) auto
  next
    case True
    let ?loc = "rm_loc ! nat k"
    let ?r = "rowidx LU_new ! nat i"
    let ?c = "col LU_new ! nat i"
    have rdl: "rd rm_loc k = Some ?loc" using True less.prems(4,5) by (simp add: rd_def)
    note cd = candidates_okD[OF less.prems(2,3) conjunct2[OF True]]
    have loc: "0 < ?loc" "?loc < nnz LU" "list LU ! nat ?loc = - 1"
      using less.prems(7) True by simp_all
    from insert_candidate_correct[OF less.prems(1) cd(3,4) loc, of k ?c]
    obtain LU1 k1 where st: "insert_candidate LU k ?loc ?r ?c = Some (LU1, k1)"
      and ok1: "pattern_ok LU1" and nn: "nnz LU1 = nnz LU" "num_rows LU1 = num_rows LU"
      and fr: "\<forall>s. 0 < s \<longrightarrow> s \<noteq> ?loc \<longrightarrow> list LU ! nat s = - 1 \<longrightarrow> list LU1 ! nat s = - 1"
      and kk: "(LU1 = LU \<and> k1 = k) \<or> k1 = k + 1"
      by blast
    have unf: "insert_loop num_rm rm_loc LU_new LU i k =
        insert_loop num_rm rm_loc LU_new LU1 (i + 1) k1"
      apply (subst insert_loop.simps)
      using True by (simp add: rdl cd(1,2) st)
    have c1: "candidates_ok LU1 LU_new" using less.prems(2) nn by (simp add: candidates_ok_def)
    have k1: "0 \<le> k1" using kk less.prems(4) by auto
    have free1: "\<forall>m. k1 \<le> m \<and> m < num_rm \<longrightarrow>
           0 < rm_loc ! nat m \<and> rm_loc ! nat m < nnz LU1 \<and> list LU1 ! nat (rm_loc ! nat m) = - 1"
    proof (intro allI impI)
      fix m assume m: "k1 \<le> m \<and> m < num_rm"
      from kk show "0 < rm_loc ! nat m \<and> rm_loc ! nat m < nnz LU1 \<and>
          list LU1 ! nat (rm_loc ! nat m) = - 1"
      proof
        assume "LU1 = LU \<and> k1 = k"
        with m less.prems(7) show ?thesis by simp
      next
        assume a: "k1 = k + 1"
        with m less.prems(4,7) have f: "0 < rm_loc ! nat m" "rm_loc ! nat m < nnz LU"
          "list LU ! nat (rm_loc ! nat m) = - 1" by simp_all
        have "nat m < nat num_rm" "nat k < nat num_rm" "nat m < length rm_loc"
          "nat k < length rm_loc" "nat m \<noteq> nat k"
          using m a less.prems(4,5) by linarith+
        with less.prems(6) have "rm_loc ! nat m \<noteq> ?loc"
          by (intro distinct_take_nth[of "nat num_rm"])
        with fr f nn show ?thesis by simp
      qed
    qed
    have "nat (nnz LU_new - (i + 1)) < nat (nnz LU_new - i)" using True by simp
    from less.hyps[OF this ok1 c1 _ k1 less.prems(5,6) free1] less.prems(3) nn
    show ?thesis unfolding unf by simp
  qed
qed

lemma insert_total:
  assumes ok: "pattern_ok LU" and fs: "free_slots LU rm_loc num_rm"
    and cd: "candidates_ok LU LU_new"
  shows "\<exists>LN' LU'. magma_zmdynamicic_insert os num_rm rm_loc LU_new LU =
           Some (if nnz LU_new \<le> num_rm then 0 else fst (os (val LU_new) num_rm (nnz LU_new - 1) 1),
                 LN', LU') \<and>
           pattern_ok LU' \<and> nnz LU' = nnz LU \<and> num_rows LU' = num_rows LU"
proof (cases "nnz LU_new \<le> num_rm")
  case True
  with ok show ?thesis by (simp add: magma_zmdynamicic_insert_def)
next
  case False
  obtain info v element where o: "os (val LU_new) num_rm (nnz LU_new - 1) 1 = (info, v, element)"
    by (cases "os (val LU_new) num_rm (nnz LU_new - 1) 1") auto
  show ?thesis
  proof (cases "info = 0")
    case False
    with \<open>\<not> nnz LU_new \<le> num_rm\<close> o ok show ?thesis
      by (simp add: magma_zmdynamicic_insert_def)
  next
    case True
    have cd': "candidates_ok LU (LU_new\<lparr>val := v\<rparr>)" using cd by (simp add: candidates_ok_def)
    from fs have f: "num_rm \<le> int (length rm_loc)" "distinct (take (nat num_rm) rm_loc)"
      and f3: "\<forall>s \<in> set (take (nat num_rm) rm_loc). 0 < s \<and> s < nnz LU \<and> list LU ! nat s = - 1"
      by (simp_all add: free_slots_def)
    have free: "\<forall>m. 0 \<le> m \<and> m < num_rm \<longrightarrow>
           0 < rm_loc ! nat m \<and> rm_loc ! nat m < nnz LU \<and> list LU ! nat (rm_loc ! nat m) = - 1"
    proof (intro allI impI)
      fix m assume m: "0 \<le> m \<and> m < num_rm"
      with f(1) have "nat m < length (take (nat num_rm) rm_loc)" by simp
      then have "take (nat num_rm) rm_loc ! nat m \<in> set (take (nat num_rm) rm_loc)"
        by (rule nth_mem)
      moreover have "take (nat num_rm) rm_loc ! nat m = rm_loc ! nat m" using m by simp
      ultimately show "0 < rm_loc ! nat m \<and> rm_loc ! nat m < nnz LU \<and>
          list LU ! nat (rm_loc ! nat m) = - 1" using f3 by metis
    qed
    from insert_loop_correct[OF ok cd' _ _ f free, of 0]
    obtain LU' i' k' where "insert_loop num_rm rm_loc (LU_new\<lparr>val := v\<rparr>) LU 0 0 = Some (LU', i', k')"
      "pattern_ok LU'" "nnz LU' = nnz LU" "num_rows LU' = num_rows LU"
      by auto
    with \<open>\<not> nnz LU_new \<le> num_rm\<close> o True show ?thesis
      by (simp add: magma_zmdynamicic_insert_def)
  qed
qed

section \<open>The insertion loop and its cursor\<close>


















section \<open>The removal loop\<close>

lemma nth_upd_other0: "0 \<le> x \<Longrightarrow> 0 \<le> u \<Longrightarrow> u \<noteq> x \<Longrightarrow> l[nat u := v] ! nat x = l ! nat x"
  by (rule nth_list_update_neq) linarith

lemma path_unlink:
  assumes p: "path l h (pre @ i # z # rest) 0" and d: "distinct (pre @ i # z # rest)"
    and ne: "pre \<noteq> []"
  shows "path (l[nat i := v, nat (last pre) := z]) h (pre @ z # rest) 0"
proof -
  from ne obtain ys j where pre: "pre = ys @ [j]" by (cases pre rule: rev_cases) auto
  define l2 where "l2 = l[nat i := v, nat j := z]"
  from p pre have "path l h (ys @ j # i # z # rest) 0" by simp
  then obtain a where p1: "path l h ys a" and p2: "path l a (j # i # z # rest) 0"
    unfolding path_append by auto
  from p2 have a: "a = j" and j: "0 < j" "j < int (length l)"
    and i: "0 < i" "i < int (length l)" and p3: "path l z (z # rest) 0"
    by simp_all
  from d pre have n1: "i \<notin> set ys" "j \<notin> set ys" "i \<notin> set (z # rest)" "j \<notin> set (z # rest)"
    "i \<noteq> j"
    by auto
  have q1: "path l2 h ys j" using p1 a n1(1,2) by (simp add: l2_def path_upd)
  have "l2 ! nat j = z" using j i by (simp add: l2_def)
  then have q2: "path l2 j [j] z" using j by (simp add: l2_def)
  have "path (l[nat i := v]) z (z # rest) 0"
    using p3 path_upd[OF n1(3), of l v z 0] by blast
  then have q3: "path l2 z (z # rest) 0"
    unfolding l2_def using path_upd[OF n1(4), of "l[nat i := v]" z z 0] by blast
  have "path l2 h (ys @ [j] @ z # rest) 0"
    unfolding path_append using q1 q2 q3 by blast
  with pre show ?thesis unfolding l2_def by simp
qed

lemma take_Suc_upd:
  assumes "0 \<le> count" "count < int (length rm)"
  shows "take (nat (count + 1)) (rm[nat count := i]) = take (nat count) rm @ [i]"
proof -
  have n: "nat (count + 1) = Suc (nat count)" using assms by simp
  have "nat count < length rm" using assms by simp
  then show ?thesis unfolding n by (simp add: take_Suc_conv_app_nth)
qed

lemma take_more_upd:
  assumes "0 \<le> count" "count < int (length rm)" "count + 1 \<le> c'"
    and "take (nat c') rm' = take (nat (count + 1)) (rm[nat count := i]) @ R"
  shows "take (nat c') rm' = take (nat count) rm @ i # R"
  using assms(4) take_Suc_upd[OF assms(1,2), of i] by simp

lemma rm_walk_post_keep:
  assumes "rm_walk_post thrs r LU rm count (pre @ [i]) x rest res" and "\<not> small thrs LU i"
  shows "rm_walk_post thrs r LU rm count pre i (x # rest) res"
  using assms by (cases res) (simp add: rm_walk_post_def Let_def)

lemma rm_walk_postD:
  assumes "rm_walk_post thrs r LU rm count pre i rest (LU', rm', c')"
  shows "path (list LU') (row LU' ! nat r)
      (pre @ filter (\<lambda>s. \<not> small thrs LU s) (butlast (i # rest)) @ [last (i # rest)]) 0"
    "\<forall>s \<in> set (filter (small thrs LU) (butlast (i # rest))).
        list LU' ! nat s = - 1 \<and> val LU' ! nat s = 0"
    "\<forall>s. 0 \<le> s \<longrightarrow> s \<notin> set (pre @ i # rest) \<longrightarrow> list LU' ! nat s = list LU ! nat s"
    "\<forall>s. 0 \<le> s \<longrightarrow> s \<notin> set (filter (small thrs LU) (butlast (i # rest))) \<longrightarrow>
        val LU' ! nat s = val LU ! nat s"
    "length (list LU') = length (list LU)" "length (val LU') = length (val LU)"
    "length (row LU') = length (row LU)"
    "\<forall>r'. 0 \<le> r' \<longrightarrow> r' \<noteq> r \<longrightarrow> row LU' ! nat r' = row LU ! nat r'"
    "col LU' = col LU" "rowidx LU' = rowidx LU" "nnz LU' = nnz LU"
    "num_rows LU' = num_rows LU"
    "c' = count + int (length (filter (small thrs LU) (butlast (i # rest))))"
    "length rm' = length rm"
    "take (nat c') rm' = take (nat count) rm @ filter (small thrs LU) (butlast (i # rest))"
  using assms unfolding rm_walk_post_def Let_def prod.case by blast+

lemma rm_walk_postI:
  assumes "path (list LU') (row LU' ! nat r)
      (pre @ filter (\<lambda>s. \<not> small thrs LU s) (butlast (i # rest)) @ [last (i # rest)]) 0"
    "\<forall>s \<in> set (filter (small thrs LU) (butlast (i # rest))).
        list LU' ! nat s = - 1 \<and> val LU' ! nat s = 0"
    "\<forall>s. 0 \<le> s \<longrightarrow> s \<notin> set (pre @ i # rest) \<longrightarrow> list LU' ! nat s = list LU ! nat s"
    "\<forall>s. 0 \<le> s \<longrightarrow> s \<notin> set (filter (small thrs LU) (butlast (i # rest))) \<longrightarrow>
        val LU' ! nat s = val LU ! nat s"
    "length (list LU') = length (list LU)" "length (val LU') = length (val LU)"
    "length (row LU') = length (row LU)"
    "\<forall>r'. 0 \<le> r' \<longrightarrow> r' \<noteq> r \<longrightarrow> row LU' ! nat r' = row LU ! nat r'"
    "col LU' = col LU" "rowidx LU' = rowidx LU" "nnz LU' = nnz LU"
    "num_rows LU' = num_rows LU"
    "c' = count + int (length (filter (small thrs LU) (butlast (i # rest))))"
    "length rm' = length rm"
    "take (nat c') rm' = take (nat count) rm @ filter (small thrs LU) (butlast (i # rest))"
  shows "rm_walk_post thrs r LU rm count pre i rest (LU', rm', c')"
  unfolding rm_walk_post_def Let_def prod.case using assms by blast

lemma rm_walk_post_remove:
  assumes post: "rm_walk_post thrs r LU1 rm1 (count + 1) pre x rest res"
    and sm: "small thrs LU i"
    and i: "0 < i" "i < int (length (list LU))" "i < int (length (val LU))"
      "i \<notin> set (pre @ x # rest)"
    and v1: "val LU1 = (val LU)[nat i := 0]"
    and l1: "list LU1 ! nat i = - 1" "length (list LU1) = length (list LU)"
      "\<forall>s. 0 \<le> s \<longrightarrow> s \<notin> set (pre @ i # x # rest) \<longrightarrow> list LU1 ! nat s = list LU ! nat s"
    and r1: "length (row LU1) = length (row LU)"
      "\<forall>r'. 0 \<le> r' \<longrightarrow> r' \<noteq> r \<longrightarrow> row LU1 ! nat r' = row LU ! nat r'"
    and same: "col LU1 = col LU" "rowidx LU1 = rowidx LU" "nnz LU1 = nnz LU"
      "num_rows LU1 = num_rows LU"
    and rm1: "rm1 = rm[nat count := i]" "0 \<le> count" "count < int (length rm)"
  shows "rm_walk_post thrs r LU rm count pre i (x # rest) res"
proof -
  obtain LU' rm' c' where res: "res = (LU', rm', c')" by (cases res)
  define R where "R = filter (small thrs LU) (butlast (x # rest))"
  define K where "K = filter (\<lambda>s. \<not> small thrs LU s) (butlast (x # rest)) @ [last (x # rest)]"
  have sm_eq: "small thrs LU1 s = small thrs LU s" if "s \<in> set (butlast (x # rest))" for s
  proof -
    from that have "s \<in> set (x # rest)" by (rule in_set_butlastD)
    with i(4) have "s \<noteq> i" by auto
    with i(1) have "nat i \<noteq> nat s" by linarith
    then show ?thesis by (simp add: small_def v1)
  qed
  then have R1: "filter (small thrs LU1) (butlast (x # rest)) = R"
    unfolding R_def by (intro filter_cong) simp_all
  have K1: "filter (\<lambda>s. \<not> small thrs LU1 s) (butlast (x # rest)) @ [last (x # rest)] = K"
    unfolding K_def using sm_eq by (simp cong: filter_cong)
  have Rsub: "set R \<subseteq> set (x # rest)"
    unfolding R_def by (metis filter_is_subset in_set_butlastD subsetD subsetI)
  then have iR: "i \<notin> set R" using i(4) by auto
  note P = rm_walk_postD[OF post[unfolded res], unfolded R1 K1]
  have Rfull: "filter (small thrs LU) (butlast (i # x # rest)) = i # R"
    using sm by (simp add: R_def)
  have Kfull: "filter (\<lambda>s. \<not> small thrs LU s) (butlast (i # x # rest)) @ [last (i # x # rest)] = K"
    using sm by (simp add: K_def)
  have li: "list LU' ! nat i = - 1" using P(3) i(1,4) l1(1) by simp
  have vi: "val LU' ! nat i = 0" using P(4) i(1,3) iR v1 by simp
  have b: "\<forall>s \<in> set (i # R). list LU' ! nat s = - 1 \<and> val LU' ! nat s = 0"
    using P(2) li vi by simp
  have c: "\<forall>s. 0 \<le> s \<longrightarrow> s \<notin> set (pre @ i # x # rest) \<longrightarrow> list LU' ! nat s = list LU ! nat s"
  proof (intro allI impI)
    fix s :: int assume s: "0 \<le> s" "s \<notin> set (pre @ i # x # rest)"
    then have "s \<notin> set (pre @ x # rest)" by simp
    with P(3) s(1) have "list LU' ! nat s = list LU1 ! nat s" by blast
    with l1(3) s show "list LU' ! nat s = list LU ! nat s" by simp
  qed
  have d: "\<forall>s. 0 \<le> s \<longrightarrow> s \<notin> set (i # R) \<longrightarrow> val LU' ! nat s = val LU ! nat s"
  proof (intro allI impI)
    fix s :: int assume s: "0 \<le> s" "s \<notin> set (i # R)"
    then have "val LU' ! nat s = val LU1 ! nat s" using P(4) by simp
    moreover have "nat i \<noteq> nat s" using s i(1) by simp linarith
    ultimately show "val LU' ! nat s = val LU ! nat s" by (simp add: v1)
  qed
  have f: "\<forall>r'. 0 \<le> r' \<longrightarrow> r' \<noteq> r \<longrightarrow> row LU' ! nat r' = row LU ! nat r'"
    using P(8) r1(2) by simp
  have h: "take (nat c') rm' = take (nat count) rm @ i # R"
    using rm1 P(13,15) by (intro take_more_upd) simp_all
  have len: "length (list LU') = length (list LU)" "length (val LU') = length (val LU)"
    "length (row LU') = length (row LU)" "length rm' = length rm"
    using P(5,6,7,14) l1(2) v1 r1(1) rm1(1) by simp_all
  have sm': "col LU' = col LU" "rowidx LU' = rowidx LU" "nnz LU' = nnz LU"
    "num_rows LU' = num_rows LU"
    using P(9-12) same by simp_all
  have cc: "c' = count + int (length (i # R))" using P(13) by simp
  show ?thesis
    unfolding res
    apply (rule rm_walk_postI)
    unfolding Rfull Kfull
    using P(1) b c d len(1,2,3) f sm' cc len(4) h by blast+
qed

lemma rm_thrs_walk_correct:
  assumes "path (list LU) (row LU ! nat r) (pre @ i # rest) 0"
    and "distinct (pre @ i # rest)"
    and "pre \<noteq> [] \<longrightarrow> lasti = last pre"
    and "0 \<le> r" and "r < int (length (row LU))"
    and "\<forall>s \<in> set (i # rest). s < int (length (val LU))"
    and "0 \<le> count" and "count + int (length rest) \<le> int (length rm)"
  shows "\<exists>res. rm_thrs_walk thrs r LU rm count i lasti (list LU ! nat i) = Some res \<and>
           rm_walk_post thrs r LU rm count pre i rest res"
  using assms
proof (induction rest arbitrary: LU rm count i lasti pre)
  case Nil
  from Nil.prems(1) have "path (list LU) (row LU ! nat r) (pre @ [i]) 0" by simp
  then obtain a where "path (list LU) a [i] 0" unfolding path_append by blast
  then have nx: "list LU ! nat i = 0" by simp
  have "rm_thrs_walk thrs r LU rm count i lasti 0 = Some (LU, rm, count)"
    by (subst rm_thrs_walk.simps) simp
  moreover have "rm_walk_post thrs r LU rm count pre i [] (LU, rm, count)"
    using Nil.prems(1) by (intro rm_walk_postI) simp_all
  ultimately show ?case unfolding nx by blast
next
  case (Cons x rest)
  let ?l = "list LU"
  from Cons.prems(1) obtain a where pa: "path ?l (row LU ! nat r) pre a"
    and pi: "path ?l a (i # x # rest) 0"
    unfolding path_append by blast
  from pi have i: "0 < i" "i < int (length ?l)" and nx: "?l ! nat i = x"
    and x: "0 < x" "x < int (length ?l)" and px: "path ?l x (x # rest) 0"
    by simp_all
  from Cons.prems(6) have iv: "i < int (length (val LU))"
    and bx: "\<forall>s \<in> set (x # rest). s < int (length (val LU))"
    by simp_all
  from Cons.prems(2) have ix: "i \<noteq> x" "i \<notin> set rest" "i \<notin> set pre" "x \<notin> set pre"
    and dx: "distinct (pre @ x # rest)"
    by auto
  have cnt: "count < int (length rm)" using Cons.prems(8) by simp
  have rdv: "rd (val LU) i = Some (val LU ! nat i)" using i(1) iv by (simp add: rd_def)
  have rdx: "rd ?l x = Some (?l ! nat x)" using x by (simp add: rd_def)
  show ?case
  proof (cases "small thrs LU i")
    case False
    have step: "rm_thrs_walk thrs r LU rm count i lasti (?l ! nat i) =
        rm_thrs_walk thrs r LU rm count x i (?l ! nat x)"
      apply (subst rm_thrs_walk.simps)
      using False x(1) by (simp add: nx rdv rdx small_def)
    have p': "path ?l (row LU ! nat r) ((pre @ [i]) @ x # rest) 0" using Cons.prems(1) by simp
    have d': "distinct ((pre @ [i]) @ x # rest)" using Cons.prems(2) by simp
    have la: "pre @ [i] \<noteq> [] \<longrightarrow> i = last (pre @ [i])" by simp
    have c': "count + int (length rest) \<le> int (length rm)" using Cons.prems(8) by simp
    from Cons.IH[OF p' d' la Cons.prems(4,5) bx Cons.prems(7) c']
    obtain res where r: "rm_thrs_walk thrs r LU rm count x i (?l ! nat x) = Some res"
      and post: "rm_walk_post thrs r LU rm count (pre @ [i]) x rest res"
      by blast
    from rm_walk_post_keep[OF post False] r step show ?thesis by simp
  next
    case True
    let ?vl = "(val LU)[nat i := 0]"
    let ?l1 = "?l[nat i := - 1]"
    let ?rm = "rm[nat count := i]"
    have wv: "wr (val LU) i 0 = Some ?vl" using i(1) iv by (simp add: wr_def)
    have wl: "wr ?l i (- 1) = Some ?l1" using i by (simp add: wr_def)
    have wm: "wr rm count i = Some ?rm" using Cons.prems(7) cnt by (simp add: wr_def)
    have rdr: "rd (row LU) r = Some (row LU ! nat r)" using Cons.prems(4,5) by (simp add: rd_def)
    have c1: "0 \<le> count + 1" "count + 1 + int (length rest) \<le> int (length ?rm)"
      using Cons.prems(7,8) by simp_all
    show ?thesis
    proof (cases "pre = []")
      case True
      then have hd: "row LU ! nat r = i" using Cons.prems(1) by simp
      let ?rw = "(row LU)[nat r := x]"
      let ?LU1 = "LU\<lparr>row := ?rw, list := ?l1, val := ?vl\<rparr>"
      have wrw: "wr (row LU) r x = Some ?rw" using Cons.prems(4,5) by (simp add: wr_def)
      have l1x: "?l1 ! nat x = ?l ! nat x" using x(1) ix(1) by (simp add: nth_upd_other)
      have rdx1: "rd ?l1 x = Some (?l ! nat x)" using x l1x by (simp add: rd_def)
      have step: "rm_thrs_walk thrs r LU rm count i lasti (?l ! nat i) =
          rm_thrs_walk thrs r ?LU1 ?rm (count + 1) x i (list ?LU1 ! nat x)"
        apply (subst rm_thrs_walk.simps)
        using \<open>small thrs LU i\<close> x(1)
        by (simp add: nx rdv wv wl wm rdr hd wrw rdx1 l1x small_def)
      have "path ?l1 x (x # rest) 0" using px ix(1,2) path_upd[of i "x # rest" ?l "- 1" x 0]
        by simp
      moreover have "row ?LU1 ! nat r = x" using Cons.prems(4,5) by simp
      ultimately have p1: "path (list ?LU1) (row ?LU1 ! nat r) ([] @ x # rest) 0" by simp
      have d1: "distinct ([] @ x # rest)" using dx by simp
      have la: "([]::int list) \<noteq> [] \<longrightarrow> i = last []" by simp
      have r1: "r < int (length (row ?LU1))" using Cons.prems(5) by simp
      have b1: "\<forall>s \<in> set (x # rest). s < int (length (val ?LU1))" using bx by simp
      from Cons.IH[OF p1 d1 la Cons.prems(4) r1 b1 c1]
      obtain res where r: "rm_thrs_walk thrs r ?LU1 ?rm (count + 1) x i (list ?LU1 ! nat x) = Some res"
        and post: "rm_walk_post thrs r ?LU1 ?rm (count + 1) [] x rest res"
        by blast
      have in1: "i \<notin> set ([] @ x # rest)" using ix by simp
      have fl: "\<forall>s. 0 \<le> s \<longrightarrow> s \<notin> set ([] @ i # x # rest) \<longrightarrow> list ?LU1 ! nat s = ?l ! nat s"
        using i(1) by (simp add: nth_upd_other0)
      have fr: "\<forall>r'. 0 \<le> r' \<longrightarrow> r' \<noteq> r \<longrightarrow> row ?LU1 ! nat r' = row LU ! nat r'"
        using Cons.prems(4) by (simp add: nth_upd_other0)
      have "rm_walk_post thrs r LU rm count [] i (x # rest) res"
        apply (rule rm_walk_post_remove[OF post \<open>small thrs LU i\<close> i iv in1 _ _ _ fl _ fr])
        using i Cons.prems(7) cnt by simp_all
      with r step True show ?thesis by simp
    next
      case False
      then have la: "lasti = last pre" using Cons.prems(3) by simp
      from False obtain ys where pre: "pre = ys @ [lasti]"
        unfolding la by (cases pre rule: rev_cases) auto
      have hd: "row LU ! nat r \<noteq> i"
        using Cons.prems(1) False ix(3) by (cases pre) auto
      have lj: "lasti \<in> set pre" using pre by simp
      from path_range[OF pa lj] have jr: "0 < lasti" "lasti < int (length ?l)" by simp_all
      have jn: "lasti \<noteq> i" "lasti \<noteq> x" "lasti \<notin> set rest"
        using Cons.prems(2) lj by auto
      let ?l2 = "?l[nat i := - 1, nat lasti := x]"
      let ?LU1 = "LU\<lparr>list := ?l2, val := ?vl\<rparr>"
      have wl2: "wr ?l1 lasti x = Some ?l2" using jr by (simp add: wr_def)
      have l2x: "?l2 ! nat x = ?l ! nat x" using x(1) ix(1) jn(2) by (simp add: nth_upd_other)
      have rdx2: "rd ?l2 x = Some (?l ! nat x)" using x l2x by (simp add: rd_def)
      have step: "rm_thrs_walk thrs r LU rm count i lasti (?l ! nat i) =
          rm_thrs_walk thrs r ?LU1 ?rm (count + 1) x lasti (list ?LU1 ! nat x)"
        apply (subst rm_thrs_walk.simps)
        using \<open>small thrs LU i\<close> x(1) hd
        by (simp add: nx rdv wv wl wm rdr wl2 rdx2 l2x small_def)
      have "path ?l2 (row LU ! nat r) (pre @ x # rest) 0"
        using path_unlink[OF Cons.prems(1,2) False, of "- 1"] la by simp
      then have p1: "path (list ?LU1) (row ?LU1 ! nat r) (pre @ x # rest) 0" by simp
      have la1: "pre \<noteq> [] \<longrightarrow> lasti = last pre" using la by simp
      have r1: "r < int (length (row ?LU1))" using Cons.prems(5) by simp
      have b1: "\<forall>s \<in> set (x # rest). s < int (length (val ?LU1))" using bx by simp
      from Cons.IH[OF p1 dx la1 Cons.prems(4) r1 b1 c1]
      obtain res where r: "rm_thrs_walk thrs r ?LU1 ?rm (count + 1) x lasti (list ?LU1 ! nat x) = Some res"
        and post: "rm_walk_post thrs r ?LU1 ?rm (count + 1) pre x rest res"
        by blast
      have in1: "i \<notin> set (pre @ x # rest)" using ix by simp
      have li: "list ?LU1 ! nat i = - 1" using i jn(1) by (simp add: nth_upd_other)
      have fl: "\<forall>s. 0 \<le> s \<longrightarrow> s \<notin> set (pre @ i # x # rest) \<longrightarrow> list ?LU1 ! nat s = ?l ! nat s"
      proof (intro allI impI)
        fix s :: int assume s: "0 \<le> s" "s \<notin> set (pre @ i # x # rest)"
        with lj have "s \<noteq> lasti" "s \<noteq> i" by auto
        with s(1) i(1) jr(1) show "list ?LU1 ! nat s = ?l ! nat s"
          by (simp add: nth_upd_other0)
      qed
      have fr: "\<forall>r'. 0 \<le> r' \<longrightarrow> r' \<noteq> r \<longrightarrow> row ?LU1 ! nat r' = row LU ! nat r'" by simp
      have "rm_walk_post thrs r LU rm count pre i (x # rest) res"
        apply (rule rm_walk_post_remove[OF post \<open>small thrs LU i\<close> i iv in1 _ li _ fl _ fr])
        using Cons.prems(7) cnt by simp_all
      with r step show ?thesis by simp
    qed
  qed
qed

lemma pattern_ok_frame:
  assumes ok: "pattern_ok LU" and r: "0 \<le> r" "r < num_rows LU"
    and c: "chain LU r = Some xs"
    and nr: "num_rows LU' = num_rows LU" and nz: "nnz LU' = nnz LU"
    and len: "length (row LU') = length (row LU)" "length (list LU') = length (list LU)"
      "length (val LU') = length (val LU)"
    and rows: "\<forall>r'. 0 \<le> r' \<longrightarrow> r' \<noteq> r \<longrightarrow> row LU' ! nat r' = row LU ! nat r'"
    and lst: "\<forall>s. 0 \<le> s \<longrightarrow> s \<notin> set xs \<longrightarrow> list LU' ! nat s = list LU ! nat s"
    and cl: "col LU' = col LU"
    and ri: "rowidx LU' = rowidx LU"
    and p: "path (list LU') (row LU' ! nat r) ys 0"
    and srt: "sorted_wrt (<) (map (colv LU) ys)"
    and b: "\<forall>s \<in> set ys. s < nnz LU \<and> rowidx LU ! nat s = r"
  shows "pattern_ok LU'" "chain LU' r = Some ys"
    "\<forall>r'. 0 \<le> r' \<longrightarrow> r' < num_rows LU \<longrightarrow> r' \<noteq> r \<longrightarrow> chain LU' r' = chain LU r'"
proof -
  have sz: "sized LU" using ok by (rule pattern_okD)
  then have sz': "sized LU'" using nr nz len cl ri by (simp add: sized_def)
  have cv: "colv LU' = colv LU" using cl by (simp add: colv_def fun_eq_iff)
  have rl: "r < int (length (row LU'))" using r sizedD(2)[OF sz'] nr by simp
  have ll: "nnz LU' \<le> int (length (list LU'))" using sizedD(6)[OF sz'] .
  from b nz ri have b': "\<forall>s \<in> set ys. s < nnz LU' \<and> rowidx LU' ! nat s = r" by simp
  from srt have srt': "sorted_wrt (<) (map (colv LU') ys)" by (simp add: cv)
  note R = rowI[OF r(1) rl ll p srt' b']
  show "chain LU' r = Some ys" by (rule R(1))
  have other: "chain LU' r' = chain LU r' \<and> I1 LU' r' \<and> I2 LU' r' \<and> I3 LU' r' \<and> I4 LU' r'"
    if r': "0 \<le> r'" "r' < num_rows LU" "r' \<noteq> r" for r'
  proof -
    from row_facts[OF ok r'(1,2)] obtain zs where z: "chain LU r' = Some zs"
      "path (list LU) (row LU ! nat r') zs 0" "sorted_wrt (<) (map (colv LU) zs)"
      "\<forall>s \<in> set zs. 0 < s \<and> s < nnz LU \<and> rowidx LU ! nat s = r'" "distinct zs"
      by blast
    from row_facts[OF ok r] c obtain x: "\<forall>s \<in> set xs. rowidx LU ! nat s = r"
      by (metis option.inject)
    have dis: "\<forall>s \<in> set zs. s \<notin> set xs" using z(4) x r'(3) by metis
    have same: "\<forall>s \<in> set zs. list LU' ! nat s = list LU ! nat s"
    proof
      fix s assume s: "s \<in> set zs"
      with z(4) have "0 \<le> s" by force
      with lst dis s show "list LU' ! nat s = list LU ! nat s" by blast
    qed
    have p': "path (list LU') (row LU' ! nat r') zs 0"
      using z(2) rows r'(1,3) path_cong[OF len(2) same] by simp
    from z(3) have s': "sorted_wrt (<) (map (colv LU') zs)" by (simp add: cv)
    have b'': "\<forall>s \<in> set zs. s < nnz LU' \<and> rowidx LU' ! nat s = r'"
      using ri z(4) nz by simp
    have rl': "r' < int (length (row LU'))" using r' sizedD(2)[OF sz'] nr by simp
    from rowI[OF r'(1) rl' ll p' s' b''] z(1) show ?thesis by simp
  qed
  then show "\<forall>r'. 0 \<le> r' \<longrightarrow> r' < num_rows LU \<longrightarrow> r' \<noteq> r \<longrightarrow> chain LU' r' = chain LU r'"
    by blast
  have "I1 LU' r' \<and> I2 LU' r' \<and> I3 LU' r' \<and> I4 LU' r'" if "r' \<in> {0..<num_rows LU'}" for r'
  proof (cases "r' = r")
    case True
    with R show ?thesis by simp
  next
    case False
    with that nr other[of r'] show ?thesis by simp
  qed
  with sz' show "pattern_ok LU'" by (simp add: pattern_ok_def)
qed

lemma row_split:
  assumes ok: "factor_ok LU" and r: "0 \<le> r" "r < num_rows LU"
  obtains xs where "chain LU r = Some xs" "slots LU r = xs" "xs \<noteq> []"
    "path (list LU) (row LU ! nat r) xs 0" "sorted_wrt (<) (map (colv LU) xs)"
    "\<forall>s \<in> set xs. 0 < s \<and> s < nnz LU \<and> rowidx LU ! nat s = r" "distinct xs"
    "colv LU (last xs) = r"
    "below thrs LU r = filter (small thrs LU) (butlast xs)"
    "remaining thrs LU r = filter (\<lambda>s. \<not> small thrs LU s) (butlast xs) @ [last xs]"
proof -
  from ok r have pok: "pattern_ok LU" and i5: "I5 LU r" by (simp_all add: factor_ok_def)
  from row_facts[OF pok r] obtain xs where x: "chain LU r = Some xs"
    "path (list LU) (row LU ! nat r) xs 0" "sorted_wrt (<) (map (colv LU) xs)"
    "\<forall>s \<in> set xs. 0 < s \<and> s < nnz LU \<and> rowidx LU ! nat s = r" "distinct xs"
    by blast
  from i5 x(1) have ne: "xs \<noteq> []" and la: "colv LU (last xs) = r" by (simp_all add: I5_def)
  have sl: "slots LU r = xs" using x(1) by (simp add: slots_def)
  from ne have xs: "butlast xs @ [last xs] = xs" by simp
  from x(3) have "sorted_wrt (<) (map (colv LU) (butlast xs @ [last xs]))" by (simp only: xs)
  then have lt: "\<forall>s \<in> set (butlast xs). colv LU s < r"
    by (simp add: sorted_wrt_append la)
  have f1: "filter (\<lambda>s. colv LU s \<noteq> r \<and> small thrs LU s) (butlast xs) =
      filter (small thrs LU) (butlast xs)"
    using lt by (intro filter_cong) auto
  have f2: "filter (\<lambda>s. \<not> (colv LU s \<noteq> r \<and> small thrs LU s)) (butlast xs) =
      filter (\<lambda>s. \<not> small thrs LU s) (butlast xs)"
    using lt by (intro filter_cong) auto
  have "below thrs LU r = filter (\<lambda>s. colv LU s \<noteq> r \<and> small thrs LU s) (butlast xs @ [last xs])"
    by (simp only: below_def sl xs)
  then have bl: "below thrs LU r = filter (small thrs LU) (butlast xs)"
    by (simp add: f1 la)
  have "remaining thrs LU r =
      filter (\<lambda>s. \<not> (colv LU s \<noteq> r \<and> small thrs LU s)) (butlast xs @ [last xs])"
    by (simp only: remaining_def sl xs)
  also have "\<dots> = filter (\<lambda>s. \<not> (colv LU s \<noteq> r \<and> small thrs LU s)) (butlast xs) @ [last xs]"
    using la by simp
  finally have rm: "remaining thrs LU r = filter (\<lambda>s. \<not> small thrs LU s) (butlast xs) @ [last xs]"
    by (simp only: f2)
  from x ne la sl bl rm that show thesis by blast
qed

lemma rm_rows_postD:
  assumes "rm_rows_post thrs LU rm count rs (LU', rm', c')"
  shows "factor_ok LU'"
    "\<forall>r \<in> set rs. slots LU' r = remaining thrs LU r"
    "\<forall>r. 0 \<le> r \<longrightarrow> r < num_rows LU \<longrightarrow> r \<notin> set rs \<longrightarrow> chain LU' r = chain LU r"
    "col LU' = col LU" "rowidx LU' = rowidx LU" "nnz LU' = nnz LU" "num_rows LU' = num_rows LU"
    "\<forall>s \<in> set (concat (map (below thrs LU) rs)). list LU' ! nat s = - 1 \<and> val LU' ! nat s = 0"
    "\<forall>s. 0 \<le> s \<longrightarrow> s \<notin> set (concat (map (below thrs LU) rs)) \<longrightarrow>
        val LU' ! nat s = val LU ! nat s"
    "\<forall>s. 0 \<le> s \<longrightarrow> list LU ! nat s = - 1 \<longrightarrow> list LU' ! nat s = - 1"
    "c' = count + int (length (concat (map (below thrs LU) rs)))"
    "length rm' = length rm"
    "take (nat c') rm' = take (nat count) rm @ concat (map (below thrs LU) rs)"
  using assms unfolding rm_rows_post_def Let_def prod.case by blast+

lemma rm_rows_postI:
  assumes "factor_ok LU'"
    "\<forall>r \<in> set rs. slots LU' r = remaining thrs LU r"
    "\<forall>r. 0 \<le> r \<longrightarrow> r < num_rows LU \<longrightarrow> r \<notin> set rs \<longrightarrow> chain LU' r = chain LU r"
    "col LU' = col LU" "rowidx LU' = rowidx LU" "nnz LU' = nnz LU" "num_rows LU' = num_rows LU"
    "\<forall>s \<in> set (concat (map (below thrs LU) rs)). list LU' ! nat s = - 1 \<and> val LU' ! nat s = 0"
    "\<forall>s. 0 \<le> s \<longrightarrow> s \<notin> set (concat (map (below thrs LU) rs)) \<longrightarrow>
        val LU' ! nat s = val LU ! nat s"
    "\<forall>s. 0 \<le> s \<longrightarrow> list LU ! nat s = - 1 \<longrightarrow> list LU' ! nat s = - 1"
    "c' = count + int (length (concat (map (below thrs LU) rs)))"
    "length rm' = length rm"
    "take (nat c') rm' = take (nat count) rm @ concat (map (below thrs LU) rs)"
  shows "rm_rows_post thrs LU rm count rs (LU', rm', c')"
  unfolding rm_rows_post_def Let_def prod.case using assms by blast

lemma rm_row_step:
  assumes ok: "factor_ok LU" and r: "0 \<le> r" "r < num_rows LU"
    and cnt: "0 \<le> count" "count + int (length (butlast (slots LU r))) \<le> int (length rm)"
  shows "\<exists>res.
      rm_thrs_walk thrs r LU rm count (row LU ! nat r) (row LU ! nat r)
        (list LU ! nat (row LU ! nat r)) = Some res \<and>
      rd (row LU) r = Some (row LU ! nat r) \<and>
      rd (list LU) (row LU ! nat r) = Some (list LU ! nat (row LU ! nat r)) \<and>
      rm_rows_post thrs LU rm count [r] res"
proof -
  from ok have pok: "pattern_ok LU" by (simp add: factor_ok_def)
  have sz: "sized LU" using pok by (rule pattern_okD)
  note szd = sizedD[OF sz]
  from row_split[OF ok r, of thrs] obtain xs where x: "chain LU r = Some xs" "slots LU r = xs"
    "xs \<noteq> []" "path (list LU) (row LU ! nat r) xs 0" "sorted_wrt (<) (map (colv LU) xs)"
    "\<forall>s \<in> set xs. 0 < s \<and> s < nnz LU \<and> rowidx LU ! nat s = r" "distinct xs"
    "colv LU (last xs) = r"
    "below thrs LU r = filter (small thrs LU) (butlast xs)"
    "remaining thrs LU r = filter (\<lambda>s. \<not> small thrs LU s) (butlast xs) @ [last xs]"
    by blast
  from x(3) obtain i rest where xs: "xs = i # rest" by (cases xs) auto
  from x(4) xs have hd: "row LU ! nat r = i" by simp
  have rl: "r < int (length (row LU))" using r szd(2) by simp
  have p0: "path (list LU) (row LU ! nat r) ([] @ i # rest) 0" using x(4) xs by simp
  have d0: "distinct ([] @ i # rest)" using x(7) xs by simp
  have la: "([]::int list) \<noteq> [] \<longrightarrow> i = last []" by simp
  have bv: "\<forall>s \<in> set (i # rest). s < int (length (val LU))" using x(6) xs szd(7) by auto
  have "length (butlast (slots LU r)) = length rest" by (simp only: x(2) xs length_butlast) simp
  with cnt(2) have cap: "count + int (length rest) \<le> int (length rm)" by simp
  from rm_thrs_walk_correct[OF p0 d0 la r(1) rl bv cnt(1) cap, of thrs]
  obtain res where w: "rm_thrs_walk thrs r LU rm count i i (list LU ! nat i) = Some res"
    and post: "rm_walk_post thrs r LU rm count [] i rest res"
    by blast
  obtain LU' rm' c' where res: "res = (LU', rm', c')" by (cases res)
  note P = rm_walk_postD[OF post[unfolded res], folded xs, folded x(9), simplified, folded x(10)]
  have i: "0 < i" "i < int (length (list LU))" using x(4) xs by simp_all
  have rd1: "rd (row LU) r = Some (row LU ! nat r)" using r(1) rl by (simp add: rd_def)
  have rd2: "rd (list LU) (row LU ! nat r) = Some (list LU ! nat (row LU ! nat r))"
    using i hd by (simp add: rd_def)
  have sub: "set (remaining thrs LU r) \<subseteq> set xs"
    by (simp add: remaining_def x(2))
  have srt: "sorted_wrt (<) (map (colv LU) (remaining thrs LU r))"
    using x(5) unfolding remaining_def x(2) sorted_wrt_map by (rule sorted_wrt_filter)
  have b: "\<forall>s \<in> set (remaining thrs LU r). s < nnz LU \<and> rowidx LU ! nat s = r"
    using x(6) sub by blast
  have lst: "\<forall>s. 0 \<le> s \<longrightarrow> s \<notin> set xs \<longrightarrow> list LU' ! nat s = list LU ! nat s"
    using P(3) xs by simp
  note F = pattern_ok_frame[OF pok r x(1) P(12) P(11) P(7) P(5) P(6) P(8) lst P(9) P(10) P(1) srt b]
  have cv: "colv LU' = colv LU" using P(9) by (simp add: colv_def fun_eq_iff)
  have "I5 LU' r'" if r': "r' \<in> {0..<num_rows LU'}" for r'
  proof (cases "r' = r")
    case True
    have "last (remaining thrs LU r) = last xs" by (simp add: x(10))
    then show ?thesis using F(2) True x(8) by (simp add: I5_def cv x(10))
  next
    case False
    with r' P(12) F(3) have "chain LU' r' = chain LU r'" by simp
    moreover from ok r' P(12) have "I5 LU r'" by (simp add: factor_ok_def)
    ultimately show ?thesis by (simp add: I5_def cv split: option.splits)
  qed
  with F(1) have ok': "factor_ok LU'" by (simp add: factor_ok_def)
  have sl: "\<forall>r' \<in> set [r]. slots LU' r' = remaining thrs LU r'" using F(2) by (simp add: slots_def)
  have ch: "\<forall>r'. 0 \<le> r' \<longrightarrow> r' < num_rows LU \<longrightarrow> r' \<notin> set [r] \<longrightarrow> chain LU' r' = chain LU r'"
    using F(3) by simp
  have cc: "concat (map (below thrs LU) [r]) = below thrs LU r" by simp
  have fr: "\<forall>s. 0 \<le> s \<longrightarrow> list LU ! nat s = - 1 \<longrightarrow> list LU' ! nat s = - 1"
  proof (intro allI impI)
    fix s :: int assume s: "0 \<le> s" "list LU ! nat s = - 1"
    have "s \<notin> set xs" using x(4) s(2) by (rule free_not_in_chain)
    with lst s show "list LU' ! nat s = - 1" by simp
  qed
  have "rm_rows_post thrs LU rm count [r] (LU', rm', c')"
    apply (rule rm_rows_postI)
    unfolding cc
    using ok' sl ch P(9,10,11,12) P(2) P(4) fr P(13,14,15) by blast+
  with w rd1 rd2 show ?thesis unfolding hd res by blast
qed

lemma row_cong:
  assumes "chain LU1 r = chain LU r" and "col LU1 = col LU"
    and "\<forall>s \<in> set (slots LU r). val LU1 ! nat s = val LU ! nat s"
  shows "slots LU1 r = slots LU r" "below thrs LU1 r = below thrs LU r"
    "remaining thrs LU1 r = remaining thrs LU r"
proof -
  show sl: "slots LU1 r = slots LU r" using assms(1) by (simp add: slots_def)
  have cv: "colv LU1 = colv LU" using assms(2) by (simp add: colv_def fun_eq_iff)
  have sm: "\<forall>s \<in> set (slots LU r). small thrs LU1 s = small thrs LU s"
    using assms(3) by (simp add: small_def)
  show "below thrs LU1 r = below thrs LU r"
    unfolding below_def sl cv using sm by (intro filter_cong) auto
  show "remaining thrs LU1 r = remaining thrs LU r"
    unfolding remaining_def sl cv using sm by (intro filter_cong) auto
qed

lemma slots_rowidx:
  assumes "factor_ok LU" "0 \<le> r" "r < num_rows LU" "s \<in> set (slots LU r)"
  shows "0 < s" "s < nnz LU" "rowidx LU ! nat s = r"
proof -
  from assms(1) have pok: "pattern_ok LU" by (simp add: factor_ok_def)
  from row_facts[OF pok assms(2,3)] obtain xs where x: "chain LU r = Some xs"
    "path (list LU) (row LU ! nat r) xs 0" "sorted_wrt (<) (map (colv LU) xs)"
    "\<forall>s \<in> set xs. 0 < s \<and> s < nnz LU \<and> rowidx LU ! nat s = r" "distinct xs"
    by blast
  from x(1) assms(4) have "s \<in> set xs" by (simp add: slots_def)
  with x(4) have "0 < s \<and> s < nnz LU \<and> rowidx LU ! nat s = r" by blast
  then show "0 < s" "s < nnz LU" "rowidx LU ! nat s = r" by blast+
qed

lemma below_subset: "set (below thrs LU r) \<subseteq> set (slots LU r)"
  by (simp add: below_def)

lemma below_length: "length (below thrs LU r) \<le> length (butlast (slots LU r)) \<or> \<not> factor_ok LU
    \<or> \<not> (0 \<le> r \<and> r < num_rows LU)"
proof (cases "factor_ok LU \<and> 0 \<le> r \<and> r < num_rows LU")
  case True
  then have h: "factor_ok LU" "0 \<le> r" "r < num_rows LU" by simp_all
  from row_split[OF h, of thrs] obtain xs where
    "slots LU r = xs" "below thrs LU r = filter (small thrs LU) (butlast xs)"
    by blast
  then show ?thesis using length_filter_le[of "small thrs LU" "butlast xs"] by simp
next
  case False
  then show ?thesis by blast
qed

text \<open>Processing row \<open>r0\<close> and then the rows \<open>rs\<close>.\<close>

lemma rm_rows_post_compose:
  assumes ok: "factor_ok LU" and r0: "0 \<le> r0" "r0 < num_rows LU"
    and rs: "\<forall>r \<in> set rs. 0 \<le> r \<and> r < num_rows LU \<and> r \<noteq> r0"
    and p1: "rm_rows_post thrs LU rm count [r0] (LU1, rm1, c1)"
    and p2: "rm_rows_post thrs LU1 rm1 c1 rs (LU', rm', c')"
  shows "rm_rows_post thrs LU rm count (r0 # rs) (LU', rm', c')"
    "map (below thrs LU1) rs = map (below thrs LU) rs"
proof -
  note A = rm_rows_postD[OF p1, simplified]
  have cong: "slots LU1 r = slots LU r \<and> below thrs LU1 r = below thrs LU r \<and>
      remaining thrs LU1 r = remaining thrs LU r" if r: "r \<in> set rs" for r
  proof -
    from rs r have r': "0 \<le> r" "r < num_rows LU" "r \<noteq> r0" by simp_all
    have c: "chain LU1 r = chain LU r" using A(3) r' by simp
    have "\<forall>s \<in> set (slots LU r). val LU1 ! nat s = val LU ! nat s"
    proof
      fix s assume s: "s \<in> set (slots LU r)"
      from slots_rowidx[OF ok r'(1,2) s] have s0: "0 < s" "rowidx LU ! nat s = r"
        by simp_all
      have "s \<notin> set (below thrs LU r0)"
      proof
        assume "s \<in> set (below thrs LU r0)"
        with below_subset have "s \<in> set (slots LU r0)" by blast
        from slots_rowidx(3)[OF ok r0 this] s0(2) r'(3) show False by simp
      qed
      with A(9) s0(1) show "val LU1 ! nat s = val LU ! nat s" by simp
    qed
    from row_cong[OF c A(4) this] show ?thesis by simp
  qed
  show m2: "map (below thrs LU1) rs = map (below thrs LU) rs"
    using cong by (intro map_cong) simp_all
  note B = rm_rows_postD[OF p2, unfolded m2 A(4,5,6,7)]
  have cc: "concat (map (below thrs LU) (r0 # rs)) =
      below thrs LU r0 @ concat (map (below thrs LU) rs)" by simp
  have S: "\<forall>r \<in> set (r0 # rs). slots LU' r = remaining thrs LU r"
  proof
    fix r assume "r \<in> set (r0 # rs)"
    then consider (a) "r = r0" | (b) "r \<in> set rs" by auto
    then show "slots LU' r = remaining thrs LU r"
    proof cases
      case a
      have "r0 \<notin> set rs" using rs by blast
      with B(3) r0 have "chain LU' r0 = chain LU1 r0" by simp
      then have "slots LU' r0 = slots LU1 r0" by (simp add: slots_def)
      with A(2) a show ?thesis by simp
    next
      case b
      with B(2) cong show ?thesis by simp
    qed
  qed
  have C: "\<forall>r. 0 \<le> r \<longrightarrow> r < num_rows LU \<longrightarrow> r \<notin> set (r0 # rs) \<longrightarrow> chain LU' r = chain LU r"
  proof (intro allI impI)
    fix r assume r: "0 \<le> r" "r < num_rows LU" "r \<notin> set (r0 # rs)"
    then have "chain LU' r = chain LU1 r" using B(3) by simp
    moreover have "chain LU1 r = chain LU r" using A(3) r by simp
    ultimately show "chain LU' r = chain LU r" by simp
  qed
  have pos: "\<forall>s \<in> set (below thrs LU r0). 0 < s"
    using below_subset slots_rowidx(1)[OF ok r0] by blast
  have D: "\<forall>s \<in> set (below thrs LU r0 @ concat (map (below thrs LU) rs)).
        list LU' ! nat s = - 1 \<and> val LU' ! nat s = 0"
  proof
    fix s assume "s \<in> set (below thrs LU r0 @ concat (map (below thrs LU) rs))"
    then consider (a) "s \<in> set (concat (map (below thrs LU) rs))"
      | (b) "s \<in> set (below thrs LU r0)" "s \<notin> set (concat (map (below thrs LU) rs))"
      by auto
    then show "list LU' ! nat s = - 1 \<and> val LU' ! nat s = 0"
    proof cases
      case a
      with B(8) show ?thesis by blast
    next
      case b
      from pos b(1) have s0: "0 \<le> s" by force
      from A(8) b(1) have "list LU1 ! nat s = - 1" "val LU1 ! nat s = 0" by simp_all
      with B(9,10) s0 b(2) show ?thesis by simp
    qed
  qed
  have E: "\<forall>s. 0 \<le> s \<longrightarrow> s \<notin> set (below thrs LU r0 @ concat (map (below thrs LU) rs)) \<longrightarrow>
        val LU' ! nat s = val LU ! nat s"
    using B(9) A(9) by simp
  have F: "\<forall>s. 0 \<le> s \<longrightarrow> list LU ! nat s = - 1 \<longrightarrow> list LU' ! nat s = - 1"
    using A(10) B(10) by blast
  have G: "c' = count + int (length (below thrs LU r0 @ concat (map (below thrs LU) rs)))"
    using A(11) B(11) by simp
  have H: "take (nat c') rm' = take (nat count) rm @ below thrs LU r0 @ concat (map (below thrs LU) rs)"
    using A(13) B(13) by simp
  have L: "length rm' = length rm" using A(12) B(12) by simp
  show "rm_rows_post thrs LU rm count (r0 # rs) (LU', rm', c')"
    apply (rule rm_rows_postI)
    unfolding cc
    using B(1) S C B(4,5,6,7) D E F G L H by blast+
qed

lemma rm_thrs_rows_correct:
  assumes "factor_ok LU" and "0 \<le> r0" and "r0 \<le> num_rows LU" and "0 \<le> count"
    and "count + int (length (concat (map (\<lambda>r. butlast (slots LU r)) [r0..num_rows LU - 1])))
          \<le> int (length rm)"
  shows "\<exists>res. rm_thrs_rows thrs LU rm count r0 = Some res \<and>
           rm_rows_post thrs LU rm count [r0..num_rows LU - 1] res"
  using assms
proof (induction "nat (num_rows LU - r0)" arbitrary: r0 LU rm count rule: less_induct)
  case less
  let ?n = "num_rows LU"
  show ?case
  proof (cases "r0 < ?n")
    case False
    with less.prems(3) have e: "[r0..?n - 1] = []" by simp
    have "rm_thrs_rows thrs LU rm count r0 = Some (LU, rm, count)"
      using False by (subst rm_thrs_rows.simps) simp
    moreover have "rm_rows_post thrs LU rm count [] (LU, rm, count)"
      using less.prems(1) by (intro rm_rows_postI) simp_all
    ultimately show ?thesis unfolding e by blast
  next
    case True
    have up: "[r0..?n - 1] = r0 # [r0 + 1..?n - 1]" using True by (simp add: upto_rec1)
    have cap0: "count + int (length (butlast (slots LU r0))) \<le> int (length rm)"
      using less.prems(5) unfolding up by simp
    from rm_row_step[OF less.prems(1,2) True less.prems(4) cap0, of thrs]
    obtain res1 where
      w: "rm_thrs_walk thrs r0 LU rm count (row LU ! nat r0) (row LU ! nat r0)
        (list LU ! nat (row LU ! nat r0)) = Some res1"
      and rd1: "rd (row LU) r0 = Some (row LU ! nat r0)"
      and rd2: "rd (list LU) (row LU ! nat r0) = Some (list LU ! nat (row LU ! nat r0))"
      and p1: "rm_rows_post thrs LU rm count [r0] res1"
      by blast
    obtain LU1 rm1 c1 where res1: "res1 = (LU1, rm1, c1)" by (cases res1)
    note A = rm_rows_postD[OF p1[unfolded res1]]
    have unf: "rm_thrs_rows thrs LU rm count r0 = rm_thrs_rows thrs LU1 rm1 c1 (r0 + 1)"
      apply (subst rm_thrs_rows.simps)
      using True by (simp add: rd1 rd2 w res1)
    have rs: "\<forall>r \<in> set [r0 + 1..?n - 1]. 0 \<le> r \<and> r < ?n \<and> r \<noteq> r0"
      using less.prems(2) by simp
    have m1: "map (\<lambda>r. butlast (slots LU1 r)) [r0 + 1..?n - 1] =
        map (\<lambda>r. butlast (slots LU r)) [r0 + 1..?n - 1]"
    proof (intro map_cong refl)
      fix r assume "r \<in> set [r0 + 1..?n - 1]"
      with less.prems(2) have r: "0 \<le> r" "r < ?n" "r \<notin> set [r0]" by simp_all
      with A(3) have "chain LU1 r = chain LU r" by blast
      then show "butlast (slots LU1 r) = butlast (slots LU r)" by (simp add: slots_def)
    qed
    have bl: "length (below thrs LU r0) \<le> length (butlast (slots LU r0))"
      using below_length[of thrs LU r0] less.prems(1,2) True by blast
    have c1: "c1 = count + int (length (below thrs LU r0))" using A(11) by simp
    have cap1: "c1 + int (length (concat (map (\<lambda>r. butlast (slots LU1 r))
        [r0 + 1..num_rows LU1 - 1]))) \<le> int (length rm1)"
      using less.prems(5) bl unfolding up A(7) m1 c1 A(12) by simp
    have c1n: "0 \<le> c1" using c1 less.prems(4) by simp
    have ms: "nat (num_rows LU1 - (r0 + 1)) < nat (?n - r0)" using True A(7) by simp
    have r1: "0 \<le> r0 + 1" "r0 + 1 \<le> num_rows LU1" using less.prems(2) True A(7) by simp_all
    from less.hyps[OF ms A(1) r1 c1n cap1, unfolded A(7)]
    obtain res where r: "rm_thrs_rows thrs LU1 rm1 c1 (r0 + 1) = Some res"
      and p2: "rm_rows_post thrs LU1 rm1 c1 [r0 + 1..?n - 1] res"
      by blast
    obtain LU' rm' c' where res: "res = (LU', rm', c')" by (cases res)
    from rm_rows_post_compose(1)[OF less.prems(1,2) True rs p1[unfolded res1] p2[unfolded res]]
    have "rm_rows_post thrs LU rm count [r0..?n - 1] res" unfolding up res .
    with r unf show ?thesis by simp
  qed
qed

lemma concat_slots_distinct:
  assumes ok: "factor_ok LU" and rs: "distinct rs" "\<forall>r \<in> set rs. 0 \<le> r \<and> r < num_rows LU"
  shows "distinct (concat (map (slots LU) rs))"
  using rs
proof (induction rs)
  case Nil
  then show ?case by simp
next
  case (Cons r rs)
  from Cons.prems have r: "0 \<le> r" "r < num_rows LU" and nin: "r \<notin> set rs" by simp_all
  from row_split[OF ok r, of 0] obtain xs where x: "chain LU r = Some xs" "slots LU r = xs"
    "xs \<noteq> []" "path (list LU) (row LU ! nat r) xs 0" "sorted_wrt (<) (map (colv LU) xs)"
    "\<forall>s \<in> set xs. 0 < s \<and> s < nnz LU \<and> rowidx LU ! nat s = r" "distinct xs"
    "colv LU (last xs) = r"
    "below 0 LU r = filter (small 0 LU) (butlast xs)"
    "remaining 0 LU r = filter (\<lambda>s. \<not> small 0 LU s) (butlast xs) @ [last xs]"
    by blast
  have "set (slots LU r) \<inter> set (concat (map (slots LU) rs)) = {}"
  proof (rule ccontr)
    assume "set (slots LU r) \<inter> set (concat (map (slots LU) rs)) \<noteq> {}"
    then obtain s r' where s: "s \<in> set (slots LU r)" "r' \<in> set rs" "s \<in> set (slots LU r')"
      by auto
    from Cons.prems(2) s(2) have r': "0 \<le> r'" "r' < num_rows LU" by simp_all
    from slots_rowidx(3)[OF ok r s(1)] slots_rowidx(3)[OF ok r' s(3)] have "r = r'" by simp
    with nin s(2) show False by simp
  qed
  moreover have "distinct (concat (map (slots LU) rs))" using Cons by simp
  ultimately show ?case using x(2,7) by simp
qed

lemma budget:
  assumes ok: "factor_ok LU"
  shows "int (length (concat (map (\<lambda>r. butlast (slots LU r)) [0..num_rows LU - 1]))) \<le> nnz LU"
proof -
  let ?rs = "[0..num_rows LU - 1]"
  have rs: "distinct ?rs" "\<forall>r \<in> set ?rs. 0 \<le> r \<and> r < num_rows LU" by simp_all
  have d: "distinct (concat (map (slots LU) ?rs))" using ok rs by (rule concat_slots_distinct)
  have b: "\<forall>s \<in> set (concat (map (slots LU) ?rs)). 0 < s \<and> s < nnz LU"
  proof
    fix s assume "s \<in> set (concat (map (slots LU) ?rs))"
    then obtain r where r: "r \<in> set ?rs" "s \<in> set (slots LU r)" by auto
    then have "0 \<le> r" "r < num_rows LU" by simp_all
    from slots_rowidx(1,2)[OF ok this r(2)] show "0 < s \<and> s < nnz LU" by simp
  qed
  from distinct_range_length[OF d b] have l: "length (concat (map (slots LU) ?rs)) \<le> nat (nnz LU)" .
  have gen: "length (concat (map (\<lambda>r. butlast (slots LU r)) rs)) \<le> length (concat (map (slots LU) rs))"
    for rs
    by (induction rs) simp_all
  have "length (concat (map (\<lambda>r. butlast (slots LU r)) ?rs)) \<le> nat (nnz LU)"
    using gen[of ?rs] l by (rule le_trans)
  then have "int (length (concat (map (\<lambda>r. butlast (slots LU r)) ?rs))) \<le> int (nat (nnz LU))"
    by (simp only: of_nat_le_iff)
  moreover have "0 < nnz LU" using ok by (simp add: factor_ok_def pattern_ok_def sized_def)
  ultimately show ?thesis by simp
qed

lemma rm_thrs_total:
  assumes ok: "factor_ok LU" and cap: "nnz LU \<le> int (length rm_loc)"
  shows "\<exists>LU' rm' num_rm. magma_zmdynamicilu_rm_thrs thrs LU rm_loc = Some (0, num_rm, LU', rm') \<and>
      rm_rows_post thrs LU rm_loc 0 [0..num_rows LU - 1] (LU', rm', num_rm)"
proof -
  have n: "0 \<le> num_rows LU" using ok by (simp add: factor_ok_def pattern_ok_def sized_def)
  have c: "0 + int (length (concat (map (\<lambda>r. butlast (slots LU r)) [0..num_rows LU - 1])))
          \<le> int (length rm_loc)"
    using budget[OF ok] cap by simp
  from rm_thrs_rows_correct[OF ok _ n _ c, of thrs]
  obtain res where r: "rm_thrs_rows thrs LU rm_loc 0 0 = Some res"
    and p: "rm_rows_post thrs LU rm_loc 0 [0..num_rows LU - 1] res"
    by auto
  obtain LU' rm' c' where res: "res = (LU', rm', c')" by (cases res)
  from r p show ?thesis unfolding res by (simp add: magma_zmdynamicilu_rm_thrs_def)
qed

lemma concat_below_distinct:
  assumes ok: "factor_ok LU" and rs: "distinct rs" "\<forall>r \<in> set rs. 0 \<le> r \<and> r < num_rows LU"
  shows "distinct (concat (map (below thrs LU) rs))"
  using rs
proof (induction rs)
  case Nil
  then show ?case by simp
next
  case (Cons r rs)
  from Cons.prems have r: "0 \<le> r" "r < num_rows LU" and nin: "r \<notin> set rs" by simp_all
  from concat_slots_distinct[OF ok, of "[r]"] r have "distinct (slots LU r)" by simp
  then have d: "distinct (below thrs LU r)" by (simp add: below_def)
  have "set (below thrs LU r) \<inter> set (concat (map (below thrs LU) rs)) = {}"
  proof (rule ccontr)
    assume "set (below thrs LU r) \<inter> set (concat (map (below thrs LU) rs)) \<noteq> {}"
    then obtain s r' where s: "s \<in> set (below thrs LU r)" "r' \<in> set rs"
      "s \<in> set (below thrs LU r')"
      by auto
    from Cons.prems(2) s(2) have r': "0 \<le> r'" "r' < num_rows LU" by simp_all
    from s(1,3) below_subset have "s \<in> set (slots LU r)" "s \<in> set (slots LU r')" by blast+
    from slots_rowidx(3)[OF ok r this(1)] slots_rowidx(3)[OF ok r' this(2)] have "r = r'" by simp
    with nin s(2) show False by simp
  qed
  moreover have "distinct (concat (map (below thrs LU) rs))" using Cons by simp
  ultimately show ?case using d by simp
qed

lemma remaining_not_freed:
  assumes ok: "factor_ok LU" and r: "0 \<le> r" "r < num_rows LU"
    and s: "s \<in> set (remaining thrs LU r)"
    and rs: "\<forall>r' \<in> set rs. 0 \<le> r' \<and> r' < num_rows LU"
  shows "s \<notin> set (concat (map (below thrs LU) rs))"
proof
  assume "s \<in> set (concat (map (below thrs LU) rs))"
  then obtain r' where r': "r' \<in> set rs" "s \<in> set (below thrs LU r')" by auto
  from rs r'(1) have rr: "0 \<le> r'" "r' < num_rows LU" by simp_all
  from s have s1: "s \<in> set (slots LU r)" "\<not> (colv LU s \<noteq> r \<and> small thrs LU s)"
    by (simp_all add: remaining_def)
  from r'(2) have s2: "s \<in> set (slots LU r')" "colv LU s \<noteq> r' \<and> small thrs LU s"
    by (simp_all add: below_def)
  from slots_rowidx(3)[OF ok r s1(1)] slots_rowidx(3)[OF ok rr s2(1)] have "r = r'" by simp
  with s1(2) s2(2) show False by simp
qed

section \<open>The merge walk\<close>

lemma lookup_A_fold:
  assumes "\<forall>i \<in> set [i0..i1 - 1]. 0 \<le> i \<and> i < int (length (col A)) \<and> i < int (length (val A))"
  shows "lookup_A A c i0 i1 a =
    Some (fold (\<lambda>i a. if col A ! nat i = c then val A ! nat i else a) [i0..i1 - 1] a)"
  using assms
proof (induction "nat (i1 - i0)" arbitrary: i0 a rule: less_induct)
  case less
  show ?case
  proof (cases "i0 < i1")
    case False
    then have "[i0..i1 - 1] = []" by simp
    then show ?thesis using False by (subst lookup_A.simps) simp
  next
    case True
    then have up: "[i0..i1 - 1] = i0 # [i0 + 1..i1 - 1]" by (simp add: upto_rec1)
    from less.prems have b: "0 \<le> i0" "i0 < int (length (col A))" "i0 < int (length (val A))"
      and rest: "\<forall>i \<in> set [i0 + 1..i1 - 1]. 0 \<le> i \<and> i < int (length (col A)) \<and> i < int (length (val A))"
      unfolding up by simp_all
    have m: "nat (i1 - (i0 + 1)) < nat (i1 - i0)" using True by simp
    note IH = less.hyps[OF m rest]
    show ?thesis
      apply (subst lookup_A.simps)
      unfolding up using True b by (simp add: rd_def IH)
  qed
qed

lemma lookup_A_at:
  assumes "csr_row_ok A r"
  shows "rd (row A) r = Some (row A ! nat r)" "rd (row A) (r + 1) = Some (row A ! nat (r + 1))"
    "lookup_A A c (row A ! nat r) (row A ! nat (r + 1)) 0 = Some (A_at A r c)"
proof -
  from assms have a: "0 \<le> r" "r + 1 < int (length (row A))" "0 \<le> row A ! nat r"
    "row A ! nat (r + 1) \<le> int (length (col A))" "row A ! nat (r + 1) \<le> int (length (val A))"
    by (simp_all add: csr_row_ok_def)
  from a(1,2) show "rd (row A) r = Some (row A ! nat r)"
    "rd (row A) (r + 1) = Some (row A ! nat (r + 1))"
    by (simp_all add: rd_def)
  have "\<forall>i \<in> set [row A ! nat r..row A ! nat (r + 1) - 1].
      0 \<le> i \<and> i < int (length (col A)) \<and> i < int (length (val A))"
    using a(3,4,5) by simp
  from lookup_A_fold[OF this] show
    "lookup_A A c (row A ! nat r) (row A ! nat (r + 1)) 0 = Some (A_at A r c)"
    by (simp add: A_at_def)
qed

lemma path_next:
  assumes "path l x (x # xs) 0"
  shows "0 < x" "x < int (length l)" "l ! nat x = (if xs = [] then 0 else hd xs)"
    "xs \<noteq> [] \<Longrightarrow> path l (hd xs) (hd xs # tl xs) 0" "(l ! nat x \<noteq> 0) = (xs \<noteq> [])"
  using assms by (cases xs; simp)+

lemma merge_walk_mw:
  assumes "path (list LU) x (x # xs) 0" and "path (list LU) y (y # ys) 0"
    and "\<forall>s \<in> set (x # xs) \<union> set (y # ys). s < int (length (col LU)) \<and> s < int (length (val LU))"
  shows "merge_walk LU x y s = Some (mw LU (x # xs) (y # ys) s)"
  using assms
proof (induction LU "x # xs" "y # ys" s arbitrary: x xs y ys rule: mw.induct)
  case (1 LU x xs y ys s)
  note px = path_next[OF "1.prems"(1)] and py = path_next[OF "1.prems"(2)]
  from "1.prems"(3) have b: "x < int (length (col LU))" "x < int (length (val LU))"
    "y < int (length (col LU))" "y < int (length (val LU))"
    by simp_all
  have rds: "rd (col LU) x = Some (colv LU x)" "rd (col LU) y = Some (colv LU y)"
    "rd (val LU) x = Some (val LU ! nat x)" "rd (val LU) y = Some (val LU ! nat y)"
    "rd (list LU) x = Some (list LU ! nat x)" "rd (list LU) y = Some (list LU ! nat y)"
    using px(1,2) py(1,2) b by (simp_all add: rd_def colv_def)
  consider (eq) "colv LU x = colv LU y" | (lt) "colv LU x < colv LU y"
    | (gt) "colv LU y < colv LU x" by linarith
  then show ?case
  proof cases
    case eq
    have st: "merge_step LU x y s = Some (list LU ! nat x, list LU ! nat y,
        s + val LU ! nat x * val LU ! nat y, val LU ! nat x * val LU ! nat y)"
      using eq by (simp add: merge_step_def rds)
    show ?thesis
    proof (cases "xs \<noteq> [] \<and> ys \<noteq> []")
      case True
      then obtain x' xs' y' ys' where c: "xs = x' # xs'" "ys = y' # ys'"
        by (cases xs; cases ys) auto
      have nx: "list LU ! nat x = x'" "list LU ! nat y = y'" using px(3) py(3) c by simp_all
      have p1: "path (list LU) x' (x' # xs') 0" "path (list LU) y' (y' # ys') 0"
        using px(4) py(4) c by simp_all
      have b1: "\<forall>s \<in> set (x' # xs') \<union> set (y' # ys').
          s < int (length (col LU)) \<and> s < int (length (val LU))"
        using "1.prems"(3) c by simp
      from "1.hyps"(1)[OF eq True c p1 b1]
      have "merge_walk LU x' y' (s + val LU ! nat x * val LU ! nat y) =
          Some (mw LU (x' # xs') (y' # ys') (s + val LU ! nat x * val LU ! nat y))" .
      moreover have "x' \<noteq> 0" "y' \<noteq> 0" using p1 by simp_all
      ultimately show ?thesis
        apply (subst merge_walk.simps)
        using eq True by (simp add: st nx c)
    next
      case False
      then have "\<not> (list LU ! nat x \<noteq> 0 \<and> list LU ! nat y \<noteq> 0)" using px(5) py(5) by simp
      then show ?thesis
        apply (subst merge_walk.simps)
        using eq False by (auto simp: st)
    qed
  next
    case lt
    have st: "merge_step LU x y s = Some (list LU ! nat x, y, s, 0)"
      using lt by (simp add: merge_step_def rds)
    have ne: "colv LU x \<noteq> colv LU y" using lt by simp
    show ?thesis
    proof (cases "xs \<noteq> []")
      case True
      then obtain x' xs' where c: "xs = x' # xs'" by (cases xs) auto
      have nx: "list LU ! nat x = x'" using px(3) c by simp
      have p1: "path (list LU) x' (x' # xs') 0" using px(4) c by simp
      have b1: "\<forall>s \<in> set (x' # xs') \<union> set (y # ys).
          s < int (length (col LU)) \<and> s < int (length (val LU))"
        using "1.prems"(3) c by simp
      from "1.hyps"(2)[OF ne lt True c p1 "1.prems"(2) b1]
      have "merge_walk LU x' y s = Some (mw LU (x' # xs') (y # ys) s)" .
      moreover have "x' \<noteq> 0" "y \<noteq> 0" using p1 py(1) by simp_all
      ultimately show ?thesis
        apply (subst merge_walk.simps)
        using lt True by (simp add: st nx c)
    next
      case False
      then have "list LU ! nat x = 0" using px(3) by simp
      then show ?thesis
        apply (subst merge_walk.simps)
        using lt False by (simp add: st)
    qed
  next
    case gt
    have st: "merge_step LU x y s = Some (x, list LU ! nat y, s, 0)"
      using gt by (simp add: merge_step_def rds)
    have ne: "colv LU x \<noteq> colv LU y" "\<not> colv LU x < colv LU y" using gt by simp_all
    show ?thesis
    proof (cases "ys \<noteq> []")
      case True
      then obtain y' ys' where c: "ys = y' # ys'" by (cases ys) auto
      have ny: "list LU ! nat y = y'" using py(3) c by simp
      have p1: "path (list LU) y' (y' # ys') 0" using py(4) c by simp
      have b1: "\<forall>s \<in> set (x # xs) \<union> set (y' # ys').
          s < int (length (col LU)) \<and> s < int (length (val LU))"
        using "1.prems"(3) c by simp
      from "1.hyps"(3)[OF ne True c "1.prems"(1) p1 b1]
      have "merge_walk LU x y' s = Some (mw LU (x # xs) (y' # ys') s)" .
      moreover have "x \<noteq> 0" "y' \<noteq> 0" using p1 px(1) by simp_all
      ultimately show ?thesis
        apply (subst merge_walk.simps)
        using gt True by (simp add: st ny c)
    next
      case False
      then have "list LU ! nat y = 0" using py(3) by simp
      then show ?thesis
        apply (subst merge_walk.simps)
        using gt False by (simp add: st)
    qed
  qed
qed

lemma lentry_Cons:
  "lentry LU (y # ys) k = (if colv LU y = k then val LU ! nat y else lentry LU ys k)"
  by (simp add: lentry_def)

lemma lentry_absent: "\<forall>y \<in> set ys. colv LU y \<noteq> k \<Longrightarrow> lentry LU ys k = 0"
  by (induction ys) (simp_all add: lentry_Cons, simp add: lentry_def)

lemma ldot_Nil [simp]: "ldot LU [] ys = 0"
  by (simp add: ldot_def)

lemma ldot_Cons: "ldot LU (x # xs) ys = val LU ! nat x * lentry LU ys (colv LU x) + ldot LU xs ys"
  by (simp add: ldot_def)

lemma ldot_skip:
  "\<forall>x \<in> set xs. colv LU x \<noteq> colv LU y \<Longrightarrow> ldot LU xs (y # ys) = ldot LU xs ys"
  by (induction xs) (simp_all add: ldot_Cons lentry_Cons)

lemma ldot_empty: "ldot LU xs [] = 0"
  by (induction xs) (simp_all add: ldot_Cons lentry_def)

text \<open>On chains with increasing columns the walk adds up the products of all common columns.\<close>

lemma mw_sum:
  assumes "sorted_wrt (<) (map (colv LU) xs)" and "sorted_wrt (<) (map (colv LU) ys)"
    and "xs \<noteq> []" and "ys \<noteq> []"
  shows "fst (mw LU xs ys s) = s + ldot LU xs ys"
  using assms
proof (induction LU xs ys s rule: mw.induct)
  case (1 LU x xs y ys s)
  from "1.prems"(1) have sx: "sorted_wrt (<) (map (colv LU) xs)"
    and gx: "\<forall>a \<in> set xs. colv LU x < colv LU a" by simp_all
  from "1.prems"(2) have sy: "sorted_wrt (<) (map (colv LU) ys)"
    and gy: "\<forall>b \<in> set ys. colv LU y < colv LU b" by simp_all
  consider (eq) "colv LU x = colv LU y" | (lt) "colv LU x < colv LU y"
    | (gt) "colv LU y < colv LU x" by linarith
  then show ?case
  proof cases
    case eq
    have sk: "ldot LU xs (y # ys) = ldot LU xs ys"
      using gx eq by (intro ldot_skip) auto
    have hd: "ldot LU (x # xs) (y # ys) = val LU ! nat x * val LU ! nat y + ldot LU xs ys"
      using eq by (simp add: ldot_Cons lentry_Cons sk)
    show ?thesis
    proof (cases "xs \<noteq> [] \<and> ys \<noteq> []")
      case True
      from "1.IH"(1)[OF eq True sx sy] True
      have "fst (mw LU xs ys (s + val LU ! nat x * val LU ! nat y)) =
          s + val LU ! nat x * val LU ! nat y + ldot LU xs ys" by simp
      with eq True hd show ?thesis by simp
    next
      case False
      then have "ldot LU xs ys = 0" by (auto simp: ldot_empty)
      with eq False hd show ?thesis by auto
    qed
  next
    case lt
    have "\<forall>b \<in> set (y # ys). colv LU b \<noteq> colv LU x" using lt gy by auto
    then have z: "lentry LU (y # ys) (colv LU x) = 0" by (rule lentry_absent)
    have hd: "ldot LU (x # xs) (y # ys) = ldot LU xs (y # ys)" by (simp add: ldot_Cons z)
    have ne: "colv LU x \<noteq> colv LU y" using lt by simp
    show ?thesis
    proof (cases "xs \<noteq> []")
      case True
      from "1.IH"(2)[OF ne lt True sx "1.prems"(2) True] lt True hd show ?thesis by simp
    next
      case False
      with lt hd show ?thesis by simp
    qed
  next
    case gt
    have "\<forall>a \<in> set (x # xs). colv LU a \<noteq> colv LU y" using gt gx by auto
    then have hd: "ldot LU (x # xs) (y # ys) = ldot LU (x # xs) ys" by (rule ldot_skip)
    have ne: "colv LU x \<noteq> colv LU y" "\<not> colv LU x < colv LU y" using gt by simp_all
    show ?thesis
    proof (cases "ys \<noteq> []")
      case True
      from "1.IH"(3)[OF ne True "1.prems"(1) sy _ True] gt True hd show ?thesis by simp
    next
      case False
      with gt hd show ?thesis by (simp add: ldot_empty)
    qed
  qed
qed simp_all

lemma sorted_last_max:
  assumes "sorted_wrt (<) (map (colv LU) (y # ys))"
  shows "colv LU y \<le> colv LU (last (y # ys))" "ys \<noteq> [] \<Longrightarrow> colv LU y < colv LU (last (y # ys))"
proof -
  from assms have g: "\<forall>b \<in> set ys. colv LU y < colv LU b" by simp
  show "ys \<noteq> [] \<Longrightarrow> colv LU y < colv LU (last (y # ys))"
  proof -
    assume ne: "ys \<noteq> []"
    then have "last ys \<in> set ys" by simp
    with g ne show ?thesis by simp
  qed
  then show "colv LU y \<le> colv LU (last (y # ys))" by (cases "ys = []") simp_all
qed

text \<open>
  The walk of the sweep: row \<open>c\<close> ends with its diagonal (column \<open>c\<close>) and the other
  chain holds column \<open>c\<close>. The last pass matches the two entries of column \<open>c\<close>.
\<close>

lemma mw_sweep:
  assumes "sorted_wrt (<) (map (colv LU) xs)" and "sorted_wrt (<) (map (colv LU) ys)"
    and "ys \<noteq> []" and "colv LU (last ys) = c" and "c \<in> colv LU ` set xs"
  shows "mw LU xs ys s =
    (s + ldot LU (filter (\<lambda>s. colv LU s < c) xs) ys + lentry LU xs c * val LU ! nat (last ys),
     lentry LU xs c * val LU ! nat (last ys), last ys)"
  using assms
proof (induction LU xs ys s rule: mw.induct)
  case (1 LU x xs y ys s)
  from "1.prems"(1) have sx: "sorted_wrt (<) (map (colv LU) xs)"
    and gx: "\<forall>a \<in> set xs. colv LU x < colv LU a" by simp_all
  from "1.prems"(2) have sy: "sorted_wrt (<) (map (colv LU) ys)"
    and gy: "\<forall>b \<in> set ys. colv LU y < colv LU b" by simp_all
  note lm = sorted_last_max[OF "1.prems"(2), unfolded "1.prems"(4)]
  let ?F = "filter (\<lambda>s. colv LU s < c)"
  consider (eq) "colv LU x = colv LU y" | (lt) "colv LU x < colv LU y"
    | (gt) "colv LU y < colv LU x" by linarith
  then show ?case
  proof cases
    case eq
    show ?thesis
    proof (cases "ys = []")
      case True
      with "1.prems"(4) eq have xc: "colv LU x = c" by simp
      have "?F (x # xs) = []" using xc gx by (auto simp: filter_empty_conv)
      moreover have "lentry LU (x # xs) c = val LU ! nat x" using xc by (simp add: lentry_Cons)
      ultimately show ?thesis using eq True by simp
    next
      case False
      with lm(2) eq have xc: "colv LU x < c" by simp
      with "1.prems"(5) have cin: "c \<in> colv LU ` set xs" by auto
      then have xne: "xs \<noteq> []" by auto
      have la: "colv LU (last ys) = c" using "1.prems"(4) False by simp
      have c1: "xs \<noteq> [] \<and> ys \<noteq> []" using xne False by simp
      note IH = "1.IH"(1)[OF eq c1 sx sy False la cin]
      have "\<forall>a \<in> set (?F xs). colv LU a \<noteq> colv LU y" using gx eq by auto
      then have sk: "ldot LU (?F xs) (y # ys) = ldot LU (?F xs) ys" by (rule ldot_skip)
      have f: "ldot LU (?F (x # xs)) (y # ys) = val LU ! nat x * val LU ! nat y + ldot LU (?F xs) ys"
        using xc eq by (simp add: ldot_Cons lentry_Cons sk)
      have le: "lentry LU (x # xs) c = lentry LU xs c" using xc by (simp add: lentry_Cons)
      show ?thesis using eq c1 IH f le False by simp
    qed
  next
    case lt
    with lm(1) have xc: "colv LU x < c" by simp
    with "1.prems"(5) have cin: "c \<in> colv LU ` set xs" by auto
    then have xne: "xs \<noteq> []" by auto
    have ne: "colv LU x \<noteq> colv LU y" using lt by simp
    note IH = "1.IH"(2)[OF ne lt xne sx "1.prems"(2,3,4) cin]
    have "\<forall>b \<in> set (y # ys). colv LU b \<noteq> colv LU x" using lt gy by auto
    then have z: "lentry LU (y # ys) (colv LU x) = 0" by (rule lentry_absent)
    have f: "ldot LU (?F (x # xs)) (y # ys) = ldot LU (?F xs) (y # ys)"
      using xc by (simp add: ldot_Cons z)
    have le: "lentry LU (x # xs) c = lentry LU xs c" using xc by (simp add: lentry_Cons)
    show ?thesis using lt xne IH f le by simp
  next
    case gt
    have yne: "ys \<noteq> []"
    proof
      assume "ys = []"
      with "1.prems"(4) have "colv LU y = c" by simp
      with gt gx have "\<forall>a \<in> set (x # xs). c < colv LU a" by auto
      with "1.prems"(5) show False by auto
    qed
    have la: "colv LU (last ys) = c" using "1.prems"(4) yne by simp
    have ne: "colv LU x \<noteq> colv LU y" "\<not> colv LU x < colv LU y" using gt by simp_all
    note IH = "1.IH"(3)[OF ne yne "1.prems"(1) sy yne la "1.prems"(5)]
    have "\<forall>a \<in> set (?F (x # xs)). colv LU a \<noteq> colv LU y" using gt gx by auto
    then have f: "ldot LU (?F (x # xs)) (y # ys) = ldot LU (?F (x # xs)) ys" by (rule ldot_skip)
    show ?thesis using gt yne IH f by simp
  qed
qed simp_all

lemma row_chain:
  assumes ok: "factor_ok LU" and r: "0 \<le> r" "r < num_rows LU"
  obtains x xs where "slots LU r = x # xs" "rd (row LU) r = Some x"
    "path (list LU) x (x # xs) 0" "sorted_wrt (<) (map (colv LU) (x # xs))"
    "\<forall>s \<in> set (x # xs). 0 < s \<and> s < int (length (col LU)) \<and> s < int (length (val LU)) \<and>
       s < nnz LU \<and> rowidx LU ! nat s = r"
    "colv LU (last (x # xs)) = r"
proof -
  from ok have pok: "pattern_ok LU" by (simp add: factor_ok_def)
  note szd = sizedD[OF pattern_okD[OF pok]]
  from row_split[OF ok r, of 0] obtain ys where y: "chain LU r = Some ys" "slots LU r = ys"
    "ys \<noteq> []" "path (list LU) (row LU ! nat r) ys 0" "sorted_wrt (<) (map (colv LU) ys)"
    "\<forall>s \<in> set ys. 0 < s \<and> s < nnz LU \<and> rowidx LU ! nat s = r" "distinct ys"
    "colv LU (last ys) = r"
    "below 0 LU r = filter (small 0 LU) (butlast ys)"
    "remaining 0 LU r = filter (\<lambda>s. \<not> small 0 LU s) (butlast ys) @ [last ys]"
    by blast
  from y(3) obtain x xs where c: "ys = x # xs" by (cases ys) auto
  have hd: "row LU ! nat r = x" using y(4) c by simp
  have rd: "rd (row LU) r = Some x" using r szd(2) hd by (simp add: rd_def)
  have b: "\<forall>s \<in> set (x # xs). 0 < s \<and> s < int (length (col LU)) \<and> s < int (length (val LU)) \<and>
       s < nnz LU \<and> rowidx LU ! nat s = r"
    using y(6) szd(5,7) unfolding c by force
  show thesis
    using that[OF y(2)[unfolded c] rd y(4)[unfolded c hd] y(5)[unfolded c] b y(8)[unfolded c]] .
qed

lemma residual_elem_correct:
  assumes ok: "factor_ok LU" and a: "csr_row_ok A r"
    and e: "0 \<le> e" "e < int (length (rowidx LU_new))" "e < int (length (col LU_new))"
      "e < int (length (val LU_new))"
    and rc: "rowidx LU_new ! nat e = r" "col LU_new ! nat e = c"
    and r: "0 \<le> r" "r < num_rows LU" and c: "0 \<le> c" "c < num_rows LU"
  shows "residual_elem A LU LU_new e =
    Some (LU_new\<lparr>val := (val LU_new)[nat e := A_at A r c - dot_all LU r c]\<rparr>)"
proof -
  from row_chain[OF ok r] obtain x xs where x: "slots LU r = x # xs" "rd (row LU) r = Some x"
    "path (list LU) x (x # xs) 0" "sorted_wrt (<) (map (colv LU) (x # xs))"
    "\<forall>s \<in> set (x # xs). 0 < s \<and> s < int (length (col LU)) \<and> s < int (length (val LU)) \<and>
       s < nnz LU \<and> rowidx LU ! nat s = r"
    "colv LU (last (x # xs)) = r"
    by blast
  from row_chain[OF ok c] obtain y ys where y: "slots LU c = y # ys" "rd (row LU) c = Some y"
    "path (list LU) y (y # ys) 0" "sorted_wrt (<) (map (colv LU) (y # ys))"
    "\<forall>s \<in> set (y # ys). 0 < s \<and> s < int (length (col LU)) \<and> s < int (length (val LU)) \<and>
       s < nnz LU \<and> rowidx LU ! nat s = c"
    "colv LU (last (y # ys)) = c"
    by blast
  have b: "\<forall>s \<in> set (x # xs) \<union> set (y # ys). s < int (length (col LU)) \<and> s < int (length (val LU))"
    using x(5) y(5) by blast
  obtain S l j where m: "mw LU (x # xs) (y # ys) 0 = (S, l, j)"
    by (cases "mw LU (x # xs) (y # ys) 0")
  have W: "merge_walk LU x y 0 = Some (S, l, j)"
    using merge_walk_mw[OF x(3) y(3) b, of 0] by (simp only: m)
  from mw_sum[OF x(4) y(4), of 0] m have "S = ldot LU (x # xs) (y # ys)" by simp
  then have S: "S = dot_all LU r c"
    by (simp add: dot_all_def ldot_def entry_def x(1) y(1))
  note L = lookup_A_at(1,2)[OF a] lookup_A_at(3)[OF a, of c]
  have rds: "rd (rowidx LU_new) e = Some r" "rd (col LU_new) e = Some c"
    using e rc by (simp_all add: rd_def)
  have wrs: "wr (val LU_new) e (A_at A r c - S) = Some ((val LU_new)[nat e := A_at A r c - S])"
    using e by (simp add: wr_def)
  show ?thesis
    by (simp add: residual_elem_def rds L x(2) y(2) W wrs S[symmetric])
qed

lemma residual_range_correct:
  assumes ok: "factor_ok LU" and inp: "residual_inputs_ok A LU LN0"
    and same: "rowidx LN = rowidx LN0" "col LN = col LN0" "nnz LN = nnz LN0"
      "length (val LN) = length (val LN0)"
    and e: "0 \<le> e" "e \<le> nnz LN0"
  shows "\<exists>LN'. residual_range A LU LN e (nnz LN0) = Some LN' \<and>
      rowidx LN' = rowidx LN0 \<and> col LN' = col LN0 \<and> nnz LN' = nnz LN0 \<and>
      length (val LN') = length (val LN0) \<and>
      (\<forall>k. 0 \<le> k \<longrightarrow> k < e \<longrightarrow> val LN' ! nat k = val LN ! nat k) \<and>
      (\<forall>k. e \<le> k \<longrightarrow> k < nnz LN0 \<longrightarrow>
         val LN' ! nat k = A_at A (rowidx LN0 ! nat k) (col LN0 ! nat k)
                            - dot_all LU (rowidx LN0 ! nat k) (col LN0 ! nat k))"
  using same e
proof (induction "nat (nnz LN0 - e)" arbitrary: e LN rule: less_induct)
  case less
  show ?case
  proof (cases "e < nnz LN0")
    case False
    with less.prems show ?thesis by (subst residual_range.simps) simp
  next
    case True
    let ?r = "rowidx LN0 ! nat e" and ?c = "col LN0 ! nat e"
    let ?v = "A_at A ?r ?c - dot_all LU ?r ?c"
    let ?LN1 = "LN\<lparr>val := (val LN)[nat e := ?v]\<rparr>"
    from inp have len: "nnz LN0 \<le> int (length (rowidx LN0))" "nnz LN0 \<le> int (length (col LN0))"
      "nnz LN0 \<le> int (length (val LN0))"
      and all: "\<forall>e \<in> {0..<nnz LN0}.
         0 \<le> rowidx LN0 ! nat e \<and> rowidx LN0 ! nat e < num_rows LU \<and>
         0 \<le> col LN0 ! nat e \<and> col LN0 ! nat e < num_rows LU \<and>
         csr_row_ok A (rowidx LN0 ! nat e)"
      by (simp_all add: residual_inputs_ok_def)
    from all less.prems(5) True have h: "0 \<le> ?r" "?r < num_rows LU" "0 \<le> ?c" "?c < num_rows LU"
      "csr_row_ok A ?r" by simp_all
    have el: "e < int (length (rowidx LN))" "e < int (length (col LN))" "e < int (length (val LN))"
      using True len less.prems(1,2,4) by simp_all
    have rc: "rowidx LN ! nat e = ?r" "col LN ! nat e = ?c" using less.prems(1,2) by simp_all
    from residual_elem_correct[OF ok h(5) less.prems(5) el rc h(1,2,3,4)]
    have st: "residual_elem A LU LN e = Some ?LN1" .
    have unf: "residual_range A LU LN e (nnz LN0) = residual_range A LU ?LN1 (e + 1) (nnz LN0)"
      apply (subst residual_range.simps)
      using True by (simp add: st)
    have m: "nat (nnz LN0 - (e + 1)) < nat (nnz LN0 - e)" using True by simp
    have s1: "rowidx ?LN1 = rowidx LN0" "col ?LN1 = col LN0" "nnz ?LN1 = nnz LN0"
      "length (val ?LN1) = length (val LN0)"
      using less.prems(1-4) by simp_all
    have e1: "0 \<le> e + 1" "e + 1 \<le> nnz LN0" using less.prems(5) True by simp_all
    from less.hyps[OF m s1 e1] obtain LN' where
      r: "residual_range A LU ?LN1 (e + 1) (nnz LN0) = Some LN'"
      and k: "rowidx LN' = rowidx LN0" "col LN' = col LN0" "nnz LN' = nnz LN0"
        "length (val LN') = length (val LN0)"
      and lo: "\<forall>k. 0 \<le> k \<longrightarrow> k < e + 1 \<longrightarrow> val LN' ! nat k = val ?LN1 ! nat k"
      and hi: "\<forall>k. e + 1 \<le> k \<longrightarrow> k < nnz LN0 \<longrightarrow>
         val LN' ! nat k = A_at A (rowidx LN0 ! nat k) (col LN0 ! nat k)
                            - dot_all LU (rowidx LN0 ! nat k) (col LN0 ! nat k)"
      by blast
    have lo': "\<forall>k. 0 \<le> k \<longrightarrow> k < e \<longrightarrow> val LN' ! nat k = val LN ! nat k"
    proof (intro allI impI)
      fix k :: int assume k: "0 \<le> k" "k < e"
      then have "nat e \<noteq> nat k" by simp
      with lo k show "val LN' ! nat k = val LN ! nat k" by simp
    qed
    have at: "val LN' ! nat e = ?v" using lo less.prems(5) el(3) by simp
    have hi': "\<forall>k. e \<le> k \<longrightarrow> k < nnz LN0 \<longrightarrow>
         val LN' ! nat k = A_at A (rowidx LN0 ! nat k) (col LN0 ! nat k)
                            - dot_all LU (rowidx LN0 ! nat k) (col LN0 ! nat k)"
    proof (intro allI impI)
      fix k :: int assume k: "e \<le> k" "k < nnz LN0"
      show "val LN' ! nat k = A_at A (rowidx LN0 ! nat k) (col LN0 ! nat k)
                            - dot_all LU (rowidx LN0 ! nat k) (col LN0 ! nat k)"
      proof (cases "k = e")
        case True
        with at show ?thesis by simp
      next
        case False
        with k have "e + 1 \<le> k" by simp
        with hi k(2) show ?thesis by simp
      qed
    qed
    from r k lo' hi' show ?thesis unfolding unf by blast
  qed
qed

section \<open>One sweep: the loop over the slots\<close>

lemma mw_jold:
  assumes "xs \<noteq> []" and "ys \<noteq> []"
  shows "snd (snd (mw LU xs ys s)) \<in> set ys"
  using assms
proof (induction LU xs ys s rule: mw.induct)
  case (1 LU x xs y ys s)
  then show ?case by auto
qed simp_all

lemma chain_val: "chain (LU\<lparr>val := w\<rparr>) r = chain LU r"
  by (simp add: chain_def split: option.splits)

lemma colv_val: "colv (LU\<lparr>val := w\<rparr>) = colv LU"
  by (simp add: colv_def fun_eq_iff)

lemma val_frame:
  "slots (LU\<lparr>val := w\<rparr>) r = slots LU r"
  "cols (LU\<lparr>val := w\<rparr>) r = cols LU r"
  by (simp_all add: slots_def cols_def chain_val colv_val split: option.splits)

lemma factor_ok_val:
  assumes "length w = length (val LU)"
  shows "factor_ok (LU\<lparr>val := w\<rparr>) = factor_ok LU"
proof -
  have i: "I1 (LU\<lparr>val := w\<rparr>) = I1 LU" "I2 (LU\<lparr>val := w\<rparr>) = I2 LU"
    "I3 (LU\<lparr>val := w\<rparr>) = I3 LU" "I4 (LU\<lparr>val := w\<rparr>) = I4 LU"
    "I5 (LU\<lparr>val := w\<rparr>) = I5 LU"
    by (simp_all add: fun_eq_iff I1_def I2_def I3_def I4_def I5_def val_frame chain_val colv_val
        split: option.splits)
  have s: "sized (LU\<lparr>val := w\<rparr>) = sized LU" using assms by (simp add: sized_def)
  show ?thesis by (simp add: factor_ok_def pattern_ok_def i s)
qed

lemma sweep_inputs_ok_val:
  "sweep_inputs_ok A (LU\<lparr>val := w\<rparr>) = sweep_inputs_ok A LU"
  by (simp add: sweep_inputs_ok_def val_frame)

lemma sweep_elem_live:
  assumes ok: "factor_ok LU" and a: "csr_row_ok A r"
    and e: "0 \<le> e" "e < nnz LU" and le: "list LU ! nat e \<noteq> - 1"
    and rc: "rowidx LU ! nat e = r" "col LU ! nat e = c"
    and r: "0 \<le> r" "r < num_rows LU" and c: "0 \<le> c" "c < num_rows LU"
  shows "\<exists>v. sweep_elem A LU e = Some (LU\<lparr>val := (val LU)[nat e := v]\<rparr>) \<and>
     (e \<in> set (slots LU r) \<longrightarrow> v = sweep_value A LU e)"
proof -
  from ok have pok: "pattern_ok LU" by (simp add: factor_ok_def)
  note szd = sizedD[OF pattern_okD[OF pok]]
  from row_chain[OF ok r] obtain x xs where x: "slots LU r = x # xs" "rd (row LU) r = Some x"
    "path (list LU) x (x # xs) 0" "sorted_wrt (<) (map (colv LU) (x # xs))"
    "\<forall>s \<in> set (x # xs). 0 < s \<and> s < int (length (col LU)) \<and> s < int (length (val LU)) \<and>
       s < nnz LU \<and> rowidx LU ! nat s = r"
    "colv LU (last (x # xs)) = r"
    by blast
  from row_chain[OF ok c] obtain y ys where y: "slots LU c = y # ys" "rd (row LU) c = Some y"
    "path (list LU) y (y # ys) 0" "sorted_wrt (<) (map (colv LU) (y # ys))"
    "\<forall>s \<in> set (y # ys). 0 < s \<and> s < int (length (col LU)) \<and> s < int (length (val LU)) \<and>
       s < nnz LU \<and> rowidx LU ! nat s = c"
    "colv LU (last (y # ys)) = c"
    by blast
  have b: "\<forall>s \<in> set (x # xs) \<union> set (y # ys). s < int (length (col LU)) \<and> s < int (length (val LU))"
    using x(5) y(5) by blast
  obtain S l j where m: "mw LU (x # xs) (y # ys) 0 = (S, l, j)"
    by (cases "mw LU (x # xs) (y # ys) 0")
  have W: "merge_walk LU x y 0 = Some (S, l, j)"
    using merge_walk_mw[OF x(3) y(3) b, of 0] by (simp only: m)
  have "snd (snd (mw LU (x # xs) (y # ys) 0)) \<in> set (y # ys)" by (rule mw_jold) simp_all
  then have j: "j \<in> set (y # ys)" by (simp only: m snd_conv)
  with y(5) have "0 < j \<and> j < int (length (val LU))" by blast
  then have rj: "rd (val LU) j = Some (val LU ! nat j)" by (simp add: rd_def)
  note L = lookup_A_at(1,2)[OF a] lookup_A_at(3)[OF a, of c]
  have rds: "rd (list LU) e = Some (list LU ! nat e)" "rd (rowidx LU) e = Some r"
    "rd (col LU) e = Some c"
    using e rc szd by (simp_all add: rd_def)
  have wrs: "\<And>v. wr (val LU) e v = Some ((val LU)[nat e := v])"
    using e szd by (simp add: wr_def)
  let ?v = "if r = c then csqrt (A_at A r c - (S - l)) else (A_at A r c - (S - l)) / val LU ! nat j"
  have res: "sweep_elem A LU e = Some (LU\<lparr>val := (val LU)[nat e := ?v]\<rparr>)"
    by (simp add: sweep_elem_def rds le L x(2) y(2) W wrs rj)
  have "?v = sweep_value A LU e" if live: "e \<in> set (slots LU r)"
  proof -
    from live have "colv LU e \<in> colv LU ` set (x # xs)" unfolding x(1) by (rule imageI)
    then have cin: "c \<in> colv LU ` set (x # xs)" by (simp only: colv_def rc)
    have ne: "y # ys \<noteq> []" by simp
    let ?X = "ldot LU (filter (\<lambda>s. colv LU s < c) (x # xs)) (y # ys)"
    let ?Y = "lentry LU (x # xs) c * val LU ! nat (last (y # ys))"
    from mw_sweep[OF x(4) y(4) ne y(6) cin, of 0]
    have "(S, l, j) = (0 + ?X + ?Y, ?Y, last (y # ys))" by (simp only: m)
    then have "S = 0 + ?X + ?Y \<and> l = ?Y \<and> j = last (y # ys)" by (simp only: prod.inject)
    then have S: "S = 0 + ?X + ?Y" and l: "l = ?Y" and jl: "j = last (y # ys)"
      by (rule conjunct1, rule conjunct2[THEN conjunct1], rule conjunct2[THEN conjunct2])
    have d0: "S - l = ?X" unfolding S l by (simp only: add_0 add_diff_cancel_right')
    have "?X = dot_below LU r c c"
      by (simp only: dot_below_def ldot_def entry_def x(1) y(1))
    with d0 have d: "S - l = dot_below LU r c c" by simp
    have jl': "j = last (slots LU c)" unfolding jl y(1) ..
    show ?thesis unfolding d jl' by (simp add: sweep_value_def Let_def rc)
  qed
  with res show ?thesis by blast
qed

lemma sweep_elem_step:
  assumes ok: "factor_ok LU" and inp: "sweep_inputs_ok A LU"
    and e: "0 \<le> e" "e < nnz LU"
  shows "\<exists>v. sweep_elem A LU e = Some (LU\<lparr>val := (val LU)[nat e := v]\<rparr>) \<and>
     (0 < e \<longrightarrow> list LU ! nat e \<noteq> - 1 \<longrightarrow> v = sweep_value A LU e)"
proof (cases "list LU ! nat e = - 1")
  case True
  from ok have pok: "pattern_ok LU" by (simp add: factor_ok_def)
  note szd = sizedD[OF pattern_okD[OF pok]]
  have "rd (list LU) e = Some (- 1)" using e szd True by (simp add: rd_def)
  then have "sweep_elem A LU e = Some LU" by (simp add: sweep_elem_def)
  then have "sweep_elem A LU e = Some (LU\<lparr>val := (val LU)[nat e := val LU ! nat e]\<rparr>)"
    by simp
  with True show ?thesis by blast
next
  case False
  from inp e False have h: "0 \<le> rowidx LU ! nat e" "rowidx LU ! nat e < num_rows LU"
    "0 \<le> col LU ! nat e" "col LU ! nat e < num_rows LU" "csr_row_ok A (rowidx LU ! nat e)"
    "0 < e \<longrightarrow> e \<in> set (slots LU (rowidx LU ! nat e))"
    by (simp_all add: sweep_inputs_ok_def)
  from sweep_elem_live[OF ok h(5) e False refl refl h(1-4)] h(6)
  show ?thesis by blast
qed

lemma sweep_range_correct:
  assumes ok: "factor_ok LU" and inp: "sweep_inputs_ok A LU"
    and e: "0 \<le> e" "e \<le> n" "n \<le> nnz LU"
  shows "\<exists>w. sweep_range A LU e n = Some (LU\<lparr>val := w\<rparr>) \<and> length w = length (val LU) \<and>
      take (nat e) w = take (nat e) (val LU) \<and>
      (\<forall>k. e \<le> k \<longrightarrow> k < n \<longrightarrow> 0 < k \<longrightarrow> list LU ! nat k \<noteq> - 1 \<longrightarrow>
         w ! nat k = sweep_value A (LU\<lparr>val := take (nat k) w @ drop (nat k) (val LU)\<rparr>) k)"
  using assms
proof (induction "nat (n - e)" arbitrary: e LU rule: less_induct)
  case less
  note ok = less.prems(1) and inp = less.prems(2) and e = less.prems(3,4,5)
  show ?case
  proof (cases "e < n")
    case False
    then have "sweep_range A LU e n = Some (LU\<lparr>val := val LU\<rparr>)"
      by (subst sweep_range.simps) simp
    with False show ?thesis by fastforce
  next
    case True
    with e have en: "e < nnz LU" by simp
    from sweep_elem_step[OF ok inp e(1) en] obtain v where
      st: "sweep_elem A LU e = Some (LU\<lparr>val := (val LU)[nat e := v]\<rparr>)"
      and sv: "0 < e \<longrightarrow> list LU ! nat e \<noteq> - 1 \<longrightarrow> v = sweep_value A LU e"
      by blast
    let ?LU1 = "LU\<lparr>val := (val LU)[nat e := v]\<rparr>"
    from ok have pok: "pattern_ok LU" by (simp add: factor_ok_def)
    note szd = sizedD[OF pattern_okD[OF pok]]
    have el: "nat e < length (val LU)" using e(1) en szd by simp
    have unf: "sweep_range A LU e n = sweep_range A ?LU1 (e + 1) n"
      apply (subst sweep_range.simps)
      using True by (simp add: st)
    have ok1: "factor_ok ?LU1" by (simp add: factor_ok_val ok)
    have inp1: "sweep_inputs_ok A ?LU1" by (simp add: sweep_inputs_ok_val inp)
    have m: "nat (n - (e + 1)) < nat (n - e)" using True by simp
    have e1: "0 \<le> e + 1" "e + 1 \<le> n" "n \<le> nnz ?LU1" using e True by simp_all
    from less.hyps[OF m ok1 inp1 e1] obtain w where
      r: "sweep_range A ?LU1 (e + 1) n = Some (?LU1\<lparr>val := w\<rparr>)"
      and len: "length w = length (val ?LU1)"
      and tk: "take (nat (e + 1)) w = take (nat (e + 1)) (val ?LU1)"
      and hi: "\<forall>k. e + 1 \<le> k \<longrightarrow> k < n \<longrightarrow> 0 < k \<longrightarrow> list ?LU1 ! nat k \<noteq> - 1 \<longrightarrow>
         w ! nat k = sweep_value A (?LU1\<lparr>val := take (nat k) w @ drop (nat k) (val ?LU1)\<rparr>) k"
      by blast
    have r': "sweep_range A LU e n = Some (LU\<lparr>val := w\<rparr>)" unfolding unf r by simp
    have len': "length w = length (val LU)" using len by simp
    have ne: "nat (e + 1) = Suc (nat e)" using e(1) by simp
    have "take (nat e) w = take (nat e) (take (nat (e + 1)) w)" by (simp add: ne min_def)
    also have "\<dots> = take (nat e) (take (nat (e + 1)) ((val LU)[nat e := v]))"
      using tk by simp
    also have "\<dots> = take (nat e) (val LU)" by (simp add: ne min_def)
    finally have tk': "take (nat e) w = take (nat e) (val LU)" .
    have "w ! nat e = take (nat (e + 1)) w ! nat e" by (simp add: ne)
    also have "\<dots> = take (nat (e + 1)) ((val LU)[nat e := v]) ! nat e" using tk by simp
    also have "\<dots> = v" using el by (simp add: ne)
    finally have we: "w ! nat e = v" .
    have hi': "\<forall>k. e \<le> k \<longrightarrow> k < n \<longrightarrow> 0 < k \<longrightarrow> list LU ! nat k \<noteq> - 1 \<longrightarrow>
         w ! nat k = sweep_value A (LU\<lparr>val := take (nat k) w @ drop (nat k) (val LU)\<rparr>) k"
    proof (intro allI impI)
      fix k :: int assume k: "e \<le> k" "k < n" "0 < k" "list LU ! nat k \<noteq> - 1"
      show "w ! nat k = sweep_value A (LU\<lparr>val := take (nat k) w @ drop (nat k) (val LU)\<rparr>) k"
      proof (cases "k = e")
        case True
        have "take (nat e) w @ drop (nat e) (val LU) = val LU"
          unfolding tk' by (rule append_take_drop_id)
        then have "LU\<lparr>val := take (nat e) w @ drop (nat e) (val LU)\<rparr> = LU" by simp
        with sv k(3,4) we True show ?thesis by simp
      next
        case False
        with k have k1: "e + 1 \<le> k" by simp
        then have "nat e < nat k" using e(1) by simp
        then have dr: "drop (nat k) ((val LU)[nat e := v]) = drop (nat k) (val LU)"
          by (rule drop_update_cancel)
        from hi k1 k(2,3,4)
        have "w ! nat k = sweep_value A (?LU1\<lparr>val := take (nat k) w @ drop (nat k) (val ?LU1)\<rparr>) k"
          by simp
        then show ?thesis by (simp add: dr)
      qed
    qed
    from r' len' tk' hi' show ?thesis by blast
  qed
qed

section \<open>The loops of the candidate discovery\<close>

lemma zero_fill_correct:
  assumes "length xs = nat n" and "0 \<le> i" and "i \<le> n"
  shows "zero_fill xs i n = Some (take (nat i) xs @ replicate (nat (n - i)) 0)"
  using assms
proof (induction "nat (n - i)" arbitrary: i xs rule: less_induct)
  case less
  show ?case
  proof (cases "i < n")
    case False
    with less.prems have "i = n" by simp
    with less.prems(1) show ?thesis by (subst zero_fill.simps) simp
  next
    case True
    have w: "wr xs i 0 = Some (xs[nat i := 0])" using True less.prems by (simp add: wr_def)
    have m: "nat (n - (i + 1)) < nat (n - i)" using True by simp
    have l: "length (xs[nat i := 0]) = nat n" using less.prems(1) by simp
    have i1: "0 \<le> i + 1" "i + 1 \<le> n" using True less.prems(2) by simp_all
    have ni: "nat (i + 1) = Suc (nat i)" using less.prems(2) by simp
    have il: "nat i < length xs" using True less.prems by simp
    have rp: "replicate (nat (n - i)) (0::int) = 0 # replicate (nat (n - (i + 1))) 0"
    proof -
      from True have "nat (n - i) = Suc (nat (n - (i + 1)))" by simp
      then show ?thesis by simp
    qed
    have "zero_fill xs i n = zero_fill (xs[nat i := 0]) (i + 1) n"
      apply (subst zero_fill.simps)
      using True by (simp add: w)
    also have "\<dots> = Some (take (nat (i + 1)) (xs[nat i := 0]) @ replicate (nat (n - (i + 1))) 0)"
      by (rule less.hyps[OF m l i1])
    also have "take (nat (i + 1)) (xs[nat i := 0]) = take (nat i) xs @ [0]"
      unfolding ni using il by (simp add: take_Suc_conv_app_nth)
    finally show ?thesis by (simp add: rp)
  qed
qed

lemma check_scan_correct:
  assumes "path (list LU) s zs 0" and "\<forall>z \<in> set zs. z < int (length (col LU))"
  shows "check_scan LU ce s ex = Some (if ce \<in> colv LU ` set zs then 1 else ex)"
  using assms
proof (induction zs arbitrary: s ex)
  case Nil
  then show ?case by (subst check_scan.simps) simp
next
  case (Cons z zs)
  from Cons.prems(1) have z: "s = z" "0 < z" "z < int (length (list LU))"
    "path (list LU) (list LU ! nat z) zs 0" by simp_all
  from Cons.prems(2) have b: "z < int (length (col LU))" "\<forall>z \<in> set zs. z < int (length (col LU))"
    by simp_all
  have rds: "rd (col LU) z = Some (colv LU z)" "rd (list LU) z = Some (list LU ! nat z)"
    using z b by (simp_all add: rd_def colv_def)
  have "check_scan LU ce z ex
      = check_scan LU ce (list LU ! nat z) (if colv LU z = ce then 1 else ex)"
    apply (subst check_scan.simps)
    using z(2) by (simp add: rds)
  also have "\<dots> = Some (if ce \<in> colv LU ` set zs then 1 else (if colv LU z = ce then 1 else ex))"
    by (rule Cons.IH[OF z(4) b(2)])
  finally show ?case unfolding z(1) by auto
qed

lemma check_find_correct:
  assumes "path (list LU) s zs 0" and "\<forall>z \<in> set zs. z < int (length (col LU))"
  shows "check_find LU ce s = Some (if ce \<in> colv LU ` set zs then 1 else 0)"
  using assms
proof (induction zs arbitrary: s)
  case Nil
  then show ?case by (subst check_find.simps) simp
next
  case (Cons z zs)
  from Cons.prems(1) have z: "s = z" "0 < z" "z < int (length (list LU))"
    "path (list LU) (list LU ! nat z) zs 0" by simp_all
  from Cons.prems(2) have b: "z < int (length (col LU))" "\<forall>z \<in> set zs. z < int (length (col LU))"
    by simp_all
  have rds: "rd (col LU) z = Some (colv LU z)" "rd (list LU) z = Some (list LU ! nat z)"
    using z b by (simp_all add: rd_def colv_def)
  show ?case
  proof (cases "colv LU z = ce")
    case True
    have "check_find LU ce z = Some 1"
      apply (subst check_find.simps)
      using z(2) True by (simp add: rds)
    with True show ?thesis unfolding z(1) by auto
  next
    case False
    have "check_find LU ce z = check_find LU ce (list LU ! nat z)"
      apply (subst check_find.simps)
      using z(2) False by (simp add: rds)
    also have "\<dots> = Some (if ce \<in> colv LU ` set zs then 1 else 0)"
      by (rule Cons.IH[OF z(4) b(2)])
    finally show ?thesis unfolding z(1) using False by auto
  qed
qed

lemma blit_Nil: "blit xs k [] = xs"
  by (simp add: blit_def)

lemma blit_one: "k < length xs \<Longrightarrow> xs[k := v] = blit xs k [v]"
  by (simp add: blit_def upd_conv_take_nth_drop)

lemma blit_append:
  assumes "k \<le> length xs"
  shows "blit (blit xs k ps) (k + length ps) qs = blit xs k (ps @ qs)"
proof -
  have t: "take (k + length ps) (take k xs @ ps @ drop (k + length ps) xs) = take k xs @ ps"
    using assms by (simp add: min_def)
  have d: "drop (k + length ps + length qs) (take k xs @ ps @ drop (k + length ps) xs)
      = drop (k + length ps + length qs) xs"
    using assms by (simp add: min_def add.commute add.left_commute)
  show ?thesis unfolding blit_def t d by (simp add: add.assoc)
qed

lemma length_blit: "k + length ps \<le> length xs \<Longrightarrow> length (blit xs k ps) = length xs"
  by (simp add: blit_def)

lemma blit_all: "length ps = length xs \<Longrightarrow> blit xs 0 ps = ps"
  by (simp add: blit_def)

lemma put_Nil: "put LN k [] = LN"
  by (simp add: put_def blit_Nil)

lemma put_append:
  assumes "k \<le> length (rowidx LN)" "k \<le> length (col LN)" "k \<le> length (val LN)"
  shows "put (put LN k ps) (k + length ps) qs = put LN k (ps @ qs)"
  using blit_append[OF assms(1), of "map fst ps" "map fst qs"]
    blit_append[OF assms(2), of "map snd ps" "map snd qs"]
    blit_append[OF assms(3), of "map (\<lambda>p. 0) ps" "map (\<lambda>p. 0) qs"]
  by (simp add: put_def)

lemma put_length:
  assumes "k + length ps \<le> length (rowidx LN)" "k + length ps \<le> length (col LN)"
    "k + length ps \<le> length (val LN)"
  shows "length (rowidx (put LN k ps)) = length (rowidx LN)"
    "length (col (put LN k ps)) = length (col LN)"
    "length (val (put LN k ps)) = length (val LN)"
  using assms by (simp_all add: put_def length_blit)

lemma bump_zero: "bump xs k 0 = xs"
  by (simp add: bump_def)

lemma bump_bump: "nat k < length xs \<Longrightarrow> bump (bump xs k a) k b = bump xs k (a + b)"
  by (simp add: bump_def add.assoc)

lemma length_bump: "length (bump xs k n) = length xs"
  by (simp add: bump_def)

lemma sorted_le_last:
  assumes "sorted_wrt (<) (map f xs)" and "s \<in> set xs"
  shows "(f s :: int) \<le> f (last xs)"
  using assms
proof (induction xs)
  case Nil
  then show ?case by simp
next
  case (Cons x xs)
  show ?case
  proof (cases "xs = []")
    case True
    with Cons.prems show ?thesis by simp
  next
    case False
    then have l: "last xs \<in> set xs" by simp
    from Cons.prems(1) have g: "\<forall>a \<in> set xs. f x < f a" and s: "sorted_wrt (<) (map f xs)"
      by simp_all
    show ?thesis
    proof (cases "s = x")
      case True
      with g l False show ?thesis by fastforce
    next
      case ne: False
      with Cons.prems(2) have "s \<in> set xs" by simp
      from Cons.IH[OF s this] False show ?thesis by simp
    qed
  qed
qed

lemma cols_slots: "cols LU r = map (colv LU) (slots LU r)"
  by (simp add: cols_def slots_def split: option.splits)

lemma pairs_of_Nil: "pairs_of LU c1 [] = []"
  by (simp add: pairs_of_def)

lemma pairs_of_Cons:
  "pairs_of LU c1 (y # ys) =
     (if wanted LU c1 y then [(c1, colv LU y)] else []) @ pairs_of LU c1 ys"
  by (simp add: pairs_of_def)

text \<open>What the loops know about a slot of a row, and about a slot that is not the diagonal.\<close>

lemma slot_reads:
  assumes ok: "factor_ok LU" and r: "0 \<le> r" "r < num_rows LU" and s: "s \<in> set (slots LU r)"
  shows "rd (col LU) s = Some (colv LU s)" "rd (list LU) s = Some (list LU ! nat s)"
    "colv LU s \<le> r"
proof -
  from ok have pok: "pattern_ok LU" by (simp add: factor_ok_def)
  note szd = sizedD[OF pattern_okD[OF pok]]
  from row_chain[OF ok r] obtain x xs where x: "slots LU r = x # xs" "rd (row LU) r = Some x"
    "path (list LU) x (x # xs) 0" "sorted_wrt (<) (map (colv LU) (x # xs))"
    "\<forall>s \<in> set (x # xs). 0 < s \<and> s < int (length (col LU)) \<and> s < int (length (val LU)) \<and>
       s < nnz LU \<and> rowidx LU ! nat s = r"
    "colv LU (last (x # xs)) = r"
    by blast
  from s have s': "s \<in> set (x # xs)" by (simp only: x(1))
  with x(5) have b: "0 < s" "s < int (length (col LU))" "s < nnz LU" by blast+
  from b szd show "rd (col LU) s = Some (colv LU s)" "rd (list LU) s = Some (list LU ! nat s)"
    by (simp_all add: rd_def colv_def)
  from sorted_le_last[OF x(4) s'] x(6) show "colv LU s \<le> r" by simp
qed

lemma off_diagonal_row:
  assumes ok: "factor_ok LU" and inp: "discovery_inputs_ok LU"
    and r: "0 \<le> r" "r < num_rows LU" and s: "s \<in> set (slots LU r)" and nd: "colv LU s \<noteq> r"
  obtains z zs where "0 \<le> colv LU s" "colv LU s < r"
    "rd (row LU) (colv LU s) = Some z"
    "rd (row LU) (colv LU s + 1) = Some (row LU ! nat (colv LU s + 1))"
    "path (list LU) z (z # zs) 0" "\<forall>u \<in> set (z # zs). u < int (length (col LU))"
    "slots LU (colv LU s) = z # zs"
proof -
  from inp r s have c0: "0 \<le> colv LU s" by (simp add: discovery_inputs_ok_def)
  from inp have rl: "num_rows LU < int (length (row LU))" by (simp add: discovery_inputs_ok_def)
  from slot_reads(3)[OF ok r s] nd have c1: "colv LU s < r" by simp
  with r have c2: "colv LU s < num_rows LU" by simp
  from row_chain[OF ok c0 c2] obtain z zs where z: "slots LU (colv LU s) = z # zs"
    "rd (row LU) (colv LU s) = Some z"
    "path (list LU) z (z # zs) 0" "sorted_wrt (<) (map (colv LU) (z # zs))"
    "\<forall>u \<in> set (z # zs). 0 < u \<and> u < int (length (col LU)) \<and> u < int (length (val LU)) \<and>
       u < nnz LU \<and> rowidx LU ! nat u = colv LU s"
    "colv LU (last (z # zs)) = colv LU s"
    by blast
  have e: "rd (row LU) (colv LU s + 1) = Some (row LU ! nat (colv LU s + 1))"
    using c0 c2 rl by (simp add: rd_def)
  from z(5) have b: "\<forall>u \<in> set (z # zs). u < int (length (col LU))" by blast
  from c0 c1 z(2) e z(3) b z(1) show thesis by (rule that)
qed

lemma exists_iff_not_wanted:
  assumes "slots LU c1 = zs" and "colv LU y < c1"
  shows "(colv LU y \<in> colv LU ` set zs) = (\<not> wanted LU c1 y)"
  using assms by (simp add: wanted_def cols_slots)

lemma count_lcol2_correct:
  assumes ok: "factor_ok LU" and inp: "discovery_inputs_ok LU"
    and r: "0 \<le> r" "r < num_rows LU"
    and s1: "s1 \<in> set (slots LU r)" "colv LU s1 \<noteq> r"
    and p: "path (list LU) s2 ys 0" and sub: "set ys \<subseteq> set (slots LU r)"
    and n: "r + 1 < int (length numadd)"
  shows "count_lcol2 LU r s1 s2 numadd
    = Some (bump numadd (r + 1) (length (pairs_of LU (colv LU s1) ys)))"
  using p sub n
proof (induction ys arbitrary: s2 numadd)
  case Nil
  then show ?case by (subst count_lcol2.simps) (simp add: pairs_of_Nil bump_zero)
next
  case (Cons y ys)
  from Cons.prems(1) have y: "s2 = y" "0 < y" "path (list LU) (list LU ! nat y) ys 0"
    by simp_all
  from Cons.prems(2) have yin: "y \<in> set (slots LU r)" and sub': "set ys \<subseteq> set (slots LU r)"
    by simp_all
  note r1 = slot_reads(1)[OF ok r s1(1)]
  note ry = slot_reads(1,2)[OF ok r yin]
  let ?c1 = "colv LU s1"
  show ?case
  proof (cases "colv LU y \<ge> ?c1")
    case True
    then have nw: "\<not> wanted LU ?c1 y" by (simp add: wanted_def)
    have "count_lcol2 LU r s1 y numadd = count_lcol2 LU r s1 (list LU ! nat y) numadd"
      apply (subst count_lcol2.simps)
      using y(2) True by (simp add: r1 ry)
    also have "\<dots> = Some (bump numadd (r + 1) (length (pairs_of LU ?c1 ys)))"
      by (rule Cons.IH[OF y(3) sub' Cons.prems(3)])
    finally show ?thesis unfolding y(1) by (simp add: pairs_of_Cons nw)
  next
    case False
    then have lt: "colv LU y < ?c1" by simp
    from off_diagonal_row[OF ok inp r s1] obtain z zs where z: "0 \<le> ?c1" "?c1 < r"
      "rd (row LU) ?c1 = Some z"
      "rd (row LU) (?c1 + 1) = Some (row LU ! nat (?c1 + 1))"
      "path (list LU) z (z # zs) 0" "\<forall>u \<in> set (z # zs). u < int (length (col LU))"
      "slots LU ?c1 = z # zs"
      by blast
    have mx: "max ?c1 (colv LU y) = ?c1" "min ?c1 (colv LU y) = colv LU y" using lt by simp_all
    have cs: "check_scan LU (colv LU y) z 0 = Some (if wanted LU ?c1 y then 0 else 1)"
      unfolding check_scan_correct[OF z(5,6)] exists_iff_not_wanted[OF z(7) lt] by simp
    let ?na = "if wanted LU ?c1 y then bump numadd (r + 1) 1 else numadd"
    have rn: "rd numadd (r + 1) = Some (numadd ! nat (r + 1))"
      "wr numadd (r + 1) (numadd ! nat (r + 1) + 1) = Some (bump numadd (r + 1) 1)"
      using r(1) Cons.prems(3) by (simp_all add: rd_def wr_def bump_def)
    have st: "count_lcol2 LU r s1 y numadd = count_lcol2 LU r s1 (list LU ! nat y) ?na"
      apply (subst count_lcol2.simps)
      using y(2) lt by (simp add: r1 ry mx z(3,4) cs rn)
    have ln: "r + 1 < int (length ?na)" using Cons.prems(3) by (simp add: length_bump)
    have nl: "nat (r + 1) < length numadd" using r(1) Cons.prems(3) by simp
    have "count_lcol2 LU r s1 (list LU ! nat y) ?na
        = Some (bump ?na (r + 1) (length (pairs_of LU ?c1 ys)))"
      by (rule Cons.IH[OF y(3) sub' ln])
    also have "bump ?na (r + 1) (length (pairs_of LU ?c1 ys))
        = bump numadd (r + 1) (length (pairs_of LU ?c1 (y # ys)))"
      by (simp add: pairs_of_Cons bump_bump[OF nl])
    finally show ?thesis unfolding y(1) st .
  qed
qed

lemma row_pairs_from_Nil: "row_pairs_from LU r [] zs = []"
  by (simp add: row_pairs_from_def)

lemma row_pairs_from_Cons:
  "row_pairs_from LU r (x # xs) zs =
     (if colv LU x = r then [] else pairs_of LU (colv LU x) zs) @ row_pairs_from LU r xs zs"
  by (simp add: row_pairs_from_def)

lemma count_lcol1_correct:
  assumes ok: "factor_ok LU" and inp: "discovery_inputs_ok LU"
    and r: "0 \<le> r" "r < num_rows LU"
    and st: "path (list LU) start (slots LU r) 0"
    and p: "path (list LU) s1 xs 0" and sub: "set xs \<subseteq> set (slots LU r)"
    and n: "r + 1 < int (length numadd)"
  shows "count_lcol1 LU r start s1 numadd
    = Some (bump numadd (r + 1) (length (row_pairs_from LU r xs (slots LU r))))"
  using p sub n
proof (induction xs arbitrary: s1 numadd)
  case Nil
  then show ?case by (subst count_lcol1.simps) (simp add: row_pairs_from_Nil bump_zero)
next
  case (Cons x xs)
  from Cons.prems(1) have x: "s1 = x" "0 < x" "path (list LU) (list LU ! nat x) xs 0"
    by simp_all
  from Cons.prems(2) have xin: "x \<in> set (slots LU r)" and sub': "set xs \<subseteq> set (slots LU r)"
    by simp_all
  note rx = slot_reads(1,2)[OF ok r xin]
  have nl: "nat (r + 1) < length numadd" using r(1) Cons.prems(3) by simp
  show ?case
  proof (cases "colv LU x = r")
    case True
    have "count_lcol1 LU r start x numadd = count_lcol1 LU r start (list LU ! nat x) numadd"
      apply (subst count_lcol1.simps)
      using x(2) True by (simp add: rx)
    also have "\<dots> = Some (bump numadd (r + 1) (length (row_pairs_from LU r xs (slots LU r))))"
      by (rule Cons.IH[OF x(3) sub' Cons.prems(3)])
    finally show ?thesis unfolding x(1) by (simp add: row_pairs_from_Cons True)
  next
    case False
    let ?na = "bump numadd (r + 1) (length (pairs_of LU (colv LU x) (slots LU r)))"
    note c2 = count_lcol2_correct[OF ok inp r xin False st subset_refl Cons.prems(3)]
    have ln: "r + 1 < int (length ?na)" using Cons.prems(3) by (simp add: length_bump)
    have "count_lcol1 LU r start x numadd = count_lcol1 LU r start (list LU ! nat x) ?na"
      apply (subst count_lcol1.simps)
      using x(2) False by (simp add: rx c2)
    also have "\<dots> = Some (bump ?na (r + 1) (length (row_pairs_from LU r xs (slots LU r))))"
      by (rule Cons.IH[OF x(3) sub' ln])
    also have "bump ?na (r + 1) (length (row_pairs_from LU r xs (slots LU r)))
        = bump numadd (r + 1) (length (row_pairs_from LU r (x # xs) (slots LU r)))"
      by (simp add: row_pairs_from_Cons False bump_bump[OF nl])
    finally show ?thesis unfolding x(1) .
  qed
qed

lemma row_start:
  assumes ok: "factor_ok LU" and inp: "discovery_inputs_ok LU"
    and r: "0 \<le> r" "r < num_rows LU"
  obtains start where "rd (row LU) r = Some start"
    "rd (row LU) (r + 1) = Some (row LU ! nat (r + 1))"
    "path (list LU) start (slots LU r) 0"
proof -
  from inp have rl: "num_rows LU < int (length (row LU))" by (simp add: discovery_inputs_ok_def)
  from row_chain[OF ok r] obtain x xs where x: "slots LU r = x # xs" "rd (row LU) r = Some x"
    "path (list LU) x (x # xs) 0" "sorted_wrt (<) (map (colv LU) (x # xs))"
    "\<forall>s \<in> set (x # xs). 0 < s \<and> s < int (length (col LU)) \<and> s < int (length (val LU)) \<and>
       s < nnz LU \<and> rowidx LU ! nat s = r"
    "colv LU (last (x # xs)) = r"
    by blast
  have e: "rd (row LU) (r + 1) = Some (row LU ! nat (r + 1))" using r rl by (simp add: rd_def)
  from x(3) have "path (list LU) x (slots LU r) 0" by (simp only: x(1))
  with x(2) e show thesis by (rule that)
qed

lemma count_rows_correct:
  assumes ok: "factor_ok LU" and inp: "discovery_inputs_ok LU"
    and r0: "0 \<le> r0" "r0 \<le> num_rows LU"
    and len: "length numadd = nat (num_rows LU + 1)"
  shows "\<exists>na. count_rows LU r0 numadd = Some na \<and> length na = length numadd \<and>
     (\<forall>i. 0 \<le> i \<longrightarrow> i \<le> r0 \<longrightarrow> na ! nat i = numadd ! nat i) \<and>
     (\<forall>r. r0 \<le> r \<longrightarrow> r < num_rows LU \<longrightarrow>
        na ! nat (r + 1) = numadd ! nat (r + 1) + int (length (row_pairs LU r)))"
  using r0 len
proof (induction "nat (num_rows LU - r0)" arbitrary: r0 numadd rule: less_induct)
  case less
  note r0 = less.prems(1,2) and len = less.prems(3)
  show ?case
  proof (cases "r0 < num_rows LU")
    case False
    then have "count_rows LU r0 numadd = Some numadd" by (subst count_rows.simps) simp
    with False show ?thesis by simp
  next
    case True
    from row_start[OF ok inp r0(1) True] obtain start where s: "rd (row LU) r0 = Some start"
      "rd (row LU) (r0 + 1) = Some (row LU ! nat (r0 + 1))"
      "path (list LU) start (slots LU r0) 0"
      by blast
    have n: "r0 + 1 < int (length numadd)" using True r0(1) len by simp
    let ?na = "bump numadd (r0 + 1) (length (row_pairs LU r0))"
    have c1: "count_lcol1 LU r0 start start numadd = Some ?na"
      unfolding row_pairs_def
      by (rule count_lcol1_correct[OF ok inp r0(1) True s(3) s(3) subset_refl n])
    have unf: "count_rows LU r0 numadd = count_rows LU (r0 + 1) ?na"
      apply (subst count_rows.simps)
      using True by (simp add: s(1,2) c1)
    have m: "nat (num_rows LU - (r0 + 1)) < nat (num_rows LU - r0)" using True by simp
    have r1: "0 \<le> r0 + 1" "r0 + 1 \<le> num_rows LU" using r0(1) True by simp_all
    have l1: "length ?na = nat (num_rows LU + 1)" using len by (simp add: length_bump)
    from less.hyps[OF m r1 l1] obtain na where
      res: "count_rows LU (r0 + 1) ?na = Some na" and ln: "length na = length ?na"
      and lo: "\<forall>i. 0 \<le> i \<longrightarrow> i \<le> r0 + 1 \<longrightarrow> na ! nat i = ?na ! nat i"
      and hi: "\<forall>r. r0 + 1 \<le> r \<longrightarrow> r < num_rows LU \<longrightarrow>
        na ! nat (r + 1) = ?na ! nat (r + 1) + int (length (row_pairs LU r))"
      by blast
    have nl: "nat (r0 + 1) < length numadd" using n r0(1) by simp
    have a: "length na = length numadd" using ln by (simp add: length_bump)
    have b: "\<forall>i. 0 \<le> i \<longrightarrow> i \<le> r0 \<longrightarrow> na ! nat i = numadd ! nat i"
    proof (intro allI impI)
      fix i :: int assume i: "0 \<le> i" "i \<le> r0"
      then have "nat (r0 + 1) \<noteq> nat i" by simp
      with lo i show "na ! nat i = numadd ! nat i" by (simp add: bump_def)
    qed
    have c: "\<forall>r. r0 \<le> r \<longrightarrow> r < num_rows LU \<longrightarrow>
        na ! nat (r + 1) = numadd ! nat (r + 1) + int (length (row_pairs LU r))"
    proof (intro allI impI)
      fix r :: int assume rr: "r0 \<le> r" "r < num_rows LU"
      show "na ! nat (r + 1) = numadd ! nat (r + 1) + int (length (row_pairs LU r))"
      proof (cases "r = r0")
        case True
        from lo r0(1) have "na ! nat (r0 + 1) = ?na ! nat (r0 + 1)" by simp
        with nl True show ?thesis by (simp add: bump_def)
      next
        case False
        with rr have g: "r0 + 1 \<le> r" by simp
        with r0(1) have "nat (r0 + 1) \<noteq> nat (r + 1)" by simp
        with hi g rr(2) show ?thesis by (simp add: bump_def)
      qed
    qed
    from res a b c show ?thesis unfolding unf by blast
  qed
qed

lemma running_total_correct:
  assumes "0 \<le> i" and "i \<le> n" and "n \<le> int (length na)" and "t = F (i - 1)"
    and "\<forall>j. i \<le> j \<longrightarrow> j < n \<longrightarrow> na ! nat j = F j - F (j - 1)"
  shows "\<exists>na'. running_total na i n t = Some (na', F (n - 1)) \<and> length na' = length na \<and>
     (\<forall>j. 0 \<le> j \<longrightarrow> j < i \<longrightarrow> na' ! nat j = na ! nat j) \<and>
     (\<forall>j. i \<le> j \<longrightarrow> j < n \<longrightarrow> na' ! nat j = F j)"
  using assms
proof (induction "nat (n - i)" arbitrary: i na t rule: less_induct)
  case less
  show ?case
  proof (cases "i < n")
    case False
    with less.prems(2) have "i = n" by simp
    then have "running_total na i n t = Some (na, F (n - 1))"
      using less.prems(4) by (subst running_total.simps) simp
    with False show ?thesis by simp
  next
    case True
    from less.prems(5) True have a: "na ! nat i = F i - F (i - 1)" by simp
    have ta: "t + na ! nat i = F i" unfolding a less.prems(4) by simp
    have rw: "rd na i = Some (na ! nat i)" "wr na i (F i) = Some (na[nat i := F i])"
      using True less.prems(1,3) by (simp_all add: rd_def wr_def)
    have unf: "running_total na i n t = running_total (na[nat i := F i]) (i + 1) n (F i)"
      apply (subst running_total.simps)
      using True by (simp add: rw ta)
    have m: "nat (n - (i + 1)) < nat (n - i)" using True by simp
    have p: "0 \<le> i + 1" "i + 1 \<le> n" "n \<le> int (length (na[nat i := F i]))"
      "F i = F (i + 1 - 1)"
      using True less.prems(1,3) by simp_all
    have q: "\<forall>j. i + 1 \<le> j \<longrightarrow> j < n \<longrightarrow> (na[nat i := F i]) ! nat j = F j - F (j - 1)"
    proof (intro allI impI)
      fix j :: int assume j: "i + 1 \<le> j" "j < n"
      with less.prems(1) have "nat i \<noteq> nat j" by simp
      with less.prems(5) j show "(na[nat i := F i]) ! nat j = F j - F (j - 1)" by simp
    qed
    from less.hyps[OF m p q] obtain na' where
      res: "running_total (na[nat i := F i]) (i + 1) n (F i) = Some (na', F (n - 1))"
      and ln: "length na' = length (na[nat i := F i])"
      and lo: "\<forall>j. 0 \<le> j \<longrightarrow> j < i + 1 \<longrightarrow> na' ! nat j = (na[nat i := F i]) ! nat j"
      and hi: "\<forall>j. i + 1 \<le> j \<longrightarrow> j < n \<longrightarrow> na' ! nat j = F j"
      by blast
    have il: "nat i < length na" using True less.prems(1,3) by simp
    have a1: "length na' = length na" using ln by simp
    have a2: "\<forall>j. 0 \<le> j \<longrightarrow> j < i \<longrightarrow> na' ! nat j = na ! nat j"
    proof (intro allI impI)
      fix j :: int assume j: "0 \<le> j" "j < i"
      then have "nat i \<noteq> nat j" by simp
      with lo j show "na' ! nat j = na ! nat j" by simp
    qed
    have a3: "\<forall>j. i \<le> j \<longrightarrow> j < n \<longrightarrow> na' ! nat j = F j"
    proof (intro allI impI)
      fix j :: int assume j: "i \<le> j" "j < n"
      show "na' ! nat j = F j"
      proof (cases "j = i")
        case True
        from lo less.prems(1) have "na' ! nat i = (na[nat i := F i]) ! nat i" by simp
        with il True show ?thesis by simp
      next
        case False
        with j have "i + 1 \<le> j" by simp
        with hi j(2) show ?thesis by simp
      qed
    qed
    from res a1 a2 a3 show ?thesis unfolding unf by blast
  qed
qed

lemma put_one:
  assumes "k < length (rowidx LN)" "k < length (col LN)" "k < length (val LN)"
  shows "LN\<lparr>rowidx := (rowidx LN)[k := a], col := (col LN)[k := b], val := (val LN)[k := 0]\<rparr>
    = put LN k [(a, b)]"
  using assms by (simp add: put_def blit_one)

lemma emit_lcol2_correct:
  assumes ok: "factor_ok LU" and inp: "discovery_inputs_ok LU"
    and r: "0 \<le> r" "r < num_rows LU"
    and s1: "s1 \<in> set (slots LU r)" "colv LU s1 \<noteq> r"
    and p: "path (list LU) s2 ys 0" and sub: "set ys \<subseteq> set (slots LU r)"
    and n: "r < int (length numadd)" and k: "0 \<le> numadd ! nat r + ladd"
    and cap: "nat (numadd ! nat r + ladd) + length (pairs_of LU (colv LU s1) ys) \<le> length (rowidx LN)"
      "nat (numadd ! nat r + ladd) + length (pairs_of LU (colv LU s1) ys) \<le> length (col LN)"
      "nat (numadd ! nat r + ladd) + length (pairs_of LU (colv LU s1) ys) \<le> length (val LN)"
  shows "emit_lcol2 LU numadd r s1 s2 LN ladd
    = Some (put LN (nat (numadd ! nat r + ladd)) (pairs_of LU (colv LU s1) ys),
            ladd + int (length (pairs_of LU (colv LU s1) ys)))"
  using p sub k cap
proof (induction ys arbitrary: s2 LN ladd)
  case Nil
  then show ?case by (subst emit_lcol2.simps) (simp add: pairs_of_Nil put_Nil)
next
  case (Cons y ys)
  from Cons.prems(1) have y: "s2 = y" "0 < y" "path (list LU) (list LU ! nat y) ys 0"
    by simp_all
  from Cons.prems(2) have yin: "y \<in> set (slots LU r)" and sub': "set ys \<subseteq> set (slots LU r)"
    by simp_all
  note r1 = slot_reads(1)[OF ok r s1(1)]
  note ry = slot_reads(1,2)[OF ok r yin]
  let ?c1 = "colv LU s1"
  let ?off = "numadd ! nat r"
  let ?k = "nat (?off + ladd)"
  note k = Cons.prems(3) and cap = Cons.prems(4,5,6)
  show ?case
  proof (cases "wanted LU ?c1 y")
    case False
    then have pe: "pairs_of LU ?c1 (y # ys) = pairs_of LU ?c1 ys" by (simp add: pairs_of_Cons)
    have st: "emit_lcol2 LU numadd r s1 y LN ladd
        = emit_lcol2 LU numadd r s1 (list LU ! nat y) LN ladd"
    proof (cases "colv LU y \<ge> ?c1")
      case True
      show ?thesis
        apply (subst emit_lcol2.simps)
        using y(2) True by (simp add: r1 ry)
    next
      case ge: False
      then have lt: "colv LU y < ?c1" by simp
      from off_diagonal_row[OF ok inp r s1] obtain z zs where z: "0 \<le> ?c1" "?c1 < r"
        "rd (row LU) ?c1 = Some z"
        "rd (row LU) (?c1 + 1) = Some (row LU ! nat (?c1 + 1))"
        "path (list LU) z (z # zs) 0" "\<forall>u \<in> set (z # zs). u < int (length (col LU))"
        "slots LU ?c1 = z # zs"
        by blast
      have mx: "max (colv LU y) ?c1 = ?c1" "min ?c1 (colv LU y) = colv LU y" using lt by simp_all
      have cf: "check_find LU (colv LU y) z = Some 1"
        unfolding check_find_correct[OF z(5,6)] exists_iff_not_wanted[OF z(7) lt]
        using False by simp
      show ?thesis
        apply (subst emit_lcol2.simps)
        using y(2) lt by (simp add: r1 ry mx z(3) cf)
    qed
    from cap have cap': "?k + length (pairs_of LU ?c1 ys) \<le> length (rowidx LN)"
      "?k + length (pairs_of LU ?c1 ys) \<le> length (col LN)"
      "?k + length (pairs_of LU ?c1 ys) \<le> length (val LN)"
      by (simp_all only: pe)
    show ?thesis unfolding y(1) st pe by (rule Cons.IH[OF y(3) sub' k cap'])
  next
    case True
    then have lt: "colv LU y < ?c1" by (simp add: wanted_def)
    from True have pe: "pairs_of LU ?c1 (y # ys) = [(?c1, colv LU y)] @ pairs_of LU ?c1 ys"
      by (simp add: pairs_of_Cons)
    from off_diagonal_row[OF ok inp r s1] obtain z zs where z: "0 \<le> ?c1" "?c1 < r"
      "rd (row LU) ?c1 = Some z"
      "rd (row LU) (?c1 + 1) = Some (row LU ! nat (?c1 + 1))"
      "path (list LU) z (z # zs) 0" "\<forall>u \<in> set (z # zs). u < int (length (col LU))"
      "slots LU ?c1 = z # zs"
      by blast
    have mx: "max (colv LU y) ?c1 = ?c1" "min ?c1 (colv LU y) = colv LU y" using lt by simp_all
    have cf: "check_find LU (colv LU y) z = Some 0"
      unfolding check_find_correct[OF z(5,6)] exists_iff_not_wanted[OF z(7) lt]
      using True by simp
    from cap have kl: "?k < length (rowidx LN)" "?k < length (col LN)" "?k < length (val LN)"
      by (simp_all add: pe)
    have ro: "rd numadd r = Some ?off" using r(1) n by (simp add: rd_def)
    have ws: "wr (val LN) (?off + ladd) 0 = Some ((val LN)[?k := 0])"
      "wr (rowidx LN) (?off + ladd) ?c1 = Some ((rowidx LN)[?k := ?c1])"
      "wr (col LN) (?off + ladd) (colv LU y) = Some ((col LN)[?k := colv LU y])"
      using k kl by (simp_all add: wr_def)
    let ?LN1 = "put LN ?k [(?c1, colv LU y)]"
    have st: "emit_lcol2 LU numadd r s1 y LN ladd
        = emit_lcol2 LU numadd r s1 (list LU ! nat y) ?LN1 (ladd + 1)"
      apply (subst emit_lcol2.simps)
      using y(2) lt by (simp add: r1 ry mx z(3) cf ro ws put_one[OF kl])
    have k1: "0 \<le> ?off + (ladd + 1)" using k by simp
    have nk: "nat (?off + (ladd + 1)) = ?k + length [(?c1, colv LU y)]" using k by simp
    have l1: "length (rowidx ?LN1) = length (rowidx LN)" "length (col ?LN1) = length (col LN)"
      "length (val ?LN1) = length (val LN)"
      using kl by (simp_all add: put_def length_blit)
    have cap': "nat (?off + (ladd + 1)) + length (pairs_of LU ?c1 ys) \<le> length (rowidx ?LN1)"
      "nat (?off + (ladd + 1)) + length (pairs_of LU ?c1 ys) \<le> length (col ?LN1)"
      "nat (?off + (ladd + 1)) + length (pairs_of LU ?c1 ys) \<le> length (val ?LN1)"
      unfolding l1 nk using cap by (simp_all add: pe)
    have kle: "?k \<le> length (rowidx LN)" "?k \<le> length (col LN)" "?k \<le> length (val LN)"
      using kl by simp_all
    have "emit_lcol2 LU numadd r s1 (list LU ! nat y) ?LN1 (ladd + 1)
        = Some (put ?LN1 (nat (?off + (ladd + 1))) (pairs_of LU ?c1 ys),
                ladd + 1 + int (length (pairs_of LU ?c1 ys)))"
      by (rule Cons.IH[OF y(3) sub' k1 cap'])
    also have "put ?LN1 (nat (?off + (ladd + 1))) (pairs_of LU ?c1 ys)
        = put LN ?k (pairs_of LU ?c1 (y # ys))"
      unfolding nk pe by (rule put_append[OF kle])
    also have "ladd + 1 + int (length (pairs_of LU ?c1 ys))
        = ladd + int (length (pairs_of LU ?c1 (y # ys)))"
      by (simp add: pe)
    finally show ?thesis unfolding y(1) st .
  qed
qed

lemma emit_lcol1_correct:
  assumes ok: "factor_ok LU" and inp: "discovery_inputs_ok LU"
    and r: "0 \<le> r" "r < num_rows LU"
    and st: "path (list LU) start (slots LU r) 0"
    and p: "path (list LU) s1 xs 0" and sub: "set xs \<subseteq> set (slots LU r)"
    and n: "r < int (length numadd)" and k: "0 \<le> numadd ! nat r + ladd"
    and cap:
      "nat (numadd ! nat r + ladd) + length (row_pairs_from LU r xs (slots LU r)) \<le> length (rowidx LN)"
      "nat (numadd ! nat r + ladd) + length (row_pairs_from LU r xs (slots LU r)) \<le> length (col LN)"
      "nat (numadd ! nat r + ladd) + length (row_pairs_from LU r xs (slots LU r)) \<le> length (val LN)"
  shows "emit_lcol1 LU numadd r start s1 LN ladd
    = Some (put LN (nat (numadd ! nat r + ladd)) (row_pairs_from LU r xs (slots LU r)),
            ladd + int (length (row_pairs_from LU r xs (slots LU r))))"
  using p sub k cap
proof (induction xs arbitrary: s1 LN ladd)
  case Nil
  then show ?case by (subst emit_lcol1.simps) (simp add: row_pairs_from_Nil put_Nil)
next
  case (Cons x xs)
  from Cons.prems(1) have x: "s1 = x" "0 < x" "path (list LU) (list LU ! nat x) xs 0"
    by simp_all
  from Cons.prems(2) have xin: "x \<in> set (slots LU r)" and sub': "set xs \<subseteq> set (slots LU r)"
    by simp_all
  note rx = slot_reads(1,2)[OF ok r xin]
  note k = Cons.prems(3) and cap = Cons.prems(4,5,6)
  let ?off = "numadd ! nat r"
  let ?k = "nat (?off + ladd)"
  let ?zs = "slots LU r"
  show ?case
  proof (cases "colv LU x = r")
    case True
    then have pe: "row_pairs_from LU r (x # xs) ?zs = row_pairs_from LU r xs ?zs"
      by (simp add: row_pairs_from_Cons)
    have s: "emit_lcol1 LU numadd r start x LN ladd
        = emit_lcol1 LU numadd r start (list LU ! nat x) LN ladd"
      apply (subst emit_lcol1.simps)
      using x(2) True by (simp add: rx)
    from cap have cap': "?k + length (row_pairs_from LU r xs ?zs) \<le> length (rowidx LN)"
      "?k + length (row_pairs_from LU r xs ?zs) \<le> length (col LN)"
      "?k + length (row_pairs_from LU r xs ?zs) \<le> length (val LN)"
      by (simp_all only: pe)
    show ?thesis unfolding x(1) s pe by (rule Cons.IH[OF x(3) sub' k cap'])
  next
    case False
    let ?ps = "pairs_of LU (colv LU x) ?zs"
    let ?qs = "row_pairs_from LU r xs ?zs"
    from False have pe: "row_pairs_from LU r (x # xs) ?zs = ?ps @ ?qs"
      by (simp add: row_pairs_from_Cons)
    from cap have c2: "?k + length ?ps \<le> length (rowidx LN)" "?k + length ?ps \<le> length (col LN)"
      "?k + length ?ps \<le> length (val LN)"
      by (simp_all add: pe)
    note e2 = emit_lcol2_correct[OF ok inp r xin False st subset_refl n k c2]
    let ?LN1 = "put LN ?k ?ps"
    let ?l1 = "ladd + int (length ?ps)"
    have s: "emit_lcol1 LU numadd r start x LN ladd
        = emit_lcol1 LU numadd r start (list LU ! nat x) ?LN1 ?l1"
      apply (subst emit_lcol1.simps)
      using x(2) False by (simp add: rx e2)
    have k1: "0 \<le> ?off + ?l1" using k by simp
    have nk: "nat (?off + ?l1) = ?k + length ?ps" using k by simp
    note l1 = put_length[OF c2]
    have cap': "nat (?off + ?l1) + length ?qs \<le> length (rowidx ?LN1)"
      "nat (?off + ?l1) + length ?qs \<le> length (col ?LN1)"
      "nat (?off + ?l1) + length ?qs \<le> length (val ?LN1)"
      unfolding l1 nk using cap by (simp_all add: pe)
    have kle: "?k \<le> length (rowidx LN)" "?k \<le> length (col LN)" "?k \<le> length (val LN)"
      using c2 by simp_all
    have "emit_lcol1 LU numadd r start (list LU ! nat x) ?LN1 ?l1
        = Some (put ?LN1 (nat (?off + ?l1)) ?qs, ?l1 + int (length ?qs))"
      by (rule Cons.IH[OF x(3) sub' k1 cap'])
    also have "put ?LN1 (nat (?off + ?l1)) ?qs = put LN ?k (row_pairs_from LU r (x # xs) ?zs)"
      unfolding nk pe by (rule put_append[OF kle])
    also have "?l1 + int (length ?qs) = ladd + int (length (row_pairs_from LU r (x # xs) ?zs))"
      by (simp add: pe)
    finally show ?thesis unfolding x(1) s .
  qed
qed

lemma pairs_upto_empty: "r1 < r0 \<Longrightarrow> pairs_upto LU r0 r1 = []"
  by (simp add: pairs_upto_def)

lemma pairs_upto_first:
  "r0 \<le> r1 \<Longrightarrow> pairs_upto LU r0 r1 = row_pairs LU r0 @ pairs_upto LU (r0 + 1) r1"
  by (simp add: pairs_upto_def upto_rec1)

lemma pairs_upto_last:
  "r0 \<le> r1 \<Longrightarrow> pairs_upto LU r0 r1 = pairs_upto LU r0 (r1 - 1) @ row_pairs LU r1"
  by (simp add: pairs_upto_def upto_rec2)

lemma offs_zero: "offs LU 0 = 0"
  by (simp add: offs_def pairs_upto_empty)

lemma offs_step: "0 \<le> r \<Longrightarrow> offs LU (r + 1) = offs LU r + int (length (row_pairs LU r))"
  by (simp add: offs_def pairs_upto_last)

lemma offs_nonneg: "0 \<le> offs LU r"
  by (simp add: offs_def)

lemma emit_rows_correct:
  assumes ok: "factor_ok LU" and inp: "discovery_inputs_ok LU"
    and r0: "0 \<le> r0" "r0 \<le> num_rows LU"
    and len: "num_rows LU \<le> int (length numadd)"
    and num: "\<forall>r. 0 \<le> r \<longrightarrow> r < num_rows LU \<longrightarrow> numadd ! nat r = offs LU r"
    and cap:
      "nat (offs LU r0) + length (pairs_upto LU r0 (num_rows LU - 1)) \<le> length (rowidx LN)"
      "nat (offs LU r0) + length (pairs_upto LU r0 (num_rows LU - 1)) \<le> length (col LN)"
      "nat (offs LU r0) + length (pairs_upto LU r0 (num_rows LU - 1)) \<le> length (val LN)"
  shows "emit_rows LU numadd r0 LN
    = Some (put LN (nat (offs LU r0)) (pairs_upto LU r0 (num_rows LU - 1)))"
  using r0 cap
proof (induction "nat (num_rows LU - r0)" arbitrary: r0 LN rule: less_induct)
  case less
  note r0 = less.prems(1,2) and cap = less.prems(3,4,5)
  show ?case
  proof (cases "r0 < num_rows LU")
    case False
    then have "emit_rows LU numadd r0 LN = Some LN" by (subst emit_rows.simps) simp
    with False show ?thesis by (simp add: pairs_upto_empty put_Nil)
  next
    case True
    from row_start[OF ok inp r0(1) True] obtain start where s: "rd (row LU) r0 = Some start"
      "rd (row LU) (r0 + 1) = Some (row LU ! nat (r0 + 1))"
      "path (list LU) start (slots LU r0) 0"
      by blast
    let ?ps = "row_pairs LU r0"
    let ?qs = "pairs_upto LU (r0 + 1) (num_rows LU - 1)"
    from True have pe: "pairs_upto LU r0 (num_rows LU - 1) = ?ps @ ?qs"
      by (simp add: pairs_upto_first)
    from num r0(1) True have off: "numadd ! nat r0 = offs LU r0" by simp
    have n: "r0 < int (length numadd)" using True len by simp
    have k: "0 \<le> numadd ! nat r0 + 0" unfolding off by (simp add: offs_nonneg)
    have c1: "nat (numadd ! nat r0 + 0) + length (row_pairs_from LU r0 (slots LU r0) (slots LU r0))
          \<le> length (rowidx LN)"
      "nat (numadd ! nat r0 + 0) + length (row_pairs_from LU r0 (slots LU r0) (slots LU r0))
          \<le> length (col LN)"
      "nat (numadd ! nat r0 + 0) + length (row_pairs_from LU r0 (slots LU r0) (slots LU r0))
          \<le> length (val LN)"
      unfolding off row_pairs_def[symmetric] using cap by (simp_all add: pe)
    note e1 = emit_lcol1_correct[OF ok inp r0(1) True s(3) s(3) subset_refl n k c1,
        unfolded row_pairs_def[symmetric] off]
    let ?k = "nat (offs LU r0)"
    let ?LN1 = "put LN ?k ?ps"
    have unf: "emit_rows LU numadd r0 LN = emit_rows LU numadd (r0 + 1) ?LN1"
      apply (subst emit_rows.simps)
      using True by (simp add: s(1,2) e1)
    have m: "nat (num_rows LU - (r0 + 1)) < nat (num_rows LU - r0)" using True by simp
    have r1: "0 \<le> r0 + 1" "r0 + 1 \<le> num_rows LU" using r0(1) True by simp_all
    have nk: "nat (offs LU (r0 + 1)) = ?k + length ?ps"
      using offs_nonneg[of LU r0] by (simp add: offs_step[OF r0(1)] nat_add_distrib)
    have c2: "?k + length ?ps \<le> length (rowidx LN)" "?k + length ?ps \<le> length (col LN)"
      "?k + length ?ps \<le> length (val LN)"
      using cap by (simp_all add: pe)
    note l1 = put_length[OF c2]
    have cap': "nat (offs LU (r0 + 1)) + length ?qs \<le> length (rowidx ?LN1)"
      "nat (offs LU (r0 + 1)) + length ?qs \<le> length (col ?LN1)"
      "nat (offs LU (r0 + 1)) + length ?qs \<le> length (val ?LN1)"
      unfolding l1 nk using cap by (simp_all add: pe)
    have kle: "?k \<le> length (rowidx LN)" "?k \<le> length (col LN)" "?k \<le> length (val LN)"
      using c2 by simp_all
    have "emit_rows LU numadd (r0 + 1) ?LN1 = Some (put ?LN1 (nat (offs LU (r0 + 1))) ?qs)"
      by (rule less.hyps[OF m r1 cap'])
    also have "put ?LN1 (nat (offs LU (r0 + 1))) ?qs = put LN ?k (pairs_upto LU r0 (num_rows LU - 1))"
      unfolding nk pe by (rule put_append[OF kle])
    finally show ?thesis unfolding unf .
  qed
qed

lemma offs_before: "offs LU (0 - 1) = 0"
  by (simp add: offs_def pairs_upto_empty)

lemma counting_correct:
  assumes ok: "factor_ok LU" and inp: "discovery_inputs_ok LU"
  shows "\<exists>numadd0 numadd1 numadd.
     zero_fill (map f [0..<nat (num_rows LU + 1)]) 0 (num_rows LU + 1) = Some numadd0 \<and>
     count_rows LU 0 numadd0 = Some numadd1 \<and>
     running_total numadd1 0 (num_rows LU + 1) 0 = Some (numadd, offs LU (num_rows LU)) \<and>
     num_rows LU \<le> int (length numadd) \<and>
     (\<forall>r. 0 \<le> r \<longrightarrow> r < num_rows LU \<longrightarrow> numadd ! nat r = offs LU r)"
proof -
  from ok have pok: "pattern_ok LU" by (simp add: factor_ok_def)
  note szd = sizedD[OF pattern_okD[OF pok]]
  let ?n = "num_rows LU"
  let ?z = "replicate (nat (?n + 1)) (0::int)"
  have n1: "(0::int) \<le> 0" "0 \<le> ?n + 1" "0 \<le> ?n" using szd(1) by simp_all
  have "length (map f [0..<nat (?n + 1)]) = nat (?n + 1)" by simp
  from zero_fill_correct[OF this n1(1,2)]
  have z: "zero_fill (map f [0..<nat (?n + 1)]) 0 (?n + 1) = Some ?z" by simp
  have lz: "length ?z = nat (?n + 1)" by simp
  from count_rows_correct[OF ok inp n1(1,3) lz] obtain na1 where
    c: "count_rows LU 0 ?z = Some na1" and l1: "length na1 = length ?z"
    and lo: "\<forall>i. 0 \<le> i \<longrightarrow> i \<le> 0 \<longrightarrow> na1 ! nat i = ?z ! nat i"
    and hi: "\<forall>r. 0 \<le> r \<longrightarrow> r < ?n \<longrightarrow>
        na1 ! nat (r + 1) = ?z ! nat (r + 1) + int (length (row_pairs LU r))"
    by blast
  have ln: "?n + 1 \<le> int (length na1)" using l1 n1(2) by simp
  have t0: "(0::int) = offs LU (0 - 1)" by (simp only: offs_before)
  have d: "\<forall>j. 0 \<le> j \<longrightarrow> j < ?n + 1 \<longrightarrow> na1 ! nat j = offs LU j - offs LU (j - 1)"
  proof (intro allI impI)
    fix j :: int assume j: "0 \<le> j" "j < ?n + 1"
    show "na1 ! nat j = offs LU j - offs LU (j - 1)"
    proof (cases "j = 0")
      case True
      have pos: "0 < nat (?n + 1)" using n1(3) by simp
      from lo have "na1 ! nat 0 = ?z ! nat 0" by simp
      with pos have "na1 ! nat 0 = 0" by simp
      with True show ?thesis using offs_before[of LU] by (simp add: offs_zero)
    next
      case False
      with j have r: "0 \<le> j - 1" "j - 1 < ?n" by simp_all
      from hi r have "na1 ! nat (j - 1 + 1) = ?z ! nat (j - 1 + 1) + int (length (row_pairs LU (j - 1)))"
        by blast
      moreover have "nat (j - 1 + 1) < nat (?n + 1)" using j by simp
      ultimately have "na1 ! nat j = int (length (row_pairs LU (j - 1)))" by simp
      with offs_step[OF r(1)] show ?thesis by simp
    qed
  qed
  from running_total_correct[where F = "offs LU", OF n1(1,2) ln t0 d] obtain na where
    rt: "running_total na1 0 (?n + 1) 0 = Some (na, offs LU (?n + 1 - 1))"
    and l2: "length na = length na1"
    and v: "\<forall>j. 0 \<le> j \<longrightarrow> j < ?n + 1 \<longrightarrow> na ! nat j = offs LU j"
    by blast
  have rt': "running_total na1 0 (?n + 1) 0 = Some (na, offs LU ?n)" using rt by simp
  have l3: "?n \<le> int (length na)" using l2 l1 n1(3) by simp
  have v': "\<forall>r. 0 \<le> r \<longrightarrow> r < ?n \<longrightarrow> na ! nat r = offs LU r" using v by simp
  from z c rt' l3 v' show ?thesis by blast
qed

lemma put_all:
  assumes "length (rowidx LN) = length ps" "length (col LN) = length ps"
    "length (val LN) = length ps"
  shows "put LN 0 ps = LN\<lparr>rowidx := map fst ps, col := map snd ps, val := map (\<lambda>p. 0) ps\<rparr>"
  using assms by (simp add: put_def blit_all)

lemma candidates_correct:
  assumes ok: "factor_ok LU" and inp: "discovery_inputs_ok LU"
    and codes: "numadd_code al = 0" "val_code al = 0" "rowidx_code al = 0" "col_code al = 0"
  shows "magma_zmdynamicic_candidates_n al LU LU_new =
     Some (0, LU_new\<lparr>num_rows := num_rows LU,
                     nnz := int (length (pairs_upto LU 0 (num_rows LU - 1))),
                     rowidx := map fst (pairs_upto LU 0 (num_rows LU - 1)),
                     col := map snd (pairs_upto LU 0 (num_rows LU - 1)),
                     val := map (\<lambda>p. 0) (pairs_upto LU 0 (num_rows LU - 1))\<rparr>)"
proof -
  let ?n = "num_rows LU"
  let ?ps = "pairs_upto LU 0 (?n - 1)"
  from ok have pok: "pattern_ok LU" by (simp add: factor_ok_def)
  note szd = sizedD[OF pattern_okD[OF pok]]
  from counting_correct[OF ok inp, of "numadd_init al"] obtain numadd0 numadd1 numadd where
    z: "zero_fill (map (numadd_init al) [0..<nat (?n + 1)]) 0 (?n + 1) = Some numadd0"
    and c: "count_rows LU 0 numadd0 = Some numadd1"
    and rt: "running_total numadd1 0 (?n + 1) 0 = Some (numadd, offs LU ?n)"
    and len: "?n \<le> int (length numadd)"
    and num: "\<forall>r. 0 \<le> r \<longrightarrow> r < ?n \<longrightarrow> numadd ! nat r = offs LU r"
    by blast
  have tot: "offs LU ?n = int (length ?ps)" by (simp add: offs_def)
  let ?LN = "LU_new\<lparr>num_rows := ?n, nnz := int (length ?ps),
               rowidx := map (rowidx_init al) [0..<length ?ps],
               col := map (col_init al) [0..<length ?ps],
               val := map (val_init al) [0..<length ?ps]\<rparr>"
  have n0: "(0::int) \<le> 0" "0 \<le> ?n" using szd(1) by simp_all
  have cap: "nat (offs LU 0) + length (pairs_upto LU 0 (?n - 1)) \<le> length (rowidx ?LN)"
    "nat (offs LU 0) + length (pairs_upto LU 0 (?n - 1)) \<le> length (col ?LN)"
    "nat (offs LU 0) + length (pairs_upto LU 0 (?n - 1)) \<le> length (val ?LN)"
    by (simp_all add: offs_zero)
  have l: "length (rowidx ?LN) = length ?ps" "length (col ?LN) = length ?ps"
    "length (val ?LN) = length ?ps"
    by simp_all
  have "emit_rows LU numadd 0 ?LN = Some (put ?LN (nat (offs LU 0)) ?ps)"
    by (rule emit_rows_correct[OF ok inp n0 len num cap])
  also have "put ?LN (nat (offs LU 0)) ?ps = put ?LN 0 ?ps" by (simp add: offs_zero)
  also have "\<dots> = ?LN\<lparr>rowidx := map fst ?ps, col := map snd ?ps, val := map (\<lambda>p. 0) ?ps\<rparr>"
    by (rule put_all[OF l])
  finally have e: "emit_rows LU numadd 0 ?LN
      = Some (LU_new\<lparr>num_rows := ?n, nnz := int (length ?ps), rowidx := map fst ?ps,
                col := map snd ?ps, val := map (\<lambda>p. 0) ?ps\<rparr>)"
    by simp
  show ?thesis
    by (simp add: magma_zmdynamicic_candidates_n_def codes z c rt tot e)
qed

lemma candidates_fails:
  assumes ok: "factor_ok LU" and inp: "discovery_inputs_ok LU"
    and codes: "\<not> (numadd_code al = 0 \<and> val_code al = 0 \<and> rowidx_code al = 0 \<and> col_code al = 0)"
  shows "\<exists>info LN. magma_zmdynamicic_candidates_n al LU LU_new = Some (info, LN) \<and> info \<noteq> 0"
proof -
  from counting_correct[OF ok inp, of "numadd_init al"] obtain numadd0 numadd1 numadd where
    z: "zero_fill (map (numadd_init al) [0..<nat (num_rows LU + 1)]) 0 (num_rows LU + 1)
          = Some numadd0"
    and c: "count_rows LU 0 numadd0 = Some numadd1"
    and rt: "running_total numadd1 0 (num_rows LU + 1) 0 = Some (numadd, offs LU (num_rows LU))"
    by blast
  from codes show ?thesis
    by (auto simp: magma_zmdynamicic_candidates_n_def z c rt)
qed

lemma pairs_upto_wanted:
  assumes "(a, b) \<in> set (pairs_upto LU r0 r1)"
  shows "b < a" "b \<notin> set (cols LU a)"
  using assms
  by (auto simp: pairs_upto_def row_pairs_def row_pairs_from_def pairs_of_def wanted_def
      split: if_splits)

section \<open>The selection by magnitude\<close>

lemma insort_key_magnitudes:
  "map cmod (insort_key cmod x ys) = insort (cmod x) (map cmod ys)"
  by (induction ys) simp_all

lemma sort_key_magnitudes: "map cmod (sort_key cmod w) = sort (map cmod w)"
  by (induction w) (simp_all add: insort_key_magnitudes)

lemma select_spec_smallest:
  assumes "0 \<le> k" and "k < len" and "len \<le> int (length v)"
  shows "fst (select_spec v len k 0) = 0"
    "snd (snd (select_spec v len k 0))
       = complex_of_real (sort (map cmod (take (nat len) v)) ! nat k)"
proof -
  let ?w = "take (nat len) v"
  have l: "nat k < length (sort_key cmod ?w)" using assms by simp
  have "cmod (sort_key cmod ?w ! nat k) = map cmod (sort_key cmod ?w) ! nat k"
    using l by simp
  also have "\<dots> = sort (map cmod ?w) ! nat k" by (simp only: sort_key_magnitudes)
  finally show "snd (snd (select_spec v len k 0))
       = complex_of_real (sort (map cmod (take (nat len) v)) ! nat k)"
    by (simp add: select_spec_def Let_def)
  show "fst (select_spec v len k 0) = 0" by (simp add: select_spec_def Let_def)
qed

section \<open>The guard of the insertion routine\<close>

text \<open>
  C2, as the specification states it, fails: with \<^verbatim>\<open>num_rm\<close> equal to
  \<^verbatim>\<open>LU_new->nnz\<close> the routine does not insert. Here one slot was freed
  (\<open>rm_loc = [3]\<close>), the candidate list holds the one candidate \<open>(1,0)\<close>, which
  is absent from the factor, and the call returns 0 with the factor unchanged.
\<close>

theorem insert_equal_counts_skipped:
  "(1::int) \<le> nnz cand_one \<and>
   magma_zmdynamicic_insert os_arranged 1 [3] cand_one LU_diag = Some (0, cand_one, LU_diag)"
  by (simp add: magma_zmdynamicic_insert_def cand_one_def)

text \<open>
  C2, amended: the round is skipped (code 0, factor and candidate list unchanged, the
  order statistics not called) exactly when \<^verbatim>\<open>num_rm >= LU_new->nnz\<close>; when
  \<^verbatim>\<open>num_rm < LU_new->nnz\<close> the routine calls the order statistics on the candidate
  values and, unless that fails, runs the insertion loop from the cursors \<open>0, 0\<close>.
\<close>

theorem insert_guard:
  "(num_rm \<ge> nnz LU_new \<longrightarrow>
      magma_zmdynamicic_insert os num_rm rm_loc LU_new LU = Some (0, LU_new, LU)) \<and>
   (num_rm < nnz LU_new \<longrightarrow>
      magma_zmdynamicic_insert os num_rm rm_loc LU_new LU =
        (case os (val LU_new) num_rm (nnz LU_new - 1) 1 of
           (info, v, element) \<Rightarrow>
             if info \<noteq> 0 then Some (info, LU_new\<lparr>val := v\<rparr>, LU)
             else map_option (\<lambda>(LU', i, num_insert). (0, LU_new\<lparr>val := v\<rparr>, LU'))
                    (insert_loop num_rm rm_loc (LU_new\<lparr>val := v\<rparr>) LU 0 0)))"
  by (auto simp: magma_zmdynamicic_insert_def map_option_case split: prod.splits option.splits)

text \<open>
  The instance: with two candidates and one freed slot the guard lets the call
  through, and the candidate \<open>(1,0)\<close> is put into slot 3 at the head of row 1.
\<close>

theorem insert_guard_witness:
  "(1::int) < nnz cand_two \<and>
   magma_zmdynamicic_insert os_arranged 1 [3] cand_two LU_diag =
     Some (0, cand_two,
       \<lparr>num_rows = 2, nnz = 5, row = [1, 3], rowidx = [0, 0, 1, 1, 0],
        col = [0, 0, 1, 0, 0], list = [0, 0, 0, 2, - 1], val = [0, 2, 1, 0, 0]\<rparr>)"
  using insert_guard [where num_rm = 1 and LU_new = cand_two and os = os_arranged
      and rm_loc = "[3]" and LU = LU_diag]
  by (simp add: cand_two_def os_arranged_def LU_diag_def insert_loop.simps
      insert_candidate_def rd_def wr_def)

section \<open>The threshold\<close>

text \<open>
  C9: \<^verbatim>\<open>magma_zmdynamicilu_set_thrs\<close> returns the factor exactly as it was passed
  (every field), whatever the selection does, because the selection runs on the
  scratch copy of the first \<^verbatim>\<open>nnz\<close> values; the routine hands the pivot of the
  selection for \<open>k = num_rm\<close> in mode 0 (smallest) through as the threshold, and when
  the allocation or the selection fails \<^verbatim>\<open>*thrs\<close> keeps its old value and the failing
  code is returned. With the selection of the specification, which returns a
  magnitude, and \<open>0 \<le> num_rm < nnz\<close> the threshold is the magnitude of the
  \<open>num_rm\<close>-th smallest element of the first \<^verbatim>\<open>nnz\<close> values: the entry at position
  \<open>num_rm\<close>, counted from 0, of their magnitudes in ascending order.
\<close>

theorem set_thrs_magnitude:
  assumes "nnz LU \<le> int (length (val LU))"
  shows "(\<exists>info thrs.
       magma_zmdynamicilu_set_thrs os alloc num_rm LU thrs0 = Some (info, thrs, LU) \<and>
       (info, thrs) =
         (if alloc \<noteq> 0 then (alloc, thrs0)
          else case os (take (nat (nnz LU)) (val LU)) (nnz LU) num_rm 0 of
            (e, scratch, element) \<Rightarrow> if e \<noteq> 0 then (e, thrs0) else (0, element))) \<and>
     (0 \<le> num_rm \<and> num_rm < nnz LU \<longrightarrow>
       magma_zmdynamicilu_set_thrs select_spec 0 num_rm LU thrs0 =
         Some (0, complex_of_real (sort (map cmod (take (nat (nnz LU)) (val LU))) ! nat num_rm),
               LU))"
proof (intro conjI impI)
  show "\<exists>info thrs.
       magma_zmdynamicilu_set_thrs os alloc num_rm LU thrs0 = Some (info, thrs, LU) \<and>
       (info, thrs) =
         (if alloc \<noteq> 0 then (alloc, thrs0)
          else case os (take (nat (nnz LU)) (val LU)) (nnz LU) num_rm 0 of
            (e, scratch, element) \<Rightarrow> if e \<noteq> 0 then (e, thrs0) else (0, element))"
    using assms by (auto simp: magma_zmdynamicilu_set_thrs_def split: prod.splits)
next
  assume k: "0 \<le> num_rm \<and> num_rm < nnz LU"
  let ?w = "take (nat (nnz LU)) (val LU)"
  have len: "nnz LU \<le> int (length ?w)" using assms by simp
  from k have k0: "0 \<le> num_rm" and k1: "num_rm < nnz LU" by simp_all
  note s = select_spec_smallest[OF k0 k1 len]
  obtain e scratch element where o: "select_spec ?w (nnz LU) num_rm 0 = (e, scratch, element)"
    by (cases "select_spec ?w (nnz LU) num_rm 0")
  from s o assms have "e = 0"
    "element = complex_of_real (sort (map cmod ?w) ! nat num_rm)"
    by simp_all
  with o assms show "magma_zmdynamicilu_set_thrs select_spec 0 num_rm LU thrs0 =
         Some (0, complex_of_real (sort (map cmod ?w) ! nat num_rm), LU)"
    by (simp add: magma_zmdynamicilu_set_thrs_def)
qed

text \<open>
  The instance: the values \<open>[0, 2, -3, 0, 0]\<close> have the magnitudes \<open>[0, 0, 0, 2, 3]\<close>
  in ascending order; for \<open>num_rm = 4\<close> the threshold is 3, the magnitude of the
  entry \<open>-3\<close>, and the factor is as before.
\<close>

theorem set_thrs_magnitude_witness:
  "nnz LU_signed \<le> int (length (val LU_signed)) \<and> (0::int) \<le> 4 \<and> 4 < nnz LU_signed \<and>
   val LU_signed ! 2 = - 3 \<and>
   sort (map cmod (take (nat (nnz LU_signed)) (val LU_signed))) = [0, 0, 0, 2, 3] \<and>
   magma_zmdynamicilu_set_thrs select_spec 0 4 LU_signed 9 = Some (0, 3, LU_signed)"
proof -
  have h: "nnz LU_signed \<le> int (length (val LU_signed))" "4 < nnz LU_signed"
    "val LU_signed ! 2 = - 3"
    by (simp_all add: LU_signed_def)
  have s: "sort (map cmod (take (nat (nnz LU_signed)) (val LU_signed))) = [0, 0, 0, 2, 3]"
    by (simp add: LU_signed_def)
  from set_thrs_magnitude[OF h(1), of select_spec 0 4 9] h(2)
  have "magma_zmdynamicilu_set_thrs select_spec 0 4 LU_signed 9 =
      Some (0, complex_of_real ([0, 0, 0, 2, 3] ! nat 4), LU_signed)"
    by (simp add: s)
  then have "magma_zmdynamicilu_set_thrs select_spec 0 4 LU_signed 9 = Some (0, 3, LU_signed)"
    by simp
  with h s show ?thesis by simp
qed

section \<open>The insertion routine and the invariants\<close>

text \<open>
  C5: the insertion preserves I2 and I3. The standing assumptions are the ones under
  which the routine is called: the factor satisfies I1--I4 with arrays of \<^verbatim>\<open>nnz\<close>
  slots (\<open>pattern_ok\<close>, which contains I2 and I3 for every row), the first
  \<open>num_rm\<close> entries of \<^verbatim>\<open>rm_loc\<close> are distinct slots of the free pool, and the
  candidates name rows of the factor. Then the routine returns, and in the factor
  it returns every row chain has strictly increasing columns (I2) without duplicates
  (I3); I1 and I4 hold as well. Neither I5 nor \<open>r > c\<close> for the candidates is
  needed, and the order statistics is arbitrary.
\<close>

theorem insert_preserves_order:
  assumes "pattern_ok LU" and "free_slots LU rm_loc num_rm" and "candidates_ok LU LU_new"
  shows "\<exists>info LN' LU'.
     magma_zmdynamicic_insert os num_rm rm_loc LU_new LU = Some (info, LN', LU') \<and>
     num_rows LU' = num_rows LU \<and>
     (\<forall>r \<in> {0..<num_rows LU}. I1 LU' r \<and> I2 LU' r \<and> I3 LU' r \<and> I4 LU' r)"
proof -
  from insert_total[OF assms, of os]
  obtain LN' LU' where
    "magma_zmdynamicic_insert os num_rm rm_loc LU_new LU =
       Some (if nnz LU_new \<le> num_rm then 0 else fst (os (val LU_new) num_rm (nnz LU_new - 1) 1),
             LN', LU')"
    and ok: "pattern_ok LU'" and nr: "num_rows LU' = num_rows LU"
    by blast
  moreover from ok nr
  have "\<forall>r \<in> {0..<num_rows LU}. I1 LU' r \<and> I2 LU' r \<and> I3 LU' r \<and> I4 LU' r"
    by (simp add: pattern_ok_def)
  ultimately show ?thesis using nr by blast
qed

text \<open>
  The instance: the candidate \<open>(1,0)\<close> goes into slot 3 of the diagonal factor, in
  front of the diagonal entry of row 1, whose columns are then \<open>0, 1\<close>.
\<close>

theorem insert_preserves_order_witness:
  "pattern_ok LU_diag \<and> free_slots LU_diag [3] 1 \<and> candidates_ok LU_diag cand_two \<and>
   magma_zmdynamicic_insert os_arranged 1 [3] cand_two LU_diag = Some (0, cand_two, LU_ins) \<and>
   I2 LU_ins 1 \<and> I3 LU_ins 1 \<and> cols LU_ins 1 = [0, 1]"
proof -
  have h: "pattern_ok LU_diag" "free_slots LU_diag [3] 1" "candidates_ok LU_diag cand_two"
    by code_simp+
  have e: "magma_zmdynamicic_insert os_arranged 1 [3] cand_two LU_diag = Some (0, cand_two, LU_ins)"
    by (simp add: magma_zmdynamicic_insert_def cand_two_def os_arranged_def LU_diag_def
        LU_ins_def insert_loop.simps insert_candidate_def rd_def wr_def)
  have n: "num_rows LU_diag = 2" by (simp add: LU_diag_def)
  from insert_preserves_order[OF h, of os_arranged] e n
  have "\<forall>r \<in> {0..<2}. I1 LU_ins r \<and> I2 LU_ins r \<and> I3 LU_ins r \<and> I4 LU_ins r"
    by simp
  then have "I2 LU_ins 1 \<and> I3 LU_ins 1" by simp
  moreover have "cols LU_ins 1 = [0, 1]" by code_simp
  ultimately show ?thesis using h e by simp
qed

text \<open>
  C10: under the same assumptions the routine returns, and the code it returns is 0
  unless the order statistics was called and returned another code. The guard path
  (\<^verbatim>\<open>num_rm >= LU_new->nnz\<close>), the \<^verbatim>\<open>break\<close> on an exhausted candidate list and the
  regular end of the loop all give 0: the code does not tell them apart.
\<close>

theorem insert_returns_zero:
  assumes "pattern_ok LU" and "free_slots LU rm_loc num_rm" and "candidates_ok LU LU_new"
  shows "\<exists>LN' LU'.
     magma_zmdynamicic_insert os num_rm rm_loc LU_new LU =
       Some (if nnz LU_new \<le> num_rm then 0
             else fst (os (val LU_new) num_rm (nnz LU_new - 1) 1), LN', LU')"
  using insert_total[OF assms, of os] by blast

text \<open>
  The instances: a skipped round (\<open>num_rm = nnz = 1\<close>), and a round that runs out of
  candidates (both candidates are already in the factor, so no slot is used although
  \<open>num_rm = 1\<close>); both return 0 and leave the factor as it was.
\<close>

theorem insert_returns_zero_witness:
  "pattern_ok LU_ins \<and> free_slots LU_ins [4] 1 \<and> candidates_ok LU_ins cand_two \<and>
   candidates_ok LU_ins cand_one \<and>
   magma_zmdynamicic_insert os_arranged 1 [4] cand_one LU_ins = Some (0, cand_one, LU_ins) \<and>
   magma_zmdynamicic_insert os_arranged 1 [4] cand_two LU_ins = Some (0, cand_two, LU_ins) \<and>
   insert_loop 1 [4] cand_two LU_ins 0 0 = Some (LU_ins, 2, 0)"
proof -
  have h: "pattern_ok LU_ins" "free_slots LU_ins [4] 1" "candidates_ok LU_ins cand_two"
    "candidates_ok LU_ins cand_one"
    by code_simp+
  have l: "insert_loop 1 [4] cand_two LU_ins 0 0 = Some (LU_ins, 2, 0)"
    by (simp add: cand_two_def LU_ins_def insert_loop.simps insert_candidate_def rd_def wr_def)
  from insert_returns_zero[OF h(1,2,4), of os_arranged]
  have a: "magma_zmdynamicic_insert os_arranged 1 [4] cand_one LU_ins = Some (0, cand_one, LU_ins)"
    by (simp add: magma_zmdynamicic_insert_def cand_one_def)
  from insert_returns_zero[OF h(1,2,3), of os_arranged] l
  have b: "magma_zmdynamicic_insert os_arranged 1 [4] cand_two LU_ins = Some (0, cand_two, LU_ins)"
    by (simp add: magma_zmdynamicic_insert_def cand_two_def os_arranged_def)
  from h l a b show ?thesis by simp
qed



section \<open>Threshold removal\<close>

text \<open>
  C3 (P9): let the factor satisfy I1--I5 and let \<^verbatim>\<open>rm_loc\<close> have room for \<^verbatim>\<open>nnz\<close>
  entries. Then the removal returns with code 0, and with \<open>freed\<close> the off-diagonal
  slots of the factor whose magnitude is below \<open>|thrs|\<close> (row after row, each row
  in link order):
  \<^item> \<^verbatim>\<open>num_rm\<close> is the number of these slots and the first \<^verbatim>\<open>num_rm\<close> entries of
    \<^verbatim>\<open>rm_loc\<close> are exactly these slots, each once;
  \<^item> each of them has \<^verbatim>\<open>val = 0\<close> and \<^verbatim>\<open>list = -1\<close> afterwards;
  \<^item> in the factor after the call no off-diagonal entry of any row chain has a
    magnitude below \<open>|thrs|\<close>.
\<close>

theorem rm_thrs_threshold:
  assumes "factor_ok LU" and "nnz LU \<le> int (length rm_loc)"
  shows "\<exists>num_rm LU' rm'.
     magma_zmdynamicilu_rm_thrs thrs LU rm_loc = Some (0, num_rm, LU', rm') \<and>
     num_rm = int (length (concat (map (below thrs LU) [0..num_rows LU - 1]))) \<and>
     take (nat num_rm) rm' = concat (map (below thrs LU) [0..num_rows LU - 1]) \<and>
     distinct (take (nat num_rm) rm') \<and>
     (\<forall>s \<in> set (take (nat num_rm) rm'). val LU' ! nat s = 0 \<and> list LU' ! nat s = - 1) \<and>
     (\<forall>r \<in> {0..<num_rows LU}. \<forall>s \<in> set (slots LU' r).
         colv LU' s \<noteq> r \<longrightarrow> \<not> small thrs LU' s)"
proof -
  let ?rs = "[0..num_rows LU - 1]"
  let ?F = "concat (map (below thrs LU) ?rs)"
  from rm_thrs_total[OF assms, of thrs] obtain LU' rm' num_rm where
    res: "magma_zmdynamicilu_rm_thrs thrs LU rm_loc = Some (0, num_rm, LU', rm')"
    and post: "rm_rows_post thrs LU rm_loc 0 ?rs (LU', rm', num_rm)"
    by blast
  note P = rm_rows_postD[OF post]
  have rs: "distinct ?rs" "\<forall>r \<in> set ?rs. 0 \<le> r \<and> r < num_rows LU" by simp_all
  have n: "num_rm = int (length ?F)" using P(11) by simp
  have t: "take (nat num_rm) rm' = ?F" using P(13) by simp
  have d: "distinct (take (nat num_rm) rm')"
    unfolding t using assms(1) rs by (rule concat_below_distinct)
  have z: "\<forall>s \<in> set (take (nat num_rm) rm'). val LU' ! nat s = 0 \<and> list LU' ! nat s = - 1"
    unfolding t using P(8) by blast
  have cv: "colv LU' = colv LU" using P(4) by (simp add: colv_def fun_eq_iff)
  have p9: "\<forall>r \<in> {0..<num_rows LU}. \<forall>s \<in> set (slots LU' r).
         colv LU' s \<noteq> r \<longrightarrow> \<not> small thrs LU' s"
  proof (intro ballI impI)
    fix r s assume r: "r \<in> {0..<num_rows LU}" and s: "s \<in> set (slots LU' r)"
      and c: "colv LU' s \<noteq> r"
    from r have r': "0 \<le> r" "r < num_rows LU" "r \<in> set ?rs" by simp_all
    from P(2) r'(3) s have sr: "s \<in> set (remaining thrs LU r)" by simp
    then have "\<not> (colv LU s \<noteq> r \<and> small thrs LU s)" by (simp add: remaining_def)
    with c have ns: "\<not> small thrs LU s" by (simp add: cv)
    from sr have "s \<in> set (slots LU r)" by (simp add: remaining_def)
    from slots_rowidx(1)[OF assms(1) r'(1,2) this] have s0: "0 \<le> s" by simp
    from remaining_not_freed[OF assms(1) r'(1,2) sr rs(2)] have "s \<notin> set ?F" .
    with P(9) s0 have "val LU' ! nat s = val LU ! nat s" by blast
    with ns show "\<not> small thrs LU' s" by (simp add: small_def)
  qed
  from res n t d z p9 show ?thesis by blast
qed

text \<open>
  The instance: with the threshold 5 every value of \<open>LU_ins\<close> is small; the
  off-diagonal slot 3 is freed and recorded, and row 1 keeps its diagonal only.
\<close>

theorem rm_thrs_threshold_witness:
  "factor_ok LU_ins \<and> nnz LU_ins \<le> int (length [0, 0, 0, 0, 0 :: int]) \<and>
   magma_zmdynamicilu_rm_thrs 5 LU_ins [0, 0, 0, 0, 0] = Some (0, 1, LU_cut, [3, 0, 0, 0, 0]) \<and>
   concat (map (below 5 LU_ins) [0..num_rows LU_ins - 1]) = [3] \<and>
   val LU_cut ! nat 3 = 0 \<and> list LU_cut ! nat 3 = - 1 \<and> slots LU_cut 1 = [2]"
proof -
  have h: "factor_ok LU_ins" by code_simp
  have l: "nnz LU_ins \<le> int (length [0, 0, 0, 0, 0 :: int])" by (simp add: LU_ins_def)
  have e: "magma_zmdynamicilu_rm_thrs 5 LU_ins [0, 0, 0, 0, 0] = Some (0, 1, LU_cut, [3, 0, 0, 0, 0])"
    by (simp add: magma_zmdynamicilu_rm_thrs_def LU_ins_def LU_cut_def rm_thrs_rows.simps
        rm_thrs_walk.simps rd_def wr_def)
  from rm_thrs_threshold[OF h l, of 5] obtain num_rm LU' rm' where
    r: "magma_zmdynamicilu_rm_thrs 5 LU_ins [0, 0, 0, 0, 0] = Some (0, num_rm, LU', rm')"
    and a: "take (nat num_rm) rm' = concat (map (below 5 LU_ins) [0..num_rows LU_ins - 1])"
    and b: "\<forall>s \<in> set (take (nat num_rm) rm'). val LU' ! nat s = 0 \<and> list LU' ! nat s = - 1"
    by blast
  from r e have v: "num_rm = 1" "LU' = LU_cut" "rm' = [3, 0, 0, 0, 0]" by simp_all
  from a have "concat (map (below 5 LU_ins) [0..num_rows LU_ins - 1]) = [3]"
    unfolding v by simp
  moreover from b have "val LU_cut ! nat 3 = 0 \<and> list LU_cut ! nat 3 = - 1"
    unfolding v by simp
  moreover have "slots LU_cut 1 = [2]" by code_simp
  ultimately show ?thesis using h l e by simp
qed

text \<open>
  C4: under the same assumptions the removal never takes the diagonal out. For
  every row \<open>r\<close> the chain after the call is not empty and ends with column \<open>r\<close>
  (I5); its last slot is the last slot of the chain before the call, and the value
  in that slot is untouched, whatever its magnitude and whatever the threshold. The
  source protects the diagonal by position (the loop never tests the last slot of a
  chain), which under I5 is the diagonal.
\<close>

theorem rm_thrs_keeps_diagonal:
  assumes "factor_ok LU" and "nnz LU \<le> int (length rm_loc)"
  shows "\<exists>num_rm LU' rm'.
     magma_zmdynamicilu_rm_thrs thrs LU rm_loc = Some (0, num_rm, LU', rm') \<and>
     (\<forall>r \<in> {0..<num_rows LU}.
         I5 LU' r \<and> last (slots LU' r) = last (slots LU r) \<and>
         val LU' ! nat (last (slots LU r)) = val LU ! nat (last (slots LU r)))"
proof -
  let ?rs = "[0..num_rows LU - 1]"
  let ?F = "concat (map (below thrs LU) ?rs)"
  from rm_thrs_total[OF assms, of thrs] obtain LU' rm' num_rm where
    res: "magma_zmdynamicilu_rm_thrs thrs LU rm_loc = Some (0, num_rm, LU', rm')"
    and post: "rm_rows_post thrs LU rm_loc 0 ?rs (LU', rm', num_rm)"
    by blast
  note P = rm_rows_postD[OF post]
  have rs: "\<forall>r \<in> set ?rs. 0 \<le> r \<and> r < num_rows LU" by simp
  have "I5 LU' r \<and> last (slots LU' r) = last (slots LU r) \<and>
         val LU' ! nat (last (slots LU r)) = val LU ! nat (last (slots LU r))"
    if r: "r \<in> {0..<num_rows LU}" for r
  proof -
    from r have r': "0 \<le> r" "r < num_rows LU" "r \<in> set ?rs" by simp_all
    from P(1,7) r have i5: "I5 LU' r" by (simp add: factor_ok_def)
    from row_split[OF assms(1) r'(1,2), of thrs] obtain xs where x: "chain LU r = Some xs"
      "slots LU r = xs" "xs \<noteq> []" "path (list LU) (row LU ! nat r) xs 0"
      "sorted_wrt (<) (map (colv LU) xs)"
      "\<forall>s \<in> set xs. 0 < s \<and> s < nnz LU \<and> rowidx LU ! nat s = r" "distinct xs"
      "colv LU (last xs) = r"
      "below thrs LU r = filter (small thrs LU) (butlast xs)"
      "remaining thrs LU r = filter (\<lambda>s. \<not> small thrs LU s) (butlast xs) @ [last xs]"
      by blast
    from P(2) r'(3) have sl: "slots LU' r = remaining thrs LU r" by simp
    then have la: "last (slots LU' r) = last (slots LU r)" by (simp add: x(10) x(2))
    have "last xs \<in> set (remaining thrs LU r)" by (simp add: x(10))
    from remaining_not_freed[OF assms(1) r'(1,2) this rs] have nf: "last xs \<notin> set ?F" .
    have "last xs \<in> set xs" using x(3) by simp
    with x(6) have "0 \<le> last xs" by force
    with P(9) nf have "val LU' ! nat (last xs) = val LU ! nat (last xs)" by blast
    with i5 la x(2) show ?thesis by simp
  qed
  with res show ?thesis by blast
qed

text \<open>
  The instance: the diagonal values 2 and 1 of \<open>LU_ins\<close> are below the threshold 5
  and stay in place as the last (and then only) entries of their rows.
\<close>

theorem rm_thrs_keeps_diagonal_witness:
  "factor_ok LU_ins \<and> nnz LU_ins \<le> int (length [0, 0, 0, 0, 0 :: int]) \<and>
   magma_zmdynamicilu_rm_thrs 5 LU_ins [0, 0, 0, 0, 0] = Some (0, 1, LU_cut, [3, 0, 0, 0, 0]) \<and>
   small 5 LU_ins 2 \<and> cols LU_ins 1 = [0, 1] \<and> I5 LU_cut 1 \<and> cols LU_cut 1 = [1] \<and>
   val LU_cut ! nat 2 = 1"
proof -
  have h: "factor_ok LU_ins" by code_simp
  have l: "nnz LU_ins \<le> int (length [0, 0, 0, 0, 0 :: int])" by (simp add: LU_ins_def)
  have e: "magma_zmdynamicilu_rm_thrs 5 LU_ins [0, 0, 0, 0, 0] = Some (0, 1, LU_cut, [3, 0, 0, 0, 0])"
    by (simp add: magma_zmdynamicilu_rm_thrs_def LU_ins_def LU_cut_def rm_thrs_rows.simps
        rm_thrs_walk.simps rd_def wr_def)
  have n: "num_rows LU_ins = 2" by (simp add: LU_ins_def)
  from rm_thrs_keeps_diagonal[OF h l, of 5] e n
  have "\<forall>r \<in> {0..<2}. I5 LU_cut r \<and> last (slots LU_cut r) = last (slots LU_ins r) \<and>
         val LU_cut ! nat (last (slots LU_ins r)) = val LU_ins ! nat (last (slots LU_ins r))"
    by simp
  then have "I5 LU_cut 1" by simp
  moreover have "small 5 LU_ins 2" by (simp add: small_def LU_ins_def)
  moreover have "cols LU_ins 1 = [0, 1]" "cols LU_cut 1 = [1]" by code_simp+
  moreover have "val LU_cut ! nat 2 = 1" by (simp add: LU_cut_def)
  ultimately show ?thesis using h l e by simp
qed

section \<open>The residuals of the candidates\<close>

text \<open>
  C7, as the specification states it, fails: the routine stores the residual
  \<open>A[row,col] - \<Sum>\<^sub>k L[row,k] * L[col,k]\<close> with its sign, not its absolute value
  (source line 619, \<^verbatim>\<open>LU_new->val[ e ] = ( A_e - sum )\<close>). For the system matrix
  \<open>[[4, -1], [-1, 3]]\<close>, the diagonal factor \<open>LU_diag\<close> and the one candidate \<open>(1,0)\<close>
  the residual is \<open>-1\<close>, its magnitude is 1, and the value stored is \<open>-1\<close>.
\<close>

theorem residuals_keep_sign:
  "magma_zmdynamicic_residuals A_neg LU_diag cand_one = Some (0, cand_one\<lparr>val := [- 1]\<rparr>) \<and>
   A_at A_neg 1 0 - dot_all LU_diag 1 0 = - 1 \<and>
   complex_of_real (cmod (A_at A_neg 1 0 - dot_all LU_diag 1 0)) = 1 \<and>
   val (cand_one\<lparr>val := [- 1]\<rparr>) ! 0
     \<noteq> complex_of_real (cmod (A_at A_neg 1 0 - dot_all LU_diag 1 0))"
proof -
  have r: "magma_zmdynamicic_residuals A_neg LU_diag cand_one
      = Some (0, cand_one\<lparr>val := [- 1]\<rparr>)"
    by (simp add: magma_zmdynamicic_residuals_def residual_range.simps residual_elem_def
        lookup_A.simps merge_walk.simps merge_step_def
        A_neg_def LU_diag_def cand_one_def rd_def wr_def)
  have s1: "slots LU_diag 1 = [2]" "slots LU_diag 0 = [1]" by code_simp+
  have v: "A_at A_neg 1 0 - dot_all LU_diag 1 0 = - 1"
    by (simp add: A_at_def dot_all_def entry_def lentry_def s1 colv_def)
       (simp add: A_neg_def LU_diag_def upto.simps)
  show ?thesis unfolding v using r by simp
qed

text \<open>
  C7, amended: let the factor satisfy I1--I5, and let every candidate name a row
  and a column of the factor and a row of the system matrix that lies inside its
  arrays. Then the routine returns with code 0, leaves the positions of the
  candidates as they are, and stores for every candidate \<open>e\<close> at \<open>(row, col)\<close> the
  value \<open>A[row,col] - \<Sum>\<^sub>k L[row,k] * L[col,k]\<close> itself, the sum over the columns \<open>k\<close>
  that both row chains hold; so the magnitude of the stored value is
  \<open>|(A - L * L\<^sup>T)[row,col]|\<close>.
\<close>

theorem residuals_value:
  assumes "factor_ok LU" and "residual_inputs_ok A LU LU_new"
  shows "\<exists>LN'. magma_zmdynamicic_residuals A LU LU_new = Some (0, LN') \<and>
     rowidx LN' = rowidx LU_new \<and> col LN' = col LU_new \<and> nnz LN' = nnz LU_new \<and>
     (\<forall>e \<in> {0..<nnz LU_new}.
        val LN' ! nat e = A_at A (rowidx LU_new ! nat e) (col LU_new ! nat e)
                           - dot_all LU (rowidx LU_new ! nat e) (col LU_new ! nat e) \<and>
        cmod (val LN' ! nat e) = cmod (A_at A (rowidx LU_new ! nat e) (col LU_new ! nat e)
                           - dot_all LU (rowidx LU_new ! nat e) (col LU_new ! nat e)))"
proof (cases "0 \<le> nnz LU_new")
  case False
  then have "residual_range A LU LU_new 0 (nnz LU_new) = Some LU_new"
    by (subst residual_range.simps) simp
  with False show ?thesis by (simp add: magma_zmdynamicic_residuals_def)
next
  case True
  from residual_range_correct[OF assms refl refl refl refl order_refl True]
  obtain LN' where r: "residual_range A LU LU_new 0 (nnz LU_new) = Some LN'"
    and k: "rowidx LN' = rowidx LU_new" "col LN' = col LU_new" "nnz LN' = nnz LU_new"
    and hi: "\<forall>k. 0 \<le> k \<longrightarrow> k < nnz LU_new \<longrightarrow>
         val LN' ! nat k = A_at A (rowidx LU_new ! nat k) (col LU_new ! nat k)
                            - dot_all LU (rowidx LU_new ! nat k) (col LU_new ! nat k)"
    by blast
  have "magma_zmdynamicic_residuals A LU LU_new = Some (0, LN')"
    by (simp add: magma_zmdynamicic_residuals_def r)
  with k hi show ?thesis by simp
qed

text \<open>
  The instance: the system matrix \<open>[[4, -1], [-1, 3]]\<close>, the diagonal factor and the
  candidate \<open>(1,0)\<close>; the stored value is the residual \<open>-1\<close>.
\<close>

theorem residuals_value_witness:
  "factor_ok LU_diag \<and> residual_inputs_ok A_neg LU_diag cand_one \<and>
   magma_zmdynamicic_residuals A_neg LU_diag cand_one = Some (0, cand_one\<lparr>val := [- 1]\<rparr>) \<and>
   A_at A_neg 1 0 - dot_all LU_diag 1 0 = - 1"
proof -
  have h: "factor_ok LU_diag" "residual_inputs_ok A_neg LU_diag cand_one" by code_simp+
  have r: "magma_zmdynamicic_residuals A_neg LU_diag cand_one
      = Some (0, cand_one\<lparr>val := [- 1]\<rparr>)"
    by (simp add: magma_zmdynamicic_residuals_def residual_range.simps residual_elem_def
        lookup_A.simps merge_walk.simps merge_step_def
        A_neg_def LU_diag_def cand_one_def rd_def wr_def)
  have n: "nnz cand_one = 1" "rowidx cand_one = [1]" "col cand_one = [0]"
    by (simp_all add: cand_one_def)
  from residuals_value[OF h] r
  have "\<forall>e \<in> {0..<1::int}. [- 1] ! nat e = A_at A_neg ([1] ! nat e) ([0] ! nat e)
                           - dot_all LU_diag ([1] ! nat e) ([0] ! nat e)"
    by (simp add: n)
  then have "[- 1 :: complex] ! nat 0 = A_at A_neg ([1] ! nat 0) ([0] ! nat 0)
                           - dot_all LU_diag ([1] ! nat 0) ([0] ! nat 0)"
    by (rule bspec) simp
  then have "A_at A_neg 1 0 - dot_all LU_diag 1 0 = - 1" by simp
  with h r show ?thesis by simp
qed

section \<open>The sweep\<close>

text \<open>
  C1: let the factor satisfy I1--I5, and let every slot below \<^verbatim>\<open>nnz\<close> with
  \<^verbatim>\<open>list \<noteq> -1\<close> be live (a slot of the chain of its row; slot 0, the terminator,
  apart) and name a row of the system matrix that lies inside its arrays. Then one
  call of the sweep, its iterations run in index order, returns with code 0 and
  changes nothing but \<^verbatim>\<open>val\<close>; and for every live slot \<open>e\<close> with \<open>r = rowidx[e]\<close> and
  \<open>c = col[e]\<close> the value written is \<open>sqrt (A[r,c] - sum)\<close> when \<open>r = c\<close> and
  \<open>(A[r,c] - sum) / val[jold]\<close> otherwise, where \<open>sum\<close> is the sum of
  \<open>L[r,k] * L[c,k]\<close> over the common columns \<open>k < c\<close> (the matched term of column
  \<open>c\<close>, which ends the walk, is taken out again), \<open>jold\<close> is the last slot of the chain
  of row \<open>c\<close>, which holds the diagonal of row \<open>c\<close>, and the values \<open>L\<close> are those in
  place when slot \<open>e\<close> is reached: already rewritten in the slots below \<open>e\<close>, still
  the old ones from \<open>e\<close> on. Values are exact complex numbers, \<open>sqrt\<close> is the
  principal square root and a division by 0 gives 0.
\<close>

theorem sweep_writes:
  assumes "factor_ok LU" and "sweep_inputs_ok A LU"
  shows "\<exists>w. magma_zmdynamicic_sweep A LU = Some (0, LU\<lparr>val := w\<rparr>) \<and>
     length w = length (val LU) \<and>
     (\<forall>e \<in> {0<..<nnz LU}. list LU ! nat e \<noteq> - 1 \<longrightarrow>
        (let L = LU\<lparr>val := take (nat e) w @ drop (nat e) (val LU)\<rparr>;
             r = rowidx LU ! nat e; c = col LU ! nat e; jold = last (slots LU c)
         in colv LU jold = c \<and>
            w ! nat e = (if r = c then csqrt (A_at A r c - dot_below L r c c)
                         else (A_at A r c - dot_below L r c c) / val L ! nat jold)))"
proof -
  from assms(1) have pok: "pattern_ok LU" by (simp add: factor_ok_def)
  note szd = sizedD[OF pattern_okD[OF pok]]
  from szd have n: "(0::int) \<le> 0" "0 \<le> nnz LU" "nnz LU \<le> nnz LU" by simp_all
  from sweep_range_correct[OF assms n] obtain w where
    r: "sweep_range A LU 0 (nnz LU) = Some (LU\<lparr>val := w\<rparr>)"
    and len: "length w = length (val LU)"
    and hi: "\<forall>k. 0 \<le> k \<longrightarrow> k < nnz LU \<longrightarrow> 0 < k \<longrightarrow> list LU ! nat k \<noteq> - 1 \<longrightarrow>
         w ! nat k = sweep_value A (LU\<lparr>val := take (nat k) w @ drop (nat k) (val LU)\<rparr>) k"
    by blast
  have res: "magma_zmdynamicic_sweep A LU = Some (0, LU\<lparr>val := w\<rparr>)"
    by (simp add: magma_zmdynamicic_sweep_def r)
  have "\<forall>e \<in> {0<..<nnz LU}. list LU ! nat e \<noteq> - 1 \<longrightarrow>
        (let L = LU\<lparr>val := take (nat e) w @ drop (nat e) (val LU)\<rparr>;
             r = rowidx LU ! nat e; c = col LU ! nat e; jold = last (slots LU c)
         in colv LU jold = c \<and>
            w ! nat e = (if r = c then csqrt (A_at A r c - dot_below L r c c)
                         else (A_at A r c - dot_below L r c c) / val L ! nat jold))"
  proof (intro ballI impI)
    fix e assume e: "e \<in> {0<..<nnz LU}" and l: "list LU ! nat e \<noteq> - 1"
    from e have e': "0 \<le> e" "e < nnz LU" "0 < e" "e \<in> {0..<nnz LU}" by simp_all
    from assms(2) e'(4) l have c: "0 \<le> col LU ! nat e" "col LU ! nat e < num_rows LU"
      by (simp_all add: sweep_inputs_ok_def)
    from row_chain[OF assms(1) c] obtain y ys where y: "slots LU (col LU ! nat e) = y # ys"
      "rd (row LU) (col LU ! nat e) = Some y"
      "path (list LU) y (y # ys) 0" "sorted_wrt (<) (map (colv LU) (y # ys))"
      "\<forall>s \<in> set (y # ys). 0 < s \<and> s < int (length (col LU)) \<and> s < int (length (val LU)) \<and>
         s < nnz LU \<and> rowidx LU ! nat s = col LU ! nat e"
      "colv LU (last (y # ys)) = col LU ! nat e"
      by blast
    have d: "colv LU (last (slots LU (col LU ! nat e))) = col LU ! nat e"
      unfolding y(1) by (rule y(6))
    from hi e'(1,2,3) l
    have "w ! nat e = sweep_value A (LU\<lparr>val := take (nat e) w @ drop (nat e) (val LU)\<rparr>) e"
      by blast
    then show "let L = LU\<lparr>val := take (nat e) w @ drop (nat e) (val LU)\<rparr>;
             r = rowidx LU ! nat e; c = col LU ! nat e; jold = last (slots LU c)
         in colv LU jold = c \<and>
            w ! nat e = (if r = c then csqrt (A_at A r c - dot_below L r c c)
                         else (A_at A r c - dot_below L r c c) / val L ! nat jold)"
      by (simp add: sweep_value_def Let_def val_frame d)
  qed
  with res len show ?thesis by blast
qed

text \<open>
  The instance: the system matrix \<open>[[1, 1], [1, 2]]\<close> and the factor \<open>LU_start\<close> with
  the full lower pattern. One sweep yields the Cholesky factor \<open>[[1, 0], [1, 1]]\<close>;
  when slot 3, the diagonal of row 1, is reached, the values in place are
  \<open>[1, 1, 1, 5, 0]\<close>.
\<close>

theorem sweep_writes_witness:
  "factor_ok LU_start \<and> sweep_inputs_ok A_spd LU_start \<and>
   magma_zmdynamicic_sweep A_spd LU_start = Some (0, LU_swept) \<and>
   val LU_swept ! 3 = csqrt (A_at A_spd 1 1 - dot_below (LU_start\<lparr>val := [1, 1, 1, 5, 0]\<rparr>) 1 1 1)"
proof -
  have h: "factor_ok LU_start" "sweep_inputs_ok A_spd LU_start" by code_simp+
  have ev: "magma_zmdynamicic_sweep A_spd LU_start = Some (0, LU_swept)"
    by (simp add: magma_zmdynamicic_sweep_def sweep_range.simps sweep_elem_def
        lookup_A.simps merge_walk.simps merge_step_def
        A_spd_def LU_start_def LU_swept_def rd_def wr_def)
  from sweep_writes[OF h] obtain w where
    r: "magma_zmdynamicic_sweep A_spd LU_start = Some (0, LU_start\<lparr>val := w\<rparr>)"
    and a: "\<forall>e \<in> {0<..<nnz LU_start}. list LU_start ! nat e \<noteq> - 1 \<longrightarrow>
        (let L = LU_start\<lparr>val := take (nat e) w @ drop (nat e) (val LU_start)\<rparr>;
             r = rowidx LU_start ! nat e; c = col LU_start ! nat e;
             jold = last (slots LU_start c)
         in colv LU_start jold = c \<and>
            w ! nat e = (if r = c then csqrt (A_at A_spd r c - dot_below L r c c)
                         else (A_at A_spd r c - dot_below L r c c) / val L ! nat jold))"
    by blast
  from r ev have "LU_start\<lparr>val := w\<rparr> = LU_swept" by simp
  then have "val (LU_start\<lparr>val := w\<rparr>) = val LU_swept" by (rule arg_cong)
  then have w: "w = [1, 1, 1, 1, 0]" by (simp add: LU_swept_def)
  have "(3::int) \<in> {0<..<nnz LU_start}" by (simp add: LU_start_def)
  from bspec[OF a this]
  have "w ! 3 = csqrt (A_at A_spd 1 1
      - dot_below (LU_start\<lparr>val := take 3 w @ drop 3 (val LU_start)\<rparr>) 1 1 1)"
    by (simp add: LU_start_def Let_def)
  then have "val LU_swept ! 3
      = csqrt (A_at A_spd 1 1 - dot_below (LU_start\<lparr>val := [1, 1, 1, 5, 0]\<rparr>) 1 1 1)"
    unfolding w by (simp add: LU_start_def LU_swept_def)
  with h ev show ?thesis by simp
qed

section \<open>Candidate discovery\<close>

text \<open>
  C8, for \<^verbatim>\<open>magma_zmdynamicic_candidates_n\<close>: let the factor satisfy I1--I5, let no
  column of a chain be negative and let \<^verbatim>\<open>row\<close> hold the entry \<^verbatim>\<open>row[num_rows]\<close>. Then
  the routine returns, and when it returns 0 the candidate list has \<^verbatim>\<open>nnz\<close> entries
  in \<^verbatim>\<open>rowidx\<close> and in \<^verbatim>\<open>col\<close>, and every candidate \<open>e\<close> below \<^verbatim>\<open>nnz\<close> satisfies
  \<^verbatim>\<open>rowidx[e] > col[e]\<close> and names a position that the factor does not hold: no slot
  of the chain of row \<^verbatim>\<open>rowidx[e]\<close> has the column \<^verbatim>\<open>col[e]\<close>. The rows are run in
  index order; the factor is the one passed to the routine, which does not change
  it.
\<close>

theorem candidates_below_diagonal_and_absent:
  assumes "factor_ok LU" and "discovery_inputs_ok LU"
  shows "\<exists>info LN. magma_zmdynamicic_candidates_n al LU LU_new = Some (info, LN) \<and>
     (info = 0 \<longrightarrow>
        nnz LN = int (length (rowidx LN)) \<and> nnz LN = int (length (col LN)) \<and>
        (\<forall>e \<in> {0..<nnz LN}. col LN ! nat e < rowidx LN ! nat e \<and>
            col LN ! nat e \<notin> set (cols LU (rowidx LN ! nat e))))"
proof (cases "numadd_code al = 0 \<and> val_code al = 0 \<and> rowidx_code al = 0 \<and> col_code al = 0")
  case False
  from candidates_fails[OF assms False, of LU_new] show ?thesis by blast
next
  case True
  let ?ps = "pairs_upto LU 0 (num_rows LU - 1)"
  let ?LN = "LU_new\<lparr>num_rows := num_rows LU, nnz := int (length ?ps), rowidx := map fst ?ps,
                    col := map snd ?ps, val := map (\<lambda>p. 0) ?ps\<rparr>"
  from True have codes: "numadd_code al = 0" "val_code al = 0" "rowidx_code al = 0"
    "col_code al = 0" by simp_all
  note res = candidates_correct[OF assms codes, of LU_new]
  have "\<forall>e \<in> {0..<nnz ?LN}. col ?LN ! nat e < rowidx ?LN ! nat e \<and>
            col ?LN ! nat e \<notin> set (cols LU (rowidx ?LN ! nat e))"
  proof
    fix e assume "e \<in> {0..<nnz ?LN}"
    then have e: "nat e < length ?ps" by (simp add: nat_less_iff)
    then have "?ps ! nat e \<in> set ?ps" by (rule nth_mem)
    then have "(fst (?ps ! nat e), snd (?ps ! nat e)) \<in> set ?ps" by simp
    from pairs_upto_wanted[OF this] e
    show "col ?LN ! nat e < rowidx ?LN ! nat e \<and>
            col ?LN ! nat e \<notin> set (cols LU (rowidx ?LN ! nat e))"
      by simp
  qed
  moreover have "nnz ?LN = int (length (rowidx ?LN))" "nnz ?LN = int (length (col ?LN))"
    by simp_all
  ultimately show ?thesis using res by blast
qed

text \<open>
  The instance: in the factor \<open>LU_tri\<close> row 2 holds the columns 0, 1, 2 and row 1
  only its diagonal; the discovery yields the one candidate \<open>(1,0)\<close>, which row 1
  does not hold.
\<close>

theorem candidates_below_diagonal_and_absent_witness:
  "factor_ok LU_tri \<and> discovery_inputs_ok LU_tri \<and>
   magma_zmdynamicic_candidates_n al_ok LU_tri cand_one =
     Some (0, cand_one\<lparr>num_rows := 3, nnz := 1, rowidx := [1], col := [0], val := [0]\<rparr>) \<and>
   cols LU_tri 1 = [1] \<and> (0::int) \<notin> set (cols LU_tri 1)"
proof -
  have ok: "factor_ok LU_tri" by code_simp
  have s: "slots LU_tri 0 = [1]" "slots LU_tri 1 = [2]" "slots LU_tri 2 = [3, 4, 5]"
    by code_simp+
  have "{0..<num_rows LU_tri} = {0, 1, 2}" by (auto simp: LU_tri_def)
  then have inp: "discovery_inputs_ok LU_tri"
    by (simp add: discovery_inputs_ok_def s) (simp add: LU_tri_def colv_def)
  have u: "[0..<4] = [0, 1, 2, 3]" by (simp add: upt_rec)
  have z: "zero_fill (map (numadd_init al_ok) [0..<nat (num_rows LU_tri + 1)]) 0
      (num_rows LU_tri + 1) = Some [0, 0, 0, 0]"
    by (simp add: zero_fill.simps LU_tri_def al_ok_def wr_def u)
  have c: "count_rows LU_tri 0 [0, 0, 0, 0] = Some [0, 0, 0, 1]"
    by (simp add: count_rows.simps count_lcol1.simps count_lcol2.simps check_scan.simps
        LU_tri_def rd_def wr_def)
  have t: "running_total [0, 0, 0, 1] 0 (num_rows LU_tri + 1) 0 = Some ([0, 0, 0, 1], 1)"
    by (simp add: running_total.simps LU_tri_def rd_def wr_def)
  have e: "emit_rows LU_tri [0, 0, 0, 1] 0
      (cand_one\<lparr>num_rows := 3, nnz := 1, rowidx := [7], col := [7], val := [7]\<rparr>)
      = Some (cand_one\<lparr>num_rows := 3, nnz := 1, rowidx := [1], col := [0], val := [0]\<rparr>)"
    by (simp add: emit_rows.simps emit_lcol1.simps emit_lcol2.simps check_find.simps
        LU_tri_def cand_one_def rd_def wr_def)
  have n: "num_rows LU_tri = 3" by (simp add: LU_tri_def)
  have ev: "magma_zmdynamicic_candidates_n al_ok LU_tri cand_one =
     Some (0, cand_one\<lparr>num_rows := 3, nnz := 1, rowidx := [1], col := [0], val := [0]\<rparr>)"
    by (simp add: magma_zmdynamicic_candidates_n_def z c t) (simp add: al_ok_def n e)
  from candidates_below_diagonal_and_absent[OF ok inp, of al_ok cand_one] ev
  have "\<forall>e \<in> {0..<1::int}. [0] ! nat e < [1::int] ! nat e \<and>
            [0] ! nat e \<notin> set (cols LU_tri ([1] ! nat e))"
    by simp
  moreover have "(0::int) \<in> {0..<1}" by simp
  ultimately have "[0] ! nat 0 < [1::int] ! nat 0 \<and>
            [0] ! nat 0 \<notin> set (cols LU_tri ([1] ! nat 0))"
    by (rule bspec)
  then have a: "(0::int) \<notin> set (cols LU_tri 1)" by simp
  have cl: "cols LU_tri 1 = [1]" by code_simp
  from ok inp ev cl a show ?thesis by simp
qed


end
